(* ===== verification/Tg_Prelude.thy ===== *)
theory Tg_Prelude
  imports Main
begin

text \<open>
  Shared vocabulary of the development: the fact collections the component theories fill,
  and generic lemmas on lists, options and row updates that several of them use.
\<close>

section \<open>Fact collections\<close>

named_theorems tx_run
  \<comment> \<open>equations for a database program that returns normally\<close>
named_theorems tx_pres
  \<comment> \<open>introduction rules for programs that preserve a property of the rows\<close>
named_theorems sql_defs
  \<comment> \<open>definitions of the program's SQL statements\<close>

section \<open>Lists\<close>

text \<open>A loop that calls \<open>f\<close> on every element in order, threading a state.\<close>

lemma foldl_invariant:
  assumes "P s" and "\<And>s x. P s \<Longrightarrow> x \<in> set xs \<Longrightarrow> P (f s x)"
  shows "P (foldl f s xs)"
  using assms by (induction xs arbitrary: s) auto

lemma find_Some_mem: "find P xs = Some x \<Longrightarrow> x \<in> set xs \<and> P x"
  by (induction xs) (auto split: if_splits)

lemma find_None_iff_all: "find P xs = None \<longleftrightarrow> (\<forall>x\<in>set xs. \<not> P x)"
  by (induction xs) auto

lemma find_append:
  "find P (xs @ ys) = (case find P xs of None \<Rightarrow> find P ys | Some x \<Rightarrow> Some x)"
  by (induction xs) auto

lemma find_map_update:
  assumes "\<And>r. P (f r) = P r"
  shows "find P (map f xs) = map_option f (find P xs)"
  using assms by (induction xs) auto

lemma filter_map_update:
  assumes "\<And>r. P (f r) = P r"
  shows "filter P (map f xs) = map f (filter P xs)"
  using assms by (induction xs) auto

lemma find_filter_hd:
  "find P xs = (case filter P xs of [] \<Rightarrow> None | x # _ \<Rightarrow> Some x)"
  by (induction xs) auto

lemma prefix_exI: "ys = xs @ zs \<Longrightarrow> \<exists>zs. ys = xs @ zs"
  by blast

lemma find_map_if:
  assumes "\<And>r. K r \<Longrightarrow> P (f r) = P r"
  shows "find P (map (\<lambda>r. if K r then f r else r) xs) =
    map_option (\<lambda>r. if K r then f r else r) (find P xs)"
  using assms by (induction xs) auto

lemma filter_map_if:
  assumes "\<And>r. K r \<Longrightarrow> P (f r) = P r"
  shows "filter P (map (\<lambda>r. if K r then f r else r) xs) =
    map (\<lambda>r. if K r then f r else r) (filter P xs)"
  using assms by (induction xs) auto

lemma find_unique:
  assumes "x \<in> set xs" and "P x" and "\<And>y. y \<in> set xs \<Longrightarrow> P y \<Longrightarrow> y = x"
  shows "find P xs = Some x"
proof (cases "find P xs")
  case None
  with assms(1,2) show ?thesis by (simp add: find_None_iff_all)
next
  case (Some y)
  with assms(3) [of y] show ?thesis by (simp add: find_Some_mem)
qed

lemma filter_hd:
  assumes "filter P xs \<noteq> []"
  shows "hd (filter P xs) = the (find P xs)" and "find P xs \<noteq> None"
  using assms by (induction xs) auto

lemma filter_single:
  assumes "length (filter P xs) \<le> 1"
  shows "filter P xs = (case find P xs of None \<Rightarrow> [] | Some x \<Rightarrow> [x])"
  using assms by (cases "filter P xs") (auto simp: find_filter_hd)

section \<open>Options\<close>

text \<open>\<open>std::optional::value_or\<close>.\<close>

fun value_or :: "'a option \<Rightarrow> 'a \<Rightarrow> 'a" where
  "value_or (Some x) d = x"
| "value_or None d = d"

lemma value_or_cases: "P (value_or x d) \<longleftrightarrow> (x = None \<longrightarrow> P d) \<and> (\<forall>v. x = Some v \<longrightarrow> P v)"
  by (cases x) auto

lemma find_Some_ex: "x \<in> set xs \<Longrightarrow> P x \<Longrightarrow> \<exists>y. find P xs = Some y"
  by (induction xs) auto
end
