(* ===== verification/Tg_Schema.thy ===== *)
theory Tg_Schema
  imports Tg_Prelude
begin

text \<open>
  The relational schema of the daemon, as migrations/000001 to 000008 create it: the tables,
  their columns with defaults, their unique keys and their foreign keys. Indexes that are not
  unique, column comments and the bookkeeping columns \<open>created_at\<close> and \<open>updated_at\<close>, which no
  statement of the program reads or writes, are left out.
\<close>

section \<open>Tables and rows\<close>

datatype tname =
    T_files
  | T_users | T_user_usernames
  | T_user_hist_name | T_user_hist_profile_photo | T_user_hist_phone_num | T_user_hist_bio
  | T_user_hist_usernames_events
  | T_groups | T_group_usernames
  | T_group_hist_title | T_group_hist_description | T_group_hist_photo
  | T_group_hist_usernames_events
  | T_private_messages | T_private_message_edits | T_private_message_fwd_info
  | T_group_messages | T_group_message_edits | T_group_message_fwd_info
  | T_group_admins | T_group_admin_hist

text \<open>
  A column value: SQL NULL, an integer (TINYINT to BIGINT UNSIGNED), a character string
  (VARCHAR, MEDIUMTEXT, ENUM) or a byte string (BINARY). A row maps column names to values.
\<close>

datatype sql_val = Null | IntV int | TextV string | BytesV "nat list"

type_synonym row = "string \<Rightarrow> sql_val"
type_synonym db = "tname \<Rightarrow> row list"

record table_def =
  td_columns :: "(string \<times> sql_val) list"
  td_auto :: bool
  td_uniques :: "string list list"
  td_fkeys :: "(string \<times> tname) list"

section \<open>The tables of the migrations\<close>

definition files_def :: table_def where
  "files_def = \<lparr>
     td_columns = [(''id'', Null), (''tg_file_id'', Null), (''file_type'', TextV ''unknown''),
       (''file_size'', IntV 0), (''sha256'', Null), (''file_ext'', Null),
       (''orig_file_name'', TextV ''''), (''hit_count'', IntV 1)],
     td_auto = True,
     td_uniques = [[''id''], [''tg_file_id''], [''sha256'']],
     td_fkeys = []\<rparr>"

definition users_def :: table_def where
  "users_def = \<lparr>
     td_columns = [(''id'', Null), (''first_name'', TextV ''''), (''last_name'', TextV ''''),
       (''phone_number'', TextV ''''), (''type'', TextV ''unknown''),
       (''profile_photo_file_id'', Null), (''accent_color_id'', IntV 0),
       (''background_custom_emoji_id'', IntV 0), (''profile_accent_color_id'', IntV (- 1)),
       (''profile_background_custom_emoji_id'', IntV 0),
       (''emoji_status_custom_emoji_id'', Null), (''emoji_status_expiration_date'', Null),
       (''is_verified'', IntV 0), (''is_scam'', IntV 0), (''is_fake'', IntV 0),
       (''is_premium'', IntV 0), (''is_support'', IntV 0),
       (''restriction_reason'', TextV ''''), (''has_sensitive_content'', IntV 0),
       (''restricts_new_chats'', IntV 0), (''paid_message_star_count'', IntV 0),
       (''is_contact'', IntV 0), (''is_mutual_contact'', IntV 0), (''is_close_friend'', IntV 0),
       (''have_access'', IntV 0), (''language_code'', TextV ''''), (''bio'', TextV ''''),
       (''personal_chat_id'', IntV 0), (''birthday_day'', Null), (''birthday_month'', Null),
       (''birthday_year'', Null)],
     td_auto = False,
     td_uniques = [[''id'']],
     td_fkeys = [(''profile_photo_file_id'', T_files)]\<rparr>"

definition user_usernames_def :: table_def where
  "user_usernames_def = \<lparr>
     td_columns = [(''id'', Null), (''user_id'', Null), (''username'', Null), (''kind'', Null),
       (''position'', IntV 0)],
     td_auto = True,
     td_uniques = [[''id''], [''username'']],
     td_fkeys = [(''user_id'', T_users)]\<rparr>"

definition user_hist_name_def :: table_def where
  "user_hist_name_def = \<lparr>
     td_columns = [(''id'', Null), (''user_id'', Null), (''first_name'', TextV ''''),
       (''last_name'', TextV '''')],
     td_auto = True, td_uniques = [[''id'']], td_fkeys = [(''user_id'', T_users)]\<rparr>"

definition user_hist_profile_photo_def :: table_def where
  "user_hist_profile_photo_def = \<lparr>
     td_columns = [(''id'', Null), (''user_id'', Null), (''file_id'', Null)],
     td_auto = True, td_uniques = [[''id'']],
     td_fkeys = [(''user_id'', T_users), (''file_id'', T_files)]\<rparr>"

definition user_hist_phone_num_def :: table_def where
  "user_hist_phone_num_def = \<lparr>
     td_columns = [(''id'', Null), (''user_id'', Null), (''phone_number'', TextV '''')],
     td_auto = True, td_uniques = [[''id'']], td_fkeys = [(''user_id'', T_users)]\<rparr>"

definition user_hist_bio_def :: table_def where
  "user_hist_bio_def = \<lparr>
     td_columns = [(''id'', Null), (''user_id'', Null), (''bio'', TextV '''')],
     td_auto = True, td_uniques = [[''id'']], td_fkeys = [(''user_id'', T_users)]\<rparr>"

definition user_hist_usernames_events_def :: table_def where
  "user_hist_usernames_events_def = \<lparr>
     td_columns = [(''id'', Null), (''user_id'', Null), (''username'', Null), (''action'', Null),
       (''kind'', Null), (''position'', Null)],
     td_auto = True, td_uniques = [[''id'']], td_fkeys = [(''user_id'', T_users)]\<rparr>"

definition groups_def :: table_def where
  "groups_def = \<lparr>
     td_columns = [(''id'', Null), (''type'', TextV ''basic_group''), (''title'', TextV ''''),
       (''description'', TextV ''''), (''photo_file_id'', Null)],
     td_auto = False, td_uniques = [[''id'']], td_fkeys = [(''photo_file_id'', T_files)]\<rparr>"

definition group_usernames_def :: table_def where
  "group_usernames_def = \<lparr>
     td_columns = [(''id'', Null), (''group_id'', Null), (''username'', Null), (''kind'', Null),
       (''position'', IntV 0)],
     td_auto = True,
     td_uniques = [[''id''], [''username'']],
     td_fkeys = [(''group_id'', T_groups)]\<rparr>"

definition group_hist_title_def :: table_def where
  "group_hist_title_def = \<lparr>
     td_columns = [(''id'', Null), (''group_id'', Null), (''title'', TextV '''')],
     td_auto = True, td_uniques = [[''id'']], td_fkeys = [(''group_id'', T_groups)]\<rparr>"

definition group_hist_description_def :: table_def where
  "group_hist_description_def = \<lparr>
     td_columns = [(''id'', Null), (''group_id'', Null), (''description'', TextV '''')],
     td_auto = True, td_uniques = [[''id'']], td_fkeys = [(''group_id'', T_groups)]\<rparr>"

definition group_hist_photo_def :: table_def where
  "group_hist_photo_def = \<lparr>
     td_columns = [(''id'', Null), (''group_id'', Null), (''file_id'', Null)],
     td_auto = True, td_uniques = [[''id'']],
     td_fkeys = [(''group_id'', T_groups), (''file_id'', T_files)]\<rparr>"

definition group_hist_usernames_events_def :: table_def where
  "group_hist_usernames_events_def = \<lparr>
     td_columns = [(''id'', Null), (''group_id'', Null), (''username'', Null),
       (''action'', Null), (''kind'', Null), (''position'', Null)],
     td_auto = True, td_uniques = [[''id'']], td_fkeys = [(''group_id'', T_groups)]\<rparr>"

definition message_edits_def :: "string \<Rightarrow> tname \<Rightarrow> table_def" where
  "message_edits_def fk msgs = \<lparr>
     td_columns = [(''id'', Null), (fk, Null), (''content_type'', TextV ''unknown''),
       (''text'', Null), (''file_id'', Null), (''edit_date'', Null)],
     td_auto = True, td_uniques = [[''id'']],
     td_fkeys = [(fk, msgs), (''file_id'', T_files)]\<rparr>"

definition message_fwd_info_def :: "string \<Rightarrow> tname \<Rightarrow> table_def" where
  "message_fwd_info_def fk msgs = \<lparr>
     td_columns = [(''id'', Null), (fk, Null), (''origin_type'', Null),
       (''origin_sender_user_id'', Null), (''origin_sender_name'', Null),
       (''origin_chat_id'', Null), (''origin_message_id'', Null), (''origin_date'', IntV 0)],
     td_auto = True, td_uniques = [[''id''], [fk]],
     td_fkeys = [(fk, msgs), (''origin_sender_user_id'', T_users)]\<rparr>"

definition private_messages_def :: table_def where
  "private_messages_def = \<lparr>
     td_columns = [(''id'', Null), (''chat_id'', Null), (''message_id'', Null),
       (''sender_id'', Null), (''is_outgoing'', IntV 0), (''date'', IntV 0),
       (''edit_date'', IntV 0), (''content_type'', TextV ''unknown''), (''text'', Null),
       (''file_id'', Null), (''is_deleted'', IntV 0), (''is_forwarded'', IntV 0),
       (''reply_to_chat_id'', Null), (''reply_to_msg_id'', Null), (''reply_to_id'', Null)],
     td_auto = True,
     td_uniques = [[''id''], [''chat_id'', ''message_id'']],
     td_fkeys = [(''chat_id'', T_users), (''sender_id'', T_users), (''file_id'', T_files),
       (''reply_to_id'', T_private_messages)]\<rparr>"

definition private_message_edits_def :: table_def where
  "private_message_edits_def = message_edits_def ''private_message_id'' T_private_messages"

definition private_message_fwd_info_def :: table_def where
  "private_message_fwd_info_def = message_fwd_info_def ''private_message_id'' T_private_messages"

definition group_messages_def :: table_def where
  "group_messages_def = \<lparr>
     td_columns = [(''id'', Null), (''chat_id'', Null), (''message_id'', Null),
       (''sender_user_id'', Null), (''sender_chat_id'', Null), (''is_outgoing'', IntV 0),
       (''is_channel_post'', IntV 0), (''author_signature'', Null), (''date'', IntV 0),
       (''edit_date'', IntV 0), (''content_type'', TextV ''unknown''), (''text'', Null),
       (''file_id'', Null), (''is_deleted'', IntV 0), (''is_forwarded'', IntV 0),
       (''reply_to_chat_id'', Null), (''reply_to_msg_id'', Null), (''reply_to_id'', Null)],
     td_auto = True,
     td_uniques = [[''id''], [''chat_id'', ''message_id'']],
     td_fkeys = [(''chat_id'', T_groups), (''sender_user_id'', T_users),
       (''sender_chat_id'', T_groups), (''file_id'', T_files),
       (''reply_to_id'', T_group_messages)]\<rparr>"

definition group_message_edits_def :: table_def where
  "group_message_edits_def = message_edits_def ''group_message_id'' T_group_messages"

definition group_message_fwd_info_def :: table_def where
  "group_message_fwd_info_def = message_fwd_info_def ''group_message_id'' T_group_messages"

text \<open>The 17 privilege columns of the two administrator tables, in the migration's order.\<close>

definition admin_right_columns :: "string list" where
  "admin_right_columns = [''can_manage_chat'', ''can_change_info'', ''can_post_messages'',
     ''can_edit_messages'', ''can_delete_messages'', ''can_invite_users'',
     ''can_restrict_members'', ''can_pin_messages'', ''can_manage_topics'',
     ''can_promote_members'', ''can_manage_video_chats'', ''can_post_stories'',
     ''can_edit_stories'', ''can_delete_stories'', ''can_manage_direct_messages'',
     ''can_manage_tags'', ''is_anonymous'']"

definition group_admins_def :: table_def where
  "group_admins_def = \<lparr>
     td_columns = [(''id'', Null), (''group_id'', Null), (''user_id'', Null), (''status'', Null),
       (''custom_title'', TextV ''''), (''inviter_user_id'', IntV 0), (''joined_date'', IntV 0)]
       @ map (\<lambda>c. (c, IntV 0)) admin_right_columns,
     td_auto = True,
     td_uniques = [[''id''], [''group_id'', ''user_id'']],
     td_fkeys = [(''group_id'', T_groups), (''user_id'', T_users)]\<rparr>"

definition group_admin_hist_def :: table_def where
  "group_admin_hist_def = \<lparr>
     td_columns = [(''id'', Null), (''group_id'', Null), (''user_id'', Null), (''action'', Null),
       (''status'', Null), (''custom_title'', TextV '''')]
       @ map (\<lambda>c. (c, IntV 0)) admin_right_columns,
     td_auto = True, td_uniques = [[''id'']], td_fkeys = [(''group_id'', T_groups)]\<rparr>"

section \<open>The schema\<close>

primrec schema :: "tname \<Rightarrow> table_def" where
  "schema T_files = files_def"
| "schema T_users = users_def"
| "schema T_user_usernames = user_usernames_def"
| "schema T_user_hist_name = user_hist_name_def"
| "schema T_user_hist_profile_photo = user_hist_profile_photo_def"
| "schema T_user_hist_phone_num = user_hist_phone_num_def"
| "schema T_user_hist_bio = user_hist_bio_def"
| "schema T_user_hist_usernames_events = user_hist_usernames_events_def"
| "schema T_groups = groups_def"
| "schema T_group_usernames = group_usernames_def"
| "schema T_group_hist_title = group_hist_title_def"
| "schema T_group_hist_description = group_hist_description_def"
| "schema T_group_hist_photo = group_hist_photo_def"
| "schema T_group_hist_usernames_events = group_hist_usernames_events_def"
| "schema T_private_messages = private_messages_def"
| "schema T_private_message_edits = private_message_edits_def"
| "schema T_private_message_fwd_info = private_message_fwd_info_def"
| "schema T_group_messages = group_messages_def"
| "schema T_group_message_edits = group_message_edits_def"
| "schema T_group_message_fwd_info = group_message_fwd_info_def"
| "schema T_group_admins = group_admins_def"
| "schema T_group_admin_hist = group_admin_hist_def"

lemmas table_defs =
  files_def_def users_def_def user_usernames_def_def user_hist_name_def_def
  user_hist_profile_photo_def_def user_hist_phone_num_def_def user_hist_bio_def_def
  user_hist_usernames_events_def_def groups_def_def group_usernames_def_def
  group_hist_title_def_def group_hist_description_def_def group_hist_photo_def_def
  group_hist_usernames_events_def_def message_edits_def_def message_fwd_info_def_def
  private_messages_def_def private_message_edits_def_def private_message_fwd_info_def_def
  group_messages_def_def group_message_edits_def_def group_message_fwd_info_def_def
  group_admins_def_def group_admin_hist_def_def

text \<open>The library's enumeration class lets closed statements about every table evaluate.\<close>

instantiation tname :: enum
begin

definition enum_tname :: "tname list" where
  "enum_tname = [T_files, T_users, T_user_usernames, T_user_hist_name,
     T_user_hist_profile_photo, T_user_hist_phone_num, T_user_hist_bio,
     T_user_hist_usernames_events, T_groups, T_group_usernames, T_group_hist_title,
     T_group_hist_description, T_group_hist_photo, T_group_hist_usernames_events,
     T_private_messages, T_private_message_edits, T_private_message_fwd_info,
     T_group_messages, T_group_message_edits, T_group_message_fwd_info,
     T_group_admins, T_group_admin_hist]"

definition enum_all_tname :: "(tname \<Rightarrow> bool) \<Rightarrow> bool" where
  "enum_all_tname P = list_all P enum_class.enum"

definition enum_ex_tname :: "(tname \<Rightarrow> bool) \<Rightarrow> bool" where
  "enum_ex_tname P = list_ex P enum_class.enum"

lemma tname_in_enum: "(t :: tname) \<in> set enum_class.enum"
  by (cases t) (simp_all add: enum_tname_def)

instance
proof
  show "(UNIV :: tname set) = set enum_class.enum"
    using tname_in_enum by auto
  show "distinct (enum_class.enum :: tname list)"
    by (simp add: enum_tname_def)
  fix P :: "tname \<Rightarrow> bool"
  show "enum_class.enum_all P = Ball UNIV P"
    using tname_in_enum by (auto simp: enum_all_tname_def list_all_iff)
  show "enum_class.enum_ex P = Bex UNIV P"
    using tname_in_enum by (auto simp: enum_ex_tname_def list_ex_iff)
qed

end

text \<open>Every foreign key names a column of its own table, and every unique key is made of columns.\<close>

definition schema_columns :: "tname \<Rightarrow> string list" where
  "schema_columns t = map fst (td_columns (schema t))"

definition table_wf :: "tname \<Rightarrow> bool" where
  "table_wf t \<longleftrightarrow>
     distinct (schema_columns t) \<and> ''id'' \<in> set (schema_columns t) \<and>
     [''id''] \<in> set (td_uniques (schema t)) \<and>
     (\<forall>ks\<in>set (td_uniques (schema t)). set ks \<subseteq> set (schema_columns t)) \<and>
     (\<forall>(c, t')\<in>set (td_fkeys (schema t)). c \<in> set (schema_columns t) \<and> c \<noteq> ''id'')"

lemma id_unique: "[''id''] \<in> set (td_uniques (schema t))"
  by (cases t) (simp_all add: table_defs)

lemma fkeys_not_id: "(c, t') \<in> set (td_fkeys (schema t)) \<Longrightarrow> c \<noteq> ''id''"
  by (cases t) (auto simp: table_defs)

end
