(* ===== verification/Sql_Engine.thy ===== *)
theory Sql_Engine
  imports Tg_Schema
begin

text \<open>
  The SQL the program's string literals are written in: expressions, the four statement forms
  and the query form they use, and what executing one does to the rows of the schema's tables.
  Errors a statement raises because of the data (duplicate key, missing foreign-key target, wrong
  number of bound parameters) are computed; every other rejection by the server is left to the
  fault schedule of theory \<open>Db_Session\<close>. The collation of character columns
  (utf8mb4_0900_ai_ci) is a parameter: its weight function, under which two strings compare equal
  when they have the same weight.

  The second half proves the integrity every statement keeps: unique keys stay unique, foreign
  keys keep their targets, generated ids stay below the counter.
\<close>

section \<open>Expressions\<close>

text \<open>
  \<open>Arg n\<close> is the n-th placeholder of the statement text, counted from 0. \<open>JoinId\<close> is \<open>r.id\<close> of
  the joined row of the one LEFT JOIN update.
\<close>

datatype sql_expr =
    Arg nat
  | Lit sql_val
  | Col string
  | Plus sql_expr sql_expr
  | IfEq sql_expr sql_expr sql_expr sql_expr
  | Unhex sql_expr
  | JoinId

type_synonym collation = "string \<Rightarrow> string"

fun val_eq :: "collation \<Rightarrow> sql_val \<Rightarrow> sql_val \<Rightarrow> bool" where
  "val_eq w (IntV i) (IntV j) = (i = j)"
| "val_eq w (TextV s) (TextV t) = (w s = w t)"
| "val_eq w (BytesV s) (BytesV t) = (s = t)"
| "val_eq w _ _ = False"

definition hex_digit :: "char \<Rightarrow> nat option" where
  "hex_digit c =
     (let n = of_char c :: nat in
      if 48 \<le> n \<and> n \<le> 57 then Some (n - 48)
      else if 97 \<le> n \<and> n \<le> 102 then Some (n - 87)
      else if 65 \<le> n \<and> n \<le> 70 then Some (n - 55)
      else None)"

fun unhex :: "string \<Rightarrow> nat list option" where
  "unhex [] = Some []"
| "unhex [c] = None"
| "unhex (c # d # cs) =
     (case (hex_digit c, hex_digit d, unhex cs) of
        (Some h, Some l, Some bs) \<Rightarrow> Some ((16 * h + l) # bs)
      | _ \<Rightarrow> None)"

fun plus_val :: "sql_val \<Rightarrow> sql_val \<Rightarrow> sql_val" where
  "plus_val (IntV i) (IntV j) = IntV (i + j)"
| "plus_val _ _ = Null"

fun unhex_val :: "sql_val \<Rightarrow> sql_val" where
  "unhex_val (TextV s) = (case unhex s of Some bs \<Rightarrow> BytesV bs | None \<Rightarrow> Null)"
| "unhex_val _ = Null"

primrec eval_expr :: "collation \<Rightarrow> sql_val list \<Rightarrow> row \<Rightarrow> sql_val \<Rightarrow> sql_expr \<Rightarrow> sql_val" where
  "eval_expr w args r j (Arg n) = (if n < length args then args ! n else Null)"
| "eval_expr w args r j (Lit v) = v"
| "eval_expr w args r j (Col c) = r c"
| "eval_expr w args r j (Plus a b) = plus_val (eval_expr w args r j a) (eval_expr w args r j b)"
| "eval_expr w args r j (IfEq a b c d) =
     (if val_eq w (eval_expr w args r j a) (eval_expr w args r j b)
      then eval_expr w args r j c else eval_expr w args r j d)"
| "eval_expr w args r j (Unhex a) = unhex_val (eval_expr w args r j a)"
| "eval_expr w args r j JoinId = j"

section \<open>Statements\<close>

type_synonym assignments = "(string \<times> sql_expr) list"

text \<open>
  \<open>Insert t cols vals odku\<close> is \<open>INSERT INTO t (cols) VALUES (vals)\<close>, with
  \<open>AS new ON DUPLICATE KEY UPDATE c = new.c, ...\<close> for the columns of \<open>odku\<close> when it is given.
  \<open>Update t join sets wh\<close> is \<open>UPDATE t AS m LEFT JOIN t AS r ON join SET sets WHERE wh\<close>, without the
  join when it is \<open>None\<close>; join conditions and \<open>wh\<close> are conjunctions of equalities.
\<close>

datatype sql_stmt =
    Insert tname "string list" "sql_expr list" "string list option"
  | Update tname "assignments option" assignments assignments
  | Delete tname assignments

datatype sql_query = Select "sql_expr list" "tname option" assignments

text \<open>Placeholders in the order they appear in the statement text.\<close>

primrec expr_args :: "sql_expr \<Rightarrow> nat list" where
  "expr_args (Arg n) = [n]"
| "expr_args (Lit v) = []"
| "expr_args (Col c) = []"
| "expr_args (Plus a b) = expr_args a @ expr_args b"
| "expr_args (IfEq a b c d) = expr_args a @ expr_args b @ expr_args c @ expr_args d"
| "expr_args (Unhex a) = expr_args a"
| "expr_args JoinId = []"

definition sets_args :: "assignments \<Rightarrow> nat list" where
  "sets_args cs = concat (map (expr_args \<circ> snd) cs)"

primrec stmt_args :: "sql_stmt \<Rightarrow> nat list" where
  "stmt_args (Insert t cols vals odku) = concat (map expr_args vals)"
| "stmt_args (Update t join sets wh) =
     (case join of None \<Rightarrow> [] | Some on \<Rightarrow> sets_args on) @ sets_args sets @ sets_args wh"
| "stmt_args (Delete t wh) = sets_args wh"

primrec query_args :: "sql_query \<Rightarrow> nat list" where
  "query_args (Select es t wh) = concat (map expr_args es) @ sets_args wh"

section \<open>Row operations\<close>

definition match :: "collation \<Rightarrow> sql_val list \<Rightarrow> assignments \<Rightarrow> row \<Rightarrow> bool" where
  "match w args wh r \<longleftrightarrow> (\<forall>(c, e)\<in>set wh. val_eq w (r c) (eval_expr w args r Null e))"

definition apply_sets :: "collation \<Rightarrow> sql_val list \<Rightarrow> sql_val \<Rightarrow> assignments \<Rightarrow> row \<Rightarrow> row" where
  "apply_sets w args j sets r = foldl (\<lambda>r (c, e). r(c := eval_expr w args r j e)) r sets"

definition blank_row :: "tname \<Rightarrow> row" where
  "blank_row t = (\<lambda>c. case map_of (td_columns (schema t)) c of Some v \<Rightarrow> v | None \<Rightarrow> Null)"

definition copy_cols :: "string list \<Rightarrow> row \<Rightarrow> row \<Rightarrow> row" where
  "copy_cols cols new r = foldl (\<lambda>r c. r(c := new c)) r cols"

definition conflict :: "collation \<Rightarrow> tname \<Rightarrow> row \<Rightarrow> row \<Rightarrow> bool" where
  "conflict w t r r' \<longleftrightarrow> (\<exists>ks\<in>set (td_uniques (schema t)). \<forall>k\<in>set ks. val_eq w (r k) (r' k))"

fun uniq_rows :: "collation \<Rightarrow> tname \<Rightarrow> row list \<Rightarrow> bool" where
  "uniq_rows w t [] = True"
| "uniq_rows w t (r # rs) = ((\<forall>r'\<in>set rs. \<not> conflict w t r r') \<and> uniq_rows w t rs)"

definition has_id :: "db \<Rightarrow> tname \<Rightarrow> sql_val \<Rightarrow> bool" where
  "has_id d t v \<longleftrightarrow> (\<exists>r\<in>set (d t). r ''id'' = v)"

definition fk_row :: "db \<Rightarrow> tname \<Rightarrow> row \<Rightarrow> bool" where
  "fk_row d t r \<longleftrightarrow> (\<forall>(c, t')\<in>set (td_fkeys (schema t)). r c = Null \<or> has_id d t' (r c))"

definition referenced :: "tname \<Rightarrow> bool" where
  "referenced t \<longleftrightarrow> (\<exists>t'\<in>set enum_class.enum. t \<in> snd ` set (td_fkeys (schema t')))"

text \<open>Rewriting the first row that satisfies a condition.\<close>

fun map_first :: "('a \<Rightarrow> bool) \<Rightarrow> ('a \<Rightarrow> 'a) \<Rightarrow> 'a list \<Rightarrow> 'a list" where
  "map_first P f [] = []"
| "map_first P f (x # xs) = (if P x then f x # xs else x # map_first P f xs)"

section \<open>Execution\<close>

text \<open>
  \<open>SqlException\<close> as the connector reports it. \<open>Unsupported\<close> marks what the schema would resolve
  by ON DELETE or ON UPDATE actions (deleting rows of a referenced table, changing an id); no
  statement of the program does that.
\<close>

datatype sql_exn = DupKey | FkFail | BadParams | Unsupported | ServerFault string

type_synonym counters = "tname \<Rightarrow> int"

definition new_row :: "collation \<Rightarrow> sql_val list \<Rightarrow> tname \<Rightarrow> string list \<Rightarrow> sql_expr list \<Rightarrow> counters \<Rightarrow> row"
  where
  "new_row w args t cols vals au =
     (let r = apply_sets w args Null (zip cols vals) (blank_row t)
      in if td_auto (schema t) then r(''id'' := IntV (au t)) else r)"

definition bump :: "tname \<Rightarrow> counters \<Rightarrow> counters" where
  "bump t au = (if td_auto (schema t) then au(t := au t + 1) else au)"

text \<open>Replacing the rows of one table, refused when a key or reference would break.\<close>

definition put_rows :: "collation \<Rightarrow> db \<Rightarrow> tname \<Rightarrow> row list \<Rightarrow> row list \<Rightarrow> sql_exn + db" where
  "put_rows w d t touched rs =
     (if \<not> uniq_rows w t rs then Inl DupKey
      else if \<not> list_all (fk_row (d(t := rs)) t) touched then Inl FkFail
      else Inr (d(t := rs)))"

definition exec_insert :: "collation \<Rightarrow> sql_val list \<Rightarrow> tname \<Rightarrow> string list \<Rightarrow> sql_expr list \<Rightarrow>
    string list option \<Rightarrow> db \<Rightarrow> counters \<Rightarrow> sql_exn + (db \<times> counters)" where
  "exec_insert w args t cols vals odku d au =
     (let new = new_row w args t cols vals au in
      case (odku, find (conflict w t new) (d t)) of
        (Some ups, Some old) \<Rightarrow>
          (if ''id'' \<in> set ups then Inl Unsupported else
           let upd = copy_cols ups new old in
           case put_rows w d t [upd] (map_first (conflict w t new) (\<lambda>_. upd) (d t)) of
             Inl e \<Rightarrow> Inl e
           | Inr d' \<Rightarrow> Inr (d', bump t au))
      | (_, _) \<Rightarrow>
          (case put_rows w d t [new] (d t @ [new]) of
             Inl e \<Rightarrow> Inl e
           | Inr d' \<Rightarrow> Inr (d', bump t au)))"

definition join_id :: "collation \<Rightarrow> sql_val list \<Rightarrow> assignments option \<Rightarrow> row list \<Rightarrow> sql_val" where
  "join_id w args join rs =
     (case join of None \<Rightarrow> Null
      | Some on \<Rightarrow> (case find (match w args on) rs of None \<Rightarrow> Null | Some r \<Rightarrow> r ''id''))"

definition exec_update :: "collation \<Rightarrow> sql_val list \<Rightarrow> tname \<Rightarrow> assignments option \<Rightarrow>
    assignments \<Rightarrow> assignments \<Rightarrow> db \<Rightarrow> sql_exn + db" where
  "exec_update w args t join sets wh d =
     (if ''id'' \<in> set (map fst sets) then Inl Unsupported else
      let upd = apply_sets w args (join_id w args join (d t)) sets
      in put_rows w d t (map upd (filter (match w args wh) (d t)))
           (map (\<lambda>r. if match w args wh r then upd r else r) (d t)))"

definition exec_stmt :: "collation \<Rightarrow> sql_val list \<Rightarrow> sql_stmt \<Rightarrow> db \<Rightarrow> counters \<Rightarrow>
    sql_exn + (db \<times> counters)" where
  "exec_stmt w args st d au =
     (if length args \<noteq> length (stmt_args st) then Inl BadParams else
      case st of
        Insert t cols vals odku \<Rightarrow> exec_insert w args t cols vals odku d au
      | Update t join sets wh \<Rightarrow>
          (case exec_update w args t join sets wh d of Inl e \<Rightarrow> Inl e | Inr d' \<Rightarrow> Inr (d', au))
      | Delete t wh \<Rightarrow>
          (if referenced t then Inl Unsupported
           else Inr (d(t := filter (\<lambda>r. \<not> match w args wh r) (d t)), au)))"

definition exec_query :: "collation \<Rightarrow> sql_val list \<Rightarrow> sql_query \<Rightarrow> db \<Rightarrow> sql_exn + sql_val list list" where
  "exec_query w args q d =
     (if length args \<noteq> length (query_args q) then Inl BadParams else
      case q of Select es src wh \<Rightarrow>
        (case src of
           None \<Rightarrow> Inr [map (eval_expr w args (\<lambda>_. Null) Null) es]
         | Some t \<Rightarrow> Inr (map (\<lambda>r. map (eval_expr w args r Null) es)
                            (filter (match w args wh) (d t)))))"

section \<open>Well-formed statements\<close>

text \<open>
  What the server's parser and the binding of parameters demand of a statement's text: the
  placeholders are the first \<open>n\<close> in textual order, there is one value per inserted column, and
  every column exists in its table.
\<close>

primrec expr_cols :: "sql_expr \<Rightarrow> string list" where
  "expr_cols (Arg n) = []"
| "expr_cols (Lit v) = []"
| "expr_cols (Col c) = [c]"
| "expr_cols (Plus a b) = expr_cols a @ expr_cols b"
| "expr_cols (IfEq a b c d) = expr_cols a @ expr_cols b @ expr_cols c @ expr_cols d"
| "expr_cols (Unhex a) = expr_cols a"
| "expr_cols JoinId = []"

definition cols_in :: "tname \<Rightarrow> assignments \<Rightarrow> bool" where
  "cols_in t cs \<longleftrightarrow> list_all (\<lambda>(c, e). list_all (\<lambda>k. k \<in> set (schema_columns t)) (c # expr_cols e)) cs"

definition in_order :: "nat list \<Rightarrow> bool" where
  "in_order ns \<longleftrightarrow> ns = [0..<length ns]"

primrec stmt_wf :: "sql_stmt \<Rightarrow> bool" where
  "stmt_wf (Insert t cols vals odku) =
     (in_order (stmt_args (Insert t cols vals odku)) \<and> length cols = length vals \<and> distinct cols \<and>
      cols_in t (zip cols vals) \<and>
      (case odku of None \<Rightarrow> True
       | Some ups \<Rightarrow> distinct ups \<and> list_all (\<lambda>c. c \<in> set cols \<and> c \<noteq> ''id'') ups))"
| "stmt_wf (Update t join sets wh) =
     (in_order (stmt_args (Update t join sets wh)) \<and> cols_in t sets \<and> cols_in t wh \<and>
      ''id'' \<notin> set (map fst sets) \<and>
      (case join of None \<Rightarrow> True | Some on \<Rightarrow> cols_in t on))"
| "stmt_wf (Delete t wh) =
     (in_order (stmt_args (Delete t wh)) \<and> cols_in t wh \<and> \<not> referenced t)"

section \<open>Row operations: what they keep\<close>

lemma apply_sets_frame [simp]: "c \<notin> set (map fst sets) \<Longrightarrow> apply_sets w args j sets r c = r c"
  by (induction sets arbitrary: r) (auto simp: apply_sets_def)

lemma apply_sets_simps [simp]:
  "apply_sets w args j [] r = r"
  "apply_sets w args j ((c, e) # sets) r = apply_sets w args j sets (r(c := eval_expr w args r j e))"
  by (simp_all add: apply_sets_def)

lemma args_simps [simp]:
  "sets_args [] = []" "sets_args ((c, e) # cs) = expr_args e @ sets_args cs"
  by (simp_all add: sets_args_def)

lemma copy_cols_apply: "copy_cols cols new r c = (if c \<in> set cols then new c else r c)"
  by (induction cols arbitrary: r) (auto simp: copy_cols_def)

lemma match_simps [simp]:
  "match w args [] = (\<lambda>r. True)"
  "match w args ((c, e) # wh) =
     (\<lambda>r. val_eq w (r c) (eval_expr w args r Null e) \<and> match w args wh r)"
  by (auto simp: match_def fun_eq_iff)

lemma val_eq_sym: "val_eq w x y = val_eq w y x"
  by (cases x; cases y) auto

lemma val_eq_trans: "val_eq w x y \<Longrightarrow> val_eq w y z \<Longrightarrow> val_eq w x z"
  by (cases x; cases y; cases z) auto

lemma val_eq_refl_iff [simp]: "val_eq w x x \<longleftrightarrow> x \<noteq> Null"
  by (cases x) auto

lemma val_eq_IntV [simp]:
  "val_eq w (IntV i) x \<longleftrightarrow> x = IntV i" "val_eq w x (IntV i) \<longleftrightarrow> x = IntV i"
  by (cases x; auto)+

lemma val_eq_Null [simp]: "\<not> val_eq w Null x" "\<not> val_eq w x Null"
  by (cases x; simp)+

lemma conflict_sym: "conflict w t r r' = conflict w t r' r"
  unfolding conflict_def by (simp add: val_eq_sym)

lemma uniq_rows_append:
  "uniq_rows w t (xs @ ys) \<longleftrightarrow>
     uniq_rows w t xs \<and> uniq_rows w t ys \<and> (\<forall>x\<in>set xs. \<forall>y\<in>set ys. \<not> conflict w t x y)"
  by (induction xs) auto

lemma uniq_rows_snoc:
  "uniq_rows w t (xs @ [y]) \<longleftrightarrow> uniq_rows w t xs \<and> (\<forall>x\<in>set xs. \<not> conflict w t y x)"
  by (auto simp: uniq_rows_append conflict_sym)

lemma uniq_rows_filter: "uniq_rows w t rs \<Longrightarrow> uniq_rows w t (filter P rs)"
  by (induction rs) auto

text \<open>Two rows of a table that agree on a unique key are the same row.\<close>

lemma uniq_rows_key:
  assumes "uniq_rows w t rs" and "r \<in> set rs" and "r' \<in> set rs"
    and "ks \<in> set (td_uniques (schema t))" and "\<And>k. k \<in> set ks \<Longrightarrow> val_eq w (r k) (r' k)"
  shows "r = r'"
proof -
  have "conflict w t r r'" using assms(4,5) by (auto simp: conflict_def)
  with assms(1-3) show ?thesis
    by (induction rs) (auto simp: conflict_sym)
qed

lemma uniq_rows_id:
  assumes "uniq_rows w t rs" and "r \<in> set rs" and "r' \<in> set rs"
    and "[''id''] \<in> set (td_uniques (schema t))" and "r ''id'' = r' ''id''" and "r ''id'' \<noteq> Null"
  shows "r = r'"
  using uniq_rows_key [OF assms(1-4)] assms(5,6) by auto

text \<open>Rewriting rows without touching a unique column keeps the table's keys unique.\<close>

lemma conflict_cong:
  assumes "\<And>ks k. ks \<in> set (td_uniques (schema t)) \<Longrightarrow> k \<in> set ks \<Longrightarrow> r k = s k \<and> r' k = s' k"
  shows "conflict w t r r' = conflict w t s s'"
  using assms unfolding conflict_def by (metis (no_types, lifting))

lemma uniq_rows_map:
  assumes "uniq_rows w t rs"
    and "\<And>r ks k. r \<in> set rs \<Longrightarrow> ks \<in> set (td_uniques (schema t)) \<Longrightarrow> k \<in> set ks \<Longrightarrow> f r k = r k"
  shows "uniq_rows w t (map f rs)"
  using assms
proof (induction rs)
  case (Cons r rs)
  have "conflict w t (f r) (f r') = conflict w t r r'" if "r' \<in> set rs" for r'
  proof (rule conflict_cong, intro conjI)
    fix ks k
    assume ks: "ks \<in> set (td_uniques (schema t))" and k: "k \<in> set ks"
    show "f r k = r k" by (rule Cons.prems(2) [OF _ ks k]) simp
    show "f r' k = r' k" by (rule Cons.prems(2) [OF _ ks k]) (simp add: that)
  qed
  moreover have "uniq_rows w t (map f rs)"
  proof (rule Cons.IH)
    show "uniq_rows w t rs" using Cons.prems(1) by simp
    fix s ks k
    assume s: "s \<in> set rs" and ks: "ks \<in> set (td_uniques (schema t))" and k: "k \<in> set ks"
    show "f s k = s k" by (rule Cons.prems(2) [OF _ ks k]) (simp add: s)
  qed
  ultimately show ?case using Cons.prems(1) by simp
qed simp

lemma set_map_first: "set (map_first P f xs) \<subseteq> set xs \<union> f ` {x \<in> set xs. P x}"
  by (induction xs) auto

lemma map_first_image_ids:
  assumes "find P xs = Some y" and "g (f y) = g y"
  shows "g ` set (map_first P f xs) = g ` set xs"
  using assms by (induction xs) (auto split: if_splits)

section \<open>Integrity\<close>

definition ids :: "row list \<Rightarrow> sql_val set" where
  "ids rs = (\<lambda>r. r ''id'') ` set rs"

definition below_counter :: "tname \<Rightarrow> row list \<Rightarrow> int \<Rightarrow> bool" where
  "below_counter t rs n \<longleftrightarrow> (td_auto (schema t) \<longrightarrow> (\<forall>r\<in>set rs. \<exists>i<n. r ''id'' = IntV i))"

definition db_ok :: "collation \<Rightarrow> db \<Rightarrow> counters \<Rightarrow> bool" where
  "db_ok w d au \<longleftrightarrow>
     (\<forall>t. uniq_rows w t (d t) \<and> list_all (fk_row d t) (d t) \<and> below_counter t (d t) (au t))"

lemma has_id_ids: "has_id d t v \<longleftrightarrow> v \<in> ids (d t)"
  by (auto simp: has_id_def ids_def)

lemma fk_row_mono:
  assumes "fk_row d t r"
    and "\<And>c t'. (c, t') \<in> set (td_fkeys (schema t)) \<Longrightarrow> ids (d t') \<subseteq> ids (d' t')"
  shows "fk_row d' t r"
  using assms unfolding fk_row_def has_id_ids by blast

lemma below_counter_mono: "below_counter t rs n \<Longrightarrow> n \<le> m \<Longrightarrow> below_counter t rs m"
  unfolding below_counter_def by (meson order_less_le_trans)

text \<open>Replacing a table's rows by old rows and checked rows, losing no id, keeps integrity.\<close>

lemma put_rows_db_ok:
  assumes ok: "db_ok w d au" and put: "put_rows w d t touched rs = Inr d'"
    and sub: "set rs \<subseteq> set (d t) \<union> set touched"
    and keep: "ids (d t) \<subseteq> ids rs"
    and cnt: "below_counter t rs (au' t)" and le: "\<And>t. au t \<le> au' t"
  shows "db_ok w d' au'"
proof -
  from put have d': "d' = d(t := rs)" and uniq: "uniq_rows w t rs"
    and touched: "list_all (fk_row d' t) touched"
    by (auto simp: put_rows_def split: if_splits)
  have ids: "ids (d t') \<subseteq> ids (d' t')" for t'
    using keep by (simp add: d')
  have old: "fk_row d' t' r" if "r \<in> set (d t')" for t' r
  proof (rule fk_row_mono [OF _ ids])
    show "fk_row d t' r" using ok that by (auto simp: db_ok_def list_all_iff)
  qed
  have "uniq_rows w t' (d' t') \<and> list_all (fk_row d' t') (d' t') \<and>
      below_counter t' (d' t') (au' t')" for t'
  proof (cases "t' = t")
    case True
    with uniq cnt sub touched old show ?thesis
      by (auto simp: d' list_all_iff)
  next
    case False
    with ok old le show ?thesis
      by (auto simp: d' db_ok_def list_all_iff intro: below_counter_mono)
  qed
  then show ?thesis by (simp add: db_ok_def)
qed

lemma find_conflict_ids:
  assumes "find P rs = Some old" and "upd ''id'' = old ''id''"
  shows "ids (map_first P (\<lambda>_. upd) rs) = ids rs"
  unfolding ids_def
  using assms by (induction rs) (auto split: if_splits)

lemma below_counter_map_first:
  assumes "below_counter t rs n" and "find P rs = Some old" and "upd ''id'' = old ''id''"
  shows "below_counter t (map_first P (\<lambda>_. upd) rs) n"
proof -
  have "below_counter t rs n \<longleftrightarrow> (td_auto (schema t) \<longrightarrow> ids rs \<subseteq> IntV ` {..<n})" for rs
    by (auto simp: below_counter_def ids_def)
  with assms(1) find_conflict_ids [where upd = upd and old = old, OF assms(2,3)]
  show ?thesis by simp
qed

lemma bump_le: "au t \<le> bump t' au t"
  by (simp add: bump_def)

lemma exec_insert_db_ok:
  assumes ok: "db_ok w d au" and ex: "exec_insert w args t cols vals odku d au = Inr (d', au')"
  shows "db_ok w d' au'"
proof -
  let ?new = "new_row w args t cols vals au"
  have new_id: "td_auto (schema t) \<Longrightarrow> ?new ''id'' = IntV (au t)"
    by (simp add: new_row_def Let_def)
  have cnt: "below_counter t (d t) (au t)" using ok by (simp add: db_ok_def)
  have plain: "db_ok w d' au'"
    if put: "put_rows w d t [?new] (d t @ [?new]) = Inr d'" and au': "au' = bump t au"
  proof (rule put_rows_db_ok [OF ok put])
    show "below_counter t (d t @ [?new]) (au' t)"
      using cnt new_id by (force simp: below_counter_def au' bump_def)
  qed (auto simp: ids_def au' bump_le)
  have updated: "db_ok w d' au'"
    if old: "find (conflict w t ?new) (d t) = Some old" and ups: "''id'' \<notin> set ups"
      and put: "put_rows w d t [copy_cols ups ?new old]
        (map_first (conflict w t ?new) (\<lambda>_. copy_cols ups ?new old) (d t)) = Inr d'"
      and au': "au' = bump t au" for old ups
  proof (rule put_rows_db_ok [OF ok put])
    let ?upd = "copy_cols ups ?new old"
    have id: "?upd ''id'' = old ''id''" using ups by (simp add: copy_cols_apply)
    show "set (map_first (conflict w t ?new) (\<lambda>_. ?upd) (d t)) \<subseteq> set (d t) \<union> set [?upd]"
      using set_map_first [of "conflict w t ?new" "\<lambda>_. ?upd" "d t"] by auto
    show "below_counter t (map_first (conflict w t ?new) (\<lambda>_. ?upd) (d t)) (au' t)"
      using below_counter_map_first [where upd = ?upd and old = old, OF cnt old id]
        below_counter_mono bump_le
      unfolding au' by blast
    show "ids (d t) \<subseteq> ids (map_first (conflict w t ?new) (\<lambda>_. ?upd) (d t))"
      by (simp add: find_conflict_ids [where upd = ?upd and old = old, OF old id])
  qed (simp add: au' bump_le)
  show ?thesis
    using ex plain updated
    by (auto simp: exec_insert_def Let_def split: option.splits sum.splits if_splits)
qed

lemma exec_update_db_ok:
  assumes ok: "db_ok w d au" and ex: "exec_update w args t join sets wh d = Inr d'"
  shows "db_ok w d' au"
proof -
  let ?upd = "apply_sets w args (join_id w args join (d t)) sets"
  let ?rs = "map (\<lambda>r. if match w args wh r then ?upd r else r) (d t)"
  from ex have noid: "''id'' \<notin> set (map fst sets)"
    and put: "put_rows w d t (map ?upd (filter (match w args wh) (d t))) ?rs = Inr d'"
    by (auto simp: exec_update_def Let_def split: if_splits)
  have id: "(if match w args wh r then ?upd r else r) ''id'' = r ''id''" for r
    using noid by simp
  have ids_eq: "ids ?rs = ids (d t)"
    by (simp only: ids_def set_map image_image id)
  have cnt: "below_counter t (d t) (au t)" using ok by (simp add: db_ok_def)
  show ?thesis
  proof (rule put_rows_db_ok [OF ok put])
    show "below_counter t ?rs (au t)"
      using cnt noid by (auto simp: below_counter_def)
  qed (auto simp: ids_eq)
qed

lemma delete_db_ok:
  assumes ok: "db_ok w d au" and unref: "\<not> referenced t"
  shows "db_ok w (d(t := filter P (d t))) au"
proof -
  let ?d = "d(t := filter P (d t))"
  have fk: "fk_row ?d t' r" if "r \<in> set (d t')" for t' r
  proof (rule fk_row_mono)
    show "fk_row d t' r" using ok that by (auto simp: db_ok_def list_all_iff)
    fix c t''
    assume "(c, t'') \<in> set (td_fkeys (schema t'))"
    with unref have "t'' \<noteq> t" by (force simp: referenced_def tname_in_enum)
    then show "ids (d t'') \<subseteq> ids (?d t'')" by simp
  qed
  have "uniq_rows w t' (?d t') \<and> list_all (fk_row ?d t') (?d t') \<and>
      below_counter t' (?d t') (au t')" for t'
    using ok fk by (cases "t' = t") (auto simp: db_ok_def list_all_iff uniq_rows_filter below_counter_def)
  then show ?thesis by (simp add: db_ok_def)
qed

text \<open>Every statement that succeeds keeps unique keys, references and counters.\<close>

lemma exec_stmt_db_ok:
  assumes "db_ok w d au" and "exec_stmt w args st d au = Inr (d', au')"
  shows "db_ok w d' au'"
  using assms
  by (cases st)
    (auto simp: exec_stmt_def delete_db_ok
      intro: exec_insert_db_ok exec_update_db_ok split: if_splits sum.splits)

text \<open>A statement writes one table, and an insertion without an update clause only appends.\<close>

primrec stmt_table :: "sql_stmt \<Rightarrow> tname" where
  "stmt_table (Insert t cols vals odku) = t"
| "stmt_table (Update t join sets wh) = t"
| "stmt_table (Delete t wh) = t"

lemma put_rows_frame: "put_rows w d t touched rs = Inr d' \<Longrightarrow> d' = d(t := rs)"
  by (simp add: put_rows_def split: if_splits)

lemma exec_stmt_frame:
  "exec_stmt w args st d au = Inr (d', au') \<Longrightarrow> t \<noteq> stmt_table st \<Longrightarrow> d' t = d t"
  by (cases st)
    (auto simp: exec_stmt_def exec_insert_def exec_update_def Let_def
      dest!: put_rows_frame split: if_splits sum.splits option.splits)

lemma exec_insert_append:
  "exec_stmt w args (Insert t cols vals None) d au = Inr (d', au') \<Longrightarrow>
     d' = d(t := d t @ [new_row w args t cols vals au]) \<and> au' = bump t au"
  by (auto simp: exec_stmt_def exec_insert_def Let_def dest!: put_rows_frame
      split: if_splits sum.splits)

section \<open>Reading the effect of one statement\<close>

lemma exec_insert_Inr_iff:
  "exec_stmt w args (Insert t cols vals None) d au = Inr (d', au') \<longleftrightarrow>
     length args = length (stmt_args (Insert t cols vals None)) \<and>
     uniq_rows w t (d t @ [new_row w args t cols vals au]) \<and>
     d' = d(t := d t @ [new_row w args t cols vals au]) \<and>
     fk_row d' t (new_row w args t cols vals au) \<and> au' = bump t au"
  by (auto simp: exec_stmt_def exec_insert_def put_rows_def Let_def split: if_splits)

lemma exec_upsert_Inr_iff:
  "exec_stmt w args (Insert t cols vals (Some ups)) d au = Inr (d', au') \<longleftrightarrow>
     length args = length (stmt_args (Insert t cols vals (Some ups))) \<and> au' = bump t au \<and>
     (let new = new_row w args t cols vals au in
      case find (conflict w t new) (d t) of
        None \<Rightarrow> uniq_rows w t (d t @ [new]) \<and> d' = d(t := d t @ [new]) \<and> fk_row d' t new
      | Some old \<Rightarrow>
          (let upd = copy_cols ups new old;
               rs = map_first (conflict w t new) (\<lambda>_. upd) (d t) in
           ''id'' \<notin> set ups \<and> uniq_rows w t rs \<and> d' = d(t := rs) \<and> fk_row d' t upd))"
  by (auto simp: exec_stmt_def exec_insert_def put_rows_def Let_def
      split: if_splits option.splits)

lemma exec_update_Inr_iff:
  "exec_stmt w args (Update t join sets wh) d au = Inr (d', au') \<longleftrightarrow>
     length args = length (stmt_args (Update t join sets wh)) \<and> au' = au \<and>
     ''id'' \<notin> set (map fst sets) \<and>
     (let upd = apply_sets w args (join_id w args join (d t)) sets;
          rs = map (\<lambda>r. if match w args wh r then upd r else r) (d t) in
      uniq_rows w t rs \<and> d' = d(t := rs) \<and>
      (\<forall>r\<in>set (d t). match w args wh r \<longrightarrow> fk_row d' t (upd r)))"
  by (auto simp: exec_stmt_def exec_update_def put_rows_def Let_def list_all_iff
      split: if_splits)

lemma exec_query_Inr_iff:
  "exec_query w args (Select es (Some t) wh) d = Inr rs \<longleftrightarrow>
     length args = length (query_args (Select es (Some t) wh)) \<and>
     rs = map (\<lambda>r. map (eval_expr w args r Null) es) (filter (match w args wh) (d t))"
  by (auto simp: exec_query_def)

lemmas exec_iffs = exec_insert_Inr_iff exec_upsert_Inr_iff exec_update_Inr_iff exec_query_Inr_iff

end
