(* ===== verification/Db_Session.thy ===== *)
theory Db_Session
  imports Sql_Engine "HOL-Library.Multiset"
begin

text \<open>
  src/mysql/Database.cpp: prepared statements on a borrowed connection, and transactions. A
  database program is a function of its environment (the server's collation, which driver calls it
  makes fail, and the order in which the standard library's unordered_map is iterated) and of the
  session (the rows the connection sees, the committed rows, the AUTO_INCREMENT
  counters, LAST_INSERT_ID, the autocommit flag and the number of driver calls made so far). It
  returns a value or a thrown exception, and the session it leaves behind: a throw in the middle
  of a transaction leaves the connection's partial work in place until \<open>rollback\<close>.

  The fault schedule is universally quantified in every theorem, so each holds whatever driver
  call fails, and however often.
\<close>

section \<open>Sessions and programs\<close>

record server =
  weight :: collation
  fault :: "nat \<Rightarrow> sql_exn option"
  hash_order :: "string list \<Rightarrow> string list"

record session =
  view :: db
  disk :: db
  autos :: counters
  last_id :: int
  autoc :: bool
  clk :: nat

text \<open>
  What \<open>Database\<close> and its callers see thrown: the wrapped \<open>std::runtime_error\<close>s, an exception of
  \<open>ConnectionPool::acquire\<close>, and \<open>std::invalid_argument\<close> of a failed number conversion.
\<close>

datatype exn =
    ConnectFailed sql_exn
  | ExecuteFailed sql_exn
  | InsertFailed sql_exn
  | QueryFailed sql_exn
  | TransactionFailed sql_exn
  | BadNumber

type_synonym 'a driver = "server \<Rightarrow> session \<Rightarrow> (sql_exn + 'a) \<times> session"
type_synonym 'a tx = "server \<Rightarrow> session \<Rightarrow> (exn + 'a) \<times> session"

definition tx_return :: "'a \<Rightarrow> 'a tx" where
  "tx_return a = (\<lambda>sv s. (Inr a, s))"

definition tx_throw :: "exn \<Rightarrow> 'a tx" where
  "tx_throw e = (\<lambda>sv s. (Inl e, s))"

definition tx_bind :: "'a tx \<Rightarrow> ('a \<Rightarrow> 'b tx) \<Rightarrow> 'b tx" where
  "tx_bind m f = (\<lambda>sv s. case m sv s of (Inl e, t) \<Rightarrow> (Inl e, t) | (Inr a, t) \<Rightarrow> f a sv t)"

definition tx_then :: "unit tx \<Rightarrow> 'b tx \<Rightarrow> 'b tx" where
  "tx_then m k = tx_bind m (\<lambda>_. k)"

primrec tx_for :: "('a \<Rightarrow> unit tx) \<Rightarrow> 'a list \<Rightarrow> unit tx" where
  "tx_for f [] = tx_return ()"
| "tx_for f (x # xs) = tx_then (f x) (tx_for f xs)"

text \<open>
  The keys of an unordered_map in the order a range-for visits them: a permutation the
  environment chooses.
\<close>

definition tx_iterate :: "string list \<Rightarrow> string list tx" where
  "tx_iterate ks = (\<lambda>sv s. (Inr (hash_order sv ks), s))"

definition hash_ok :: "server \<Rightarrow> bool" where
  "hash_ok sv \<longleftrightarrow> (\<forall>ks. mset (hash_order sv ks) = mset ks)"

section \<open>Driver calls\<close>

text \<open>One call into the connector: it may fail by schedule, or for a reason of its own.\<close>

definition drv :: "(server \<Rightarrow> session \<Rightarrow> sql_exn + ('a \<times> session)) \<Rightarrow> 'a driver" where
  "drv g = (\<lambda>sv s.
     let t = s\<lparr>clk := Suc (clk s)\<rparr> in
     case fault sv (clk s) of
       Some e \<Rightarrow> (Inl e, t)
     | None \<Rightarrow> (case g sv t of Inl e \<Rightarrow> (Inl e, t) | Inr (a, t') \<Rightarrow> (Inr a, t')))"

definition wrap :: "(sql_exn \<Rightarrow> exn) \<Rightarrow> 'a driver \<Rightarrow> 'a tx" where
  "wrap c m = (\<lambda>sv s. case m sv s of (Inl e, t) \<Rightarrow> (Inl (c e), t) | (Inr a, t) \<Rightarrow> (Inr a, t))"

text \<open>In autocommit mode a statement commits at once. Only a plain INSERT's generated id is read.\<close>

definition generated_id :: "sql_stmt \<Rightarrow> counters \<Rightarrow> int \<Rightarrow> int" where
  "generated_id st au old =
     (case st of Insert t cols vals None \<Rightarrow> if td_auto (schema t) then au t else old | _ \<Rightarrow> old)"

definition after_stmt :: "sql_stmt \<Rightarrow> db \<Rightarrow> counters \<Rightarrow> session \<Rightarrow> session" where
  "after_stmt st d au s = s\<lparr>view := d, autos := au,
     last_id := generated_id st (autos s) (last_id s),
     disk := (if autoc s then d else disk s)\<rparr>"

definition executeUpdate :: "sql_stmt \<Rightarrow> sql_val list \<Rightarrow> unit driver" where
  "executeUpdate st args = drv (\<lambda>sv s.
     case exec_stmt (weight sv) args st (view s) (autos s) of
       Inl e \<Rightarrow> Inl e
     | Inr (d, au) \<Rightarrow> Inr ((), after_stmt st d au s))"

definition executeQuery :: "sql_query \<Rightarrow> sql_val list \<Rightarrow> sql_val list list driver" where
  "executeQuery q args = drv (\<lambda>sv s.
     case exec_query (weight sv) args q (view s) of Inl e \<Rightarrow> Inl e | Inr rs \<Rightarrow> Inr (rs, s))"

definition selectLastInsertId :: "int driver" where
  "selectLastInsertId = drv (\<lambda>sv s. Inr (last_id s, s))"

definition setAutoCommit :: "bool \<Rightarrow> unit driver" where
  "setAutoCommit on = drv (\<lambda>sv s.
     Inr ((), s\<lparr>autoc := on, disk := (if on then view s else disk s)\<rparr>))"

definition commit :: "unit driver" where
  "commit = drv (\<lambda>sv s. Inr ((), s\<lparr>disk := view s\<rparr>))"

definition rollback :: "unit driver" where
  "rollback = drv (\<lambda>sv s. Inr ((), s\<lparr>view := disk s\<rparr>))"

section \<open>Database.cpp\<close>

definition do_execute :: "sql_stmt \<Rightarrow> sql_val list \<Rightarrow> unit tx" where
  "do_execute sql params = wrap ExecuteFailed (executeUpdate sql params)"

definition do_insert :: "sql_stmt \<Rightarrow> sql_val list \<Rightarrow> int tx" where
  "do_insert sql params =
     tx_bind (wrap InsertFailed (executeUpdate sql params))
       (\<lambda>_. wrap InsertFailed selectLastInsertId)"

definition do_query :: "sql_query \<Rightarrow> sql_val list \<Rightarrow> sql_val list list tx" where
  "do_query sql params = wrap QueryFailed (executeQuery sql params)"

text \<open>\<open>ScopedConnection\<close>: \<open>acquire\<close> may throw; the destructor hands the connection back.\<close>

definition scoped_connection :: "'a tx \<Rightarrow> 'a tx" where
  "scoped_connection m = tx_bind (wrap ConnectFailed (drv (\<lambda>sv s. Inr ((), s)))) (\<lambda>_. m)"

definition db_execute :: "sql_stmt \<Rightarrow> sql_val list \<Rightarrow> unit tx" where
  "db_execute sql params = scoped_connection (do_execute sql params)"

definition db_insert :: "sql_stmt \<Rightarrow> sql_val list \<Rightarrow> int tx" where
  "db_insert sql params = scoped_connection (do_insert sql params)"

definition db_query :: "sql_query \<Rightarrow> sql_val list \<Rightarrow> sql_val list list tx" where
  "db_query sql params = scoped_connection (do_query sql params)"

text \<open>\<open>DB::ping\<close>: SELECT 1, of which only the exception matters.\<close>

definition ping :: "unit tx" where
  "ping = tx_bind (db_query (Select [Lit (IntV 1)] None []) []) (\<lambda>_. tx_return ())"

text \<open>The two catch blocks: roll back and restore autocommit, ignoring any further exception.\<close>

definition undo :: "server \<Rightarrow> session \<Rightarrow> session" where
  "undo sv s =
     (case rollback sv s of
        (Inl _, t) \<Rightarrow> t
      | (Inr _, t) \<Rightarrow> snd (setAutoCommit True sv t))"

definition transaction_on :: "'a tx \<Rightarrow> 'a tx" where
  "transaction_on fn = (\<lambda>sv s.
     case setAutoCommit False sv s of
       (Inl e, s1) \<Rightarrow> (Inl (TransactionFailed e), undo sv s1)
     | (Inr _, s1) \<Rightarrow>
         (case fn sv s1 of
            (Inl e, s2) \<Rightarrow> (Inl e, undo sv s2)
          | (Inr a, s2) \<Rightarrow>
              (case commit sv s2 of
                 (Inl e, s3) \<Rightarrow> (Inl (TransactionFailed e), undo sv s3)
               | (Inr _, s3) \<Rightarrow>
                   (case setAutoCommit True sv s3 of
                      (Inl e, s4) \<Rightarrow> (Inl (TransactionFailed e), undo sv s4)
                    | (Inr _, s4) \<Rightarrow> (Inr a, s4)))))"

definition transaction :: "'a tx \<Rightarrow> 'a tx" where
  "transaction fn = scoped_connection (transaction_on fn)"

text \<open>\<open>std::stoull\<close>, \<open>std::stoll\<close> and \<open>std::stoi\<close> on the text of an integer column.\<close>

definition stoll :: "sql_val \<Rightarrow> int tx" where
  "stoll v = (case v of IntV i \<Rightarrow> tx_return i | _ \<Rightarrow> tx_throw BadNumber)"

text \<open>\<open>value_or(d)\<close> on a text column.\<close>

fun text_or :: "sql_val \<Rightarrow> string \<Rightarrow> string" where
  "text_or (TextV s) d = s"
| "text_or _ d = d"

fun int_or0 :: "sql_val \<Rightarrow> int" where
  "int_or0 (IntV i) = i"
| "int_or0 _ = 0"

definition b :: "bool \<Rightarrow> sql_val" where
  "b v = IntV (if v then 1 else 0)"

text \<open>An absent optional is bound as SQL NULL (\<open>std::monostate\<close>).\<close>

definition opt_int :: "int option \<Rightarrow> sql_val" where
  "opt_int v = (case v of None \<Rightarrow> Null | Some i \<Rightarrow> IntV i)"

definition opt_text :: "string option \<Rightarrow> sql_val" where
  "opt_text v = (case v of None \<Rightarrow> Null | Some s \<Rightarrow> TextV s)"

text \<open>\<open>rows[0][0]\<close> of a query result, NULL standing for no row as well.\<close>

definition first_value :: "sql_val list list \<Rightarrow> sql_val" where
  "first_value rows = (case rows of (v # _) # _ \<Rightarrow> v | _ \<Rightarrow> Null)"

section \<open>Running programs\<close>

lemma tx_return_run [tx_run]: "tx_return a sv s = (Inr x, t) \<longleftrightarrow> x = a \<and> t = s"
  by (auto simp: tx_return_def)

lemma tx_throw_run [tx_run]: "tx_throw e sv s \<noteq> (Inr x, t)"
  by (simp add: tx_throw_def)

lemma tx_bind_run [tx_run]:
  "tx_bind m f sv s = (Inr x, t) \<longleftrightarrow> (\<exists>a u. m sv s = (Inr a, u) \<and> f a sv u = (Inr x, t))"
  by (auto simp: tx_bind_def split: prod.splits sum.splits)

lemma tx_then_run [tx_run]:
  "tx_then m k sv s = (Inr x, t) \<longleftrightarrow> (\<exists>u. m sv s = (Inr (), u) \<and> k sv u = (Inr x, t))"
  by (auto simp: tx_then_def tx_bind_run)

lemma tx_iterate_run [tx_run]: "tx_iterate ks sv s = (Inr x, t) \<longleftrightarrow> x = hash_order sv ks \<and> t = s"
  by (auto simp: tx_iterate_def)

lemma wrap_drv_run:
  "wrap c (drv g) sv s = (Inr x, t) \<longleftrightarrow>
     fault sv (clk s) = None \<and> g sv (s\<lparr>clk := Suc (clk s)\<rparr>) = Inr (x, t)"
  by (auto simp: wrap_def drv_def Let_def split: option.splits sum.splits prod.splits)

lemma do_execute_run [tx_run]:
  "do_execute st args sv s = (Inr x, t) \<longleftrightarrow>
     fault sv (clk s) = None \<and>
     (\<exists>d au. exec_stmt (weight sv) args st (view s) (autos s) = Inr (d, au) \<and>
       t = after_stmt st d au (s\<lparr>clk := Suc (clk s)\<rparr>))"
  by (auto simp: do_execute_def executeUpdate_def wrap_drv_run split: sum.splits)

lemma do_query_run [tx_run]:
  "do_query q args sv s = (Inr rs, t) \<longleftrightarrow>
     fault sv (clk s) = None \<and> exec_query (weight sv) args q (view s) = Inr rs \<and>
     t = s\<lparr>clk := Suc (clk s)\<rparr>"
  by (auto simp: do_query_def executeQuery_def wrap_drv_run split: sum.splits)

lemma do_insert_run [tx_run]:
  "do_insert st args sv s = (Inr x, t) \<longleftrightarrow>
     fault sv (clk s) = None \<and> fault sv (Suc (clk s)) = None \<and>
     (\<exists>d au. exec_stmt (weight sv) args st (view s) (autos s) = Inr (d, au) \<and>
       x = generated_id st (autos s) (last_id s) \<and>
       t = after_stmt st d au (s\<lparr>clk := Suc (Suc (clk s))\<rparr>))"
  by (auto simp: do_insert_def tx_bind_run executeUpdate_def selectLastInsertId_def wrap_drv_run
      after_stmt_def split: sum.splits)

lemma stoll_run [tx_run]: "stoll v sv s = (Inr i, t) \<longleftrightarrow> v = IntV i \<and> t = s"
  by (cases v) (auto simp: stoll_def tx_return_def tx_throw_def)

text \<open>The same, one step at a time, with the sessions in between left abstract.\<close>

lemma tx_bindE:
  assumes "tx_bind m f sv s = (Inr x, t)"
  obtains a u where "m sv s = (Inr a, u)" and "f a sv u = (Inr x, t)"
  using assms by (auto simp: tx_bind_run)

lemma tx_thenE:
  assumes "tx_then m k sv s = (Inr x, t)"
  obtains u where "m sv s = (Inr (), u)" and "k sv u = (Inr x, t)"
  using assms by (auto simp: tx_then_run)

lemma tx_returnE:
  assumes "tx_return a sv s = (Inr x, t)"
  obtains "x = a" and "t = s"
  using assms by (simp add: tx_return_run)

lemma do_executeE:
  assumes "do_execute st args sv s = (Inr x, t)"
  obtains "exec_stmt (weight sv) args st (view s) (autos s) = Inr (view t, autos t)"
  using assms by (auto simp: do_execute_run after_stmt_def)

lemma do_insertE:
  assumes "do_insert st args sv s = (Inr x, t)"
  obtains "exec_stmt (weight sv) args st (view s) (autos s) = Inr (view t, autos t)"
    and "x = generated_id st (autos s) (last_id s)"
  using assms by (auto simp: do_insert_run after_stmt_def)

lemma do_queryE:
  assumes "do_query q args sv s = (Inr rows, t)"
  obtains "exec_query (weight sv) args q (view s) = Inr rows" and "view t = view s"
    and "autos t = autos s"
  using assms by (auto simp: do_query_run)

text \<open>\<open>ping\<close> succeeds when a connection is there and the query is answered, and changes nothing.\<close>

lemma ping_run: "fst (ping sv s) = Inr () \<longleftrightarrow> fault sv (clk s) = None \<and> fault sv (Suc (clk s)) = None"
  by (auto simp: ping_def tx_bind_def tx_return_def db_query_def scoped_connection_def do_query_def
      executeQuery_def exec_query_def wrap_def drv_def Let_def split: option.splits)

lemma ping_keeps: "snd (ping sv s) = s\<lparr>clk := clk (snd (ping sv s))\<rparr>"
  by (auto simp: ping_def tx_bind_def tx_return_def db_query_def scoped_connection_def do_query_def
      executeQuery_def exec_query_def wrap_def drv_def Let_def split: option.splits)

section \<open>A concrete session\<close>

text \<open>A server that never fails, with the identity collation, and an empty database.\<close>

definition quiet :: server where
  "quiet = \<lparr>weight = (\<lambda>s. s), fault = (\<lambda>_. None), hash_order = (\<lambda>ks. ks)\<rparr>"

definition empty_session :: session where
  "empty_session = \<lparr>view = (\<lambda>_. []), disk = (\<lambda>_. []), autos = (\<lambda>_. 1), last_id = 0,
     autoc = True, clk = 0\<rparr>"

lemma hash_quiet [simp]: "hash_ok quiet"
  by (simp add: hash_ok_def quiet_def)

lemma fst_run: "fst p = x \<Longrightarrow> p = (x, snd p)"
  by (cases p) simp
end
