(* ===== verification/Db_Contract.thy ===== *)
theory Db_Contract
  imports Db_Session
begin

text \<open>
  What the database layer promises the model classes, as two interfaces. \<open>stmt_relation\<close>: a
  relation between the session before and after that every driver call respects is respected by
  every program built from the calls. \<open>row_relation\<close>: a relation between rows that every allowed
  statement respects is respected by the committed rows across a whole transaction, whichever
  driver call fails. The theory interprets them on the statement engine: isolation of an open
  transaction, integrity, append-only tables, and untouched tables.
\<close>

section \<open>Relations a program keeps\<close>

type_synonym sess_rel = "server \<Rightarrow> session \<Rightarrow> session \<Rightarrow> bool"

definition keeps :: "sess_rel \<Rightarrow> 'a tx \<Rightarrow> bool" where
  "keeps R m \<longleftrightarrow> (\<forall>sv s. R sv s (snd (m sv s)))"

lemma keepsI: "(\<And>sv s. R sv s (snd (m sv s))) \<Longrightarrow> keeps R m"
  by (simp add: keeps_def)

lemma keepsD: "keeps R m \<Longrightarrow> m sv s = (x, t) \<Longrightarrow> R sv s t"
  unfolding keeps_def by (metis snd_conv)

locale stmt_relation =
  fixes R :: sess_rel and allowed :: "sql_stmt \<Rightarrow> bool"
  assumes R_tick: "R sv s (s\<lparr>clk := n\<rparr>)"
    and R_trans: "R sv s t \<Longrightarrow> R sv t u \<Longrightarrow> R sv s u"
    and R_stmt: "allowed st \<Longrightarrow> exec_stmt (weight sv) args st (view s) (autos s) = Inr (d, au) \<Longrightarrow>
      R sv s (after_stmt st d au s)"
begin

lemma R_refl: "R sv s s"
  using R_tick [of sv s "clk s"] by simp

lemma keeps_return [simp, intro]: "keeps R (tx_return a)"
  by (simp add: keeps_def tx_return_def R_refl)

lemma keeps_throw [simp, intro]: "keeps R (tx_throw e)"
  by (simp add: keeps_def tx_throw_def R_refl)

lemma keeps_stoll [simp, intro]: "keeps R (stoll v)"
  by (cases v) (simp_all add: stoll_def)

lemma keeps_iterate [simp, intro]: "keeps R (tx_iterate ks)"
  by (simp add: keeps_def tx_iterate_def R_refl)

lemma keeps_bind [intro]:
  assumes "keeps R m" and "\<And>a. keeps R (f a)"
  shows "keeps R (tx_bind m f)"
proof (rule keepsI)
  fix sv s
  obtain x t where m: "m sv s = (x, t)" by (cases "m sv s")
  with assms(1) have st: "R sv s t" by (rule keepsD)
  show "R sv s (snd (tx_bind m f sv s))"
  proof (cases x)
    case (Inr a)
    have "R sv t (snd (f a sv t))" using assms(2) by (simp add: keeps_def)
    with st m Inr show ?thesis by (auto simp: tx_bind_def intro: R_trans)
  qed (simp add: tx_bind_def m st)
qed

lemma keeps_then [intro]: "keeps R m \<Longrightarrow> keeps R k \<Longrightarrow> keeps R (tx_then m k)"
  by (auto simp: tx_then_def)

lemma keeps_for [intro]: "(\<And>x. x \<in> set xs \<Longrightarrow> keeps R (f x)) \<Longrightarrow> keeps R (tx_for f xs)"
  by (induction xs) auto

lemma keeps_drv:
  assumes "\<And>sv s a t. g sv s = Inr (a, t) \<Longrightarrow> R sv s t"
  shows "keeps R (wrap c (drv g))"
proof (rule keepsI)
  fix sv and s :: session
  let ?s = "s\<lparr>clk := Suc (clk s)\<rparr>"
  have "R sv s ?s" by (rule R_tick)
  moreover have "R sv s t" if "g sv ?s = Inr (a, t)" for a t
    using R_trans [OF \<open>R sv s ?s\<close>] assms that by blast
  ultimately show "R sv s (snd (wrap c (drv g) sv s))"
    by (auto simp: wrap_def drv_def Let_def split: option.splits sum.splits prod.splits)
qed

lemma keeps_execute: "allowed st \<Longrightarrow> keeps R (do_execute st args)"
  unfolding do_execute_def executeUpdate_def
  by (rule keeps_drv) (auto intro: R_stmt split: sum.splits)

lemma keeps_insert: "allowed st \<Longrightarrow> keeps R (do_insert st args)"
  unfolding do_insert_def executeUpdate_def selectLastInsertId_def
  by (intro keeps_bind keeps_drv) (auto intro: R_stmt R_refl split: sum.splits)

lemma keeps_query [simp, intro]: "keeps R (do_query q args)"
  unfolding do_query_def executeQuery_def
  by (rule keeps_drv) (auto intro: R_refl split: sum.splits)

lemma keeps_if [intro]: "(c \<Longrightarrow> keeps R m) \<Longrightarrow> (\<not> c \<Longrightarrow> keeps R k) \<Longrightarrow> keeps R (if c then m else k)"
  by simp

lemma keeps_option [intro]:
  "(x = None \<Longrightarrow> keeps R m) \<Longrightarrow> (\<And>v. x = Some v \<Longrightarrow> keeps R (f v)) \<Longrightarrow>
     keeps R (case x of None \<Rightarrow> m | Some v \<Rightarrow> f v)"
  by (cases x) simp_all

lemma keeps_list [intro]:
  "(x = [] \<Longrightarrow> keeps R m) \<Longrightarrow> (\<And>y ys. x = y # ys \<Longrightarrow> keeps R (f y ys)) \<Longrightarrow>
     keeps R (case x of [] \<Rightarrow> m | y # ys \<Rightarrow> f y ys)"
  by (cases x) simp_all

lemmas keeps_rules = keeps_if keeps_option keeps_list keeps_iterate keeps_return keeps_throw keeps_stoll keeps_query keeps_bind keeps_then
  keeps_for keeps_execute keeps_insert

end

section \<open>Isolation\<close>

text \<open>Statements of an open transaction leave the committed rows and the mode alone.\<close>

definition isolation :: sess_rel where
  "isolation sv s t \<longleftrightarrow>
     (\<not> autoc s \<longrightarrow> \<not> autoc t \<and> disk t = disk s) \<and> (\<forall>tn. autos s tn \<le> autos t tn)"

lemma exec_stmt_counters:
  "exec_stmt w args st d au = Inr (d', au') \<Longrightarrow> au tn \<le> au' tn"
  by (cases st)
    (auto simp: exec_stmt_def exec_insert_def Let_def bump_le
      split: if_splits sum.splits option.splits)

interpretation iso: stmt_relation isolation "\<lambda>_. True"
proof unfold_locales
  fix sv s t u
  assume "isolation sv s t" and "isolation sv t u"
  then show "isolation sv s u" unfolding isolation_def by (auto intro: order_trans)
qed (auto simp: isolation_def after_stmt_def intro: exec_stmt_counters)

section \<open>Transactions\<close>

text \<open>A session between operations: autocommit, and nothing uncommitted.\<close>

definition clean :: "session \<Rightarrow> bool" where
  "clean s \<longleftrightarrow> autoc s \<and> view s = disk s"

lemma clean_tick [simp]: "clean (s\<lparr>clk := n\<rparr>) = clean s"
  by (simp add: clean_def)

lemma drv_cases:
  obtains (fault) e where "drv g sv s = (Inl e, s\<lparr>clk := Suc (clk s)\<rparr>)"
  | (ok) a t where "drv g sv s = (Inr a, t)" and "g sv (s\<lparr>clk := Suc (clk s)\<rparr>) = Inr (a, t)"
  by (cases "drv g sv s")
    (auto simp: drv_def Let_def split: option.splits sum.splits prod.splits)

lemma undo_rows:
  "disk (undo sv s) = disk s" "autos (undo sv s) = autos s"
  "view (undo sv s) = view s \<or> view (undo sv s) = disk s"
  unfolding undo_def rollback_def setAutoCommit_def
  by (auto simp: drv_def Let_def split: option.splits prod.splits)

lemma driver_eqs:
  "setAutoCommit on sv s = (case fault sv (clk s) of
     Some e \<Rightarrow> (Inl e, s\<lparr>clk := Suc (clk s)\<rparr>)
   | None \<Rightarrow> (Inr (), s\<lparr>clk := Suc (clk s), autoc := on, disk := (if on then view s else disk s)\<rparr>))"
  "commit sv s = (case fault sv (clk s) of
     Some e \<Rightarrow> (Inl e, s\<lparr>clk := Suc (clk s)\<rparr>)
   | None \<Rightarrow> (Inr (), s\<lparr>clk := Suc (clk s), disk := view s\<rparr>))"
  by (simp_all add: setAutoCommit_def commit_def drv_def Let_def split: option.splits)

lemma scoped_connection_eq:
  "scoped_connection m sv s = (case fault sv (clk s) of
     Some e \<Rightarrow> (Inl (ConnectFailed e), s\<lparr>clk := Suc (clk s)\<rparr>)
   | None \<Rightarrow> m sv (s\<lparr>clk := Suc (clk s)\<rparr>))"
  by (simp add: scoped_connection_def tx_bind_def wrap_def drv_def Let_def split: option.splits)

text \<open>
  Begin and end of the transaction on the driver: what the body starts from, and what is
  committed when everything succeeds.
\<close>

definition begun :: "session \<Rightarrow> session \<Rightarrow> bool" where
  "begun s s1 \<longleftrightarrow> \<not> autoc s1 \<and> view s1 = view s \<and> disk s1 = disk s \<and> autos s1 = autos s \<and>
     last_id s1 = last_id s"

lemma transaction_Inr:
  assumes "transaction fn sv s = (Inr a, t)"
  obtains s1 s2 where "begun s s1" and "fn sv s1 = (Inr a, s2)"
    and "view t = view s2" and "disk t = view s2" and "autos t = autos s2" and "clean t"
    and "clk s1 = clk s + 2"
proof -
  let ?s1 = "s\<lparr>clk := Suc (Suc (clk s)), autoc := False\<rparr>"
  from assms obtain s2 where "fn sv ?s1 = (Inr a, s2)"
    and "t = s2\<lparr>clk := Suc (Suc (clk s2)), autoc := True, disk := view s2\<rparr>"
    unfolding transaction_def transaction_on_def scoped_connection_eq driver_eqs
    by (auto split: prod.splits sum.splits option.splits)
  then show thesis
    by (intro that [of ?s1 s2]) (simp_all add: begun_def clean_def)
qed

lemma begun_isolated:
  assumes "keeps isolation fn" and "begun s s1" and "fn sv s1 = (x, s2)"
  shows "\<not> autoc s2 \<and> disk s2 = disk s \<and> (\<forall>tn. autos s tn \<le> autos s2 tn)"
  using keepsD [OF assms(1,3)] assms(2) by (simp add: isolation_def begun_def)

text \<open>
  Every way a transaction can end: before the body runs, with the body's exception, or after the
  body, where the commit either fails or takes effect.
\<close>

lemma transaction_outcome:
  assumes run: "transaction fn sv s = (r, t)"
  shows "(\<exists>e. r = Inl e) \<and> disk t = disk s \<and> autos t = autos s \<and> (view t = view s \<or> view t = disk s) \<or>
    (\<exists>s1 x s2. begun s s1 \<and> fn sv s1 = (x, s2) \<and> autos t = autos s2 \<and>
      ((\<exists>e. r = Inl e) \<and> disk t = disk s2 \<and> (view t = view s2 \<or> view t = disk s2) \<or>
       (\<exists>a. x = Inr a) \<and> disk t = view s2 \<and> view t = view s2))"
proof -
  let ?s1 = "s\<lparr>clk := Suc (Suc (clk s)), autoc := False\<rparr>"
  have begun: "begun s ?s1" by (simp add: begun_def)
  note eqs = transaction_def transaction_on_def scoped_connection_eq driver_eqs
  show ?thesis
  proof (cases "fault sv (clk s) = None \<and> fault sv (Suc (clk s)) = None")
    case False
    with run undo_rows [of sv "s\<lparr>clk := Suc (Suc (clk s))\<rparr>"] show ?thesis
      by (auto simp: eqs split: option.splits)
  next
    case True
    obtain x s2 where fn: "fn sv ?s1 = (x, s2)" by fastforce
    have "autos t = autos s2 \<and>
      ((\<exists>e. r = Inl e) \<and> disk t = disk s2 \<and> (view t = view s2 \<or> view t = disk s2) \<or>
       (\<exists>a. x = Inr a) \<and> disk t = view s2 \<and> view t = view s2)"
    proof (cases x)
      case (Inl e)
      with run True fn undo_rows [of sv s2] show ?thesis by (auto simp: eqs)
    next
      case (Inr a)
      with run True fn undo_rows [of sv "s2\<lparr>clk := Suc (clk s2)\<rparr>"]
        undo_rows [of sv "s2\<lparr>disk := view s2, clk := Suc (Suc (clk s2))\<rparr>"]
      show ?thesis
        by (cases "fault sv (clk s2)"; cases "fault sv (Suc (clk s2))") (auto simp: eqs)
    qed
    with begun fn show ?thesis by blast
  qed
qed

text \<open>
  All or nothing: after a transaction on a clean session the committed rows are those of before,
  or those of the completed body; a normal return means the latter.
\<close>

lemma transaction_atomic:
  assumes iso: "keeps isolation fn" and run: "transaction fn sv s = (r, t)"
  shows "(disk t = disk s \<and> (\<exists>e. r = Inl e)) \<or>
     (\<exists>s1 a s2. begun s s1 \<and> fn sv s1 = (Inr a, s2) \<and> disk t = view s2 \<and> autos t = autos s2)"
proof -
  have "disk s2 = disk s" if "begun s s1" and "fn sv s1 = (x, s2)" for s1 x s2
    using begun_isolated [OF iso that] by simp
  with transaction_outcome [OF run] show ?thesis
    by (elim disjE exE conjE) (simp, metis+)
qed

text \<open>A statement outside a transaction either leaves everything as it was, or takes effect.\<close>

lemma db_execute_outcome:
  assumes "db_execute st args sv s = (r, t)"
  obtains (failed) e where "r = Inl e" "view t = view s" "disk t = disk s" "autos t = autos s"
    "autoc t = autoc s"
  | (executed) d au where "r = Inr ()"
    "exec_stmt (weight sv) args st (view s) (autos s) = Inr (d, au)"
    "view t = d" "autos t = au" "disk t = (if autoc s then d else disk s)" "autoc t = autoc s"
proof (cases "fault sv (clk s) = None \<and> fault sv (Suc (clk s)) = None")
  case False
  with assms show ?thesis
    by (intro failed [of "case r of Inl e \<Rightarrow> e | Inr _ \<Rightarrow> undefined"])
      (auto simp: db_execute_def scoped_connection_eq do_execute_def executeUpdate_def wrap_def
        drv_def Let_def split: option.splits)
next
  case True
  note eqs = db_execute_def scoped_connection_eq do_execute_def executeUpdate_def wrap_def
    drv_def Let_def after_stmt_def
  show ?thesis
  proof (cases "exec_stmt (weight sv) args st (view s) (autos s)")
    case (Inl e)
    with assms True show ?thesis by (intro failed [of "ExecuteFailed e"]) (auto simp: eqs)
  next
    case (Inr p)
    obtain d au where "p = (d, au)" by (cases p)
    with Inr assms True show ?thesis by (intro executed [of d au]) (auto simp: eqs)
  qed
qed

section \<open>Invariants and relations of rows\<close>

text \<open>
  \<open>row_invariant\<close>: a property of rows and counters that allowed statements keep and that
  skipping ids does not break.
\<close>

type_synonym row_pred = "collation \<Rightarrow> db \<Rightarrow> counters \<Rightarrow> bool"

definition on_view :: "row_pred \<Rightarrow> sess_rel" where
  "on_view I sv s t \<longleftrightarrow>
     (I (weight sv) (view s) (autos s) \<longrightarrow> I (weight sv) (view t) (autos t))"

definition both_ok :: "row_pred \<Rightarrow> server \<Rightarrow> session \<Rightarrow> bool" where
  "both_ok I sv s \<longleftrightarrow> I (weight sv) (disk s) (autos s) \<and> I (weight sv) (view s) (autos s)"

locale row_invariant =
  fixes I :: row_pred and allowed :: "sql_stmt \<Rightarrow> bool"
  assumes I_grow: "I w d au \<Longrightarrow> (\<And>tn. au tn \<le> au' tn) \<Longrightarrow> I w d au'"
    and I_stmt: "allowed st \<Longrightarrow> exec_stmt w args st d au = Inr (d', au') \<Longrightarrow> I w d au \<Longrightarrow> I w d' au'"

sublocale row_invariant \<subseteq> stmt_relation "on_view I" allowed
  by unfold_locales (auto simp: on_view_def after_stmt_def intro: I_stmt)

context row_invariant
begin

text \<open>
  A transaction keeps the invariant of the committed rows and of what the connection sees,
  whichever call fails, a failed rollback included.
\<close>

lemma transaction_both_ok:
  assumes iso: "keeps isolation fn" and kept: "keeps (on_view I) fn"
    and run: "transaction fn sv s = (r, t)" and ok: "both_ok I sv s"
  shows "both_ok I sv t"
  using transaction_outcome [OF run]
proof (elim disjE exE conjE)
  fix s1 x s2
  assume begun: "begun s s1" and fn: "fn sv s1 = (x, s2)" and au: "autos t = autos s2"
  from begun_isolated [OF iso begun fn]
  have disk: "disk s2 = disk s" and le: "\<And>tn. autos s tn \<le> autos s2 tn" by auto
  have new: "I (weight sv) (view s2) (autos s2)"
    using keepsD [OF kept fn] begun ok by (simp add: on_view_def begun_def both_ok_def)
  have old: "I (weight sv) (disk s) (autos s2)"
    by (rule I_grow [OF _ le]) (use ok in \<open>simp add: both_ok_def\<close>)
  show ?thesis if "disk t = view s2" "view t = view s2"
    using that new au by (simp add: both_ok_def)
  show ?thesis if "disk t = disk s2" "view t = view s2"
    using that new old au disk by (simp add: both_ok_def)
  show ?thesis if "disk t = disk s2" "view t = disk s2"
    using that old au disk by (simp add: both_ok_def)
qed (use ok in \<open>simp_all add: both_ok_def\<close>)

lemma execute_both_ok:
  assumes run: "db_execute st args sv s = (r, t)" and "allowed st" and ok: "both_ok I sv s"
  shows "both_ok I sv t"
  using run
proof (cases rule: db_execute_outcome)
  case (executed d au)
  have "I (weight sv) (disk s) au"
  proof (rule I_grow)
    show "I (weight sv) (disk s) (autos s)" using ok by (simp add: both_ok_def)
  qed (rule exec_stmt_counters [OF executed(2)])
  moreover have "I (weight sv) d au"
    using I_stmt [OF assms(2) executed(2)] ok by (simp add: both_ok_def)
  ultimately show ?thesis using executed by (simp add: both_ok_def)
qed (use ok in \<open>simp add: both_ok_def\<close>)

end

text \<open>\<open>row_relation\<close>: a preorder between rows before and after that allowed statements respect.\<close>

type_synonym row_rel = "db \<Rightarrow> db \<Rightarrow> bool"

definition view_rel :: "row_rel \<Rightarrow> sess_rel" where
  "view_rel Q sv s t \<longleftrightarrow> Q (view s) (view t)"

locale row_relation =
  fixes Q :: row_rel and allowed :: "sql_stmt \<Rightarrow> bool"
  assumes Q_refl: "Q d d"
    and Q_trans: "Q d d' \<Longrightarrow> Q d' d'' \<Longrightarrow> Q d d''"
    and Q_stmt: "allowed st \<Longrightarrow> exec_stmt w args st d au = Inr (d', au') \<Longrightarrow> Q d d'"

sublocale row_relation \<subseteq> stmt_relation "view_rel Q" allowed
  by unfold_locales (auto simp: view_rel_def after_stmt_def intro: Q_refl Q_trans Q_stmt)

context row_relation
begin

text \<open>
  The committed rows stay related across a transaction, and so does what a failed rollback left
  on the connection, for the next operation on it.
\<close>

lemma transaction_related:
  assumes iso: "keeps isolation fn" and kept: "keeps (view_rel Q) fn"
    and run: "transaction fn sv s = (r, t)" and pend: "Q (disk s) (view s)"
  shows "Q (disk s) (disk t) \<and> Q (disk t) (view t)"
  using transaction_outcome [OF run]
proof (elim disjE exE conjE)
  fix s1 x s2
  assume begun: "begun s s1" and fn: "fn sv s1 = (x, s2)"
  from begun_isolated [OF iso begun fn] have disk: "disk s2 = disk s" by auto
  have "Q (view s) (view s2)"
    using keepsD [OF kept fn] begun by (simp add: view_rel_def begun_def)
  with pend have new: "Q (disk s) (view s2)" by (rule Q_trans)
  show ?thesis if "disk t = view s2" "view t = view s2"
    using that new by (simp add: Q_refl)
  show ?thesis if "disk t = disk s2" "view t = view s2"
    using that new disk by (simp add: Q_refl)
  show ?thesis if "disk t = disk s2" "view t = disk s2"
    using that disk by (simp add: Q_refl)
qed (use pend in \<open>simp_all add: Q_refl\<close>)

lemma execute_related:
  assumes run: "db_execute st args sv s = (r, t)" and "allowed st" and pend: "Q (disk s) (view s)"
  shows "Q (disk s) (disk t) \<and> Q (disk t) (view t)"
  using run
proof (cases rule: db_execute_outcome)
  case (executed d au)
  with Q_stmt [OF assms(2) executed(2)] pend show ?thesis by (auto intro: Q_refl Q_trans)
qed (use pend in \<open>simp add: Q_refl\<close>)

end

section \<open>The statement engine provides them\<close>

interpretation integrity: row_invariant db_ok "\<lambda>_. True"
proof unfold_locales
  show "db_ok w d au'" if "db_ok w d au" and "\<And>tn. au tn \<le> au' tn" for w d au au'
    using that by (auto simp: db_ok_def intro: below_counter_mono)
qed (rule exec_stmt_db_ok)

text \<open>Tables that are only ever appended to, and tables a program does not touch.\<close>

definition appends :: "tname set \<Rightarrow> row_rel" where
  "appends T d d' \<longleftrightarrow> (\<forall>t\<in>T. \<exists>rs. d' t = d t @ rs)"

fun appending :: "tname set \<Rightarrow> sql_stmt \<Rightarrow> bool" where
  "appending T (Insert t cols vals odku) \<longleftrightarrow> t \<notin> T \<or> odku = None"
| "appending T st \<longleftrightarrow> stmt_table st \<notin> T"

lemma appends_stmt:
  assumes "appending T st" and run: "exec_stmt w args st d au = Inr (d', au')"
  shows "appends T d d'"
proof (cases "stmt_table st \<in> T")
  case True
  with assms(1) obtain t cols vals where st: "st = Insert t cols vals None"
    by (cases st) auto
  show ?thesis
    using exec_insert_append [OF run [unfolded st]] by (auto simp: appends_def)
next
  case False
  have "d' t = d t" if "t \<in> T" for t
    using exec_stmt_frame [OF run, of t] that False by auto
  then show ?thesis by (simp add: appends_def)
qed

interpretation append_only: row_relation "appends T" "appending T" for T
proof unfold_locales
  show "appends T d d''" if "appends T d d'" and "appends T d' d''" for d d' d''
    using that unfolding appends_def by (metis append.assoc)
  show "appends T d d" for d by (simp add: appends_def)
qed (rule appends_stmt)

definition untouched :: "tname set \<Rightarrow> row_rel" where
  "untouched T d d' \<longleftrightarrow> (\<forall>t\<in>T. d' t = d t)"

interpretation frame: row_relation "untouched T" "\<lambda>st. stmt_table st \<notin> T" for T
  by unfold_locales (auto simp: untouched_def, metis exec_stmt_frame)

text \<open>A transaction that returned, on a database with integrity.\<close>

lemma transaction_run:
  assumes run: "transaction fn sv s = (Inr a, t)" and kept: "keeps (on_view db_ok) fn"
    and ok: "db_ok (weight sv) (view s) (autos s)"
  obtains s1 s2 where "begun s s1" and "fn sv s1 = (Inr a, s2)"
    and "db_ok (weight sv) (view s1) (autos s1)" and "view s1 = view s" and "autos s1 = autos s"
    and "view t = view s2" and "disk t = view s2" and "autos t = autos s2" and "clean t"
    and "db_ok (weight sv) (view t) (autos t)"
proof -
  from run obtain s1 s2 where *: "begun s s1" "fn sv s1 = (Inr a, s2)" "view t = view s2"
    "disk t = view s2" "autos t = autos s2" "clean t"
    by (rule transaction_Inr)
  moreover have s1: "view s1 = view s" "autos s1 = autos s" using *(1) by (simp_all add: begun_def)
  moreover have "db_ok (weight sv) (view t) (autos t)"
    using keepsD [OF kept *(2)] ok * s1 by (simp add: on_view_def)
  ultimately show thesis using that [of s1 s2] ok by simp
qed

text \<open>A body that throws, on a server that answers every call.\<close>

lemma transaction_throws:
  assumes up: "fault sv = (\<lambda>_. None)"
    and body: "\<And>s1. begun s s1 \<Longrightarrow> \<exists>s2. fn sv s1 = (Inl e, s2) \<and> disk s2 = disk s1"
  shows "fst (transaction fn sv s) = Inl e \<and> disk (snd (transaction fn sv s)) = disk s"
proof -
  let ?s1 = "s\<lparr>clk := Suc (Suc (clk s)), autoc := False\<rparr>"
  have "begun s ?s1" by (simp add: begun_def)
  with body obtain s2 where "fn sv ?s1 = (Inl e, s2)" and "disk s2 = disk s" by fastforce
  then show ?thesis
    by (simp add: transaction_def transaction_on_def scoped_connection_eq driver_eqs up undo_rows)
qed

section \<open>The empty database\<close>

lemma clean_empty [simp]: "clean empty_session"
  by (simp add: clean_def empty_session_def)

lemma db_ok_empty [simp]: "db_ok w (view empty_session) (autos empty_session)"
  by (simp add: db_ok_def empty_session_def below_counter_def)

lemma clean_begun: "clean s \<Longrightarrow> view s = disk s"
  by (simp add: clean_def)
text \<open>Evaluating an operation on a concrete session with \<open>simp\<close>.\<close>

lemmas run_eval =
  transaction_def transaction_on_def scoped_connection_eq driver_eqs db_execute_def undo_def
  rollback_def quiet_def empty_session_def tx_bind_def tx_then_def tx_return_def tx_throw_def tx_iterate_def
  do_query_def do_execute_def do_insert_def wrap_def executeQuery_def executeUpdate_def
  selectLastInsertId_def drv_def Let_def exec_query_def exec_stmt_def exec_insert_def
  exec_update_def join_id_def new_row_def blank_row_def put_rows_def fk_row_def has_id_def
  conflict_def bump_def after_stmt_def generated_id_def first_value_def stoll_def opt_int_def
  opt_text_def b_def table_defs referenced_def copy_cols_apply
end
