(* ===== verification/Db_Files.thy ===== *)
theory Db_Files
  imports Db_Contract
begin

text \<open>
  src/tgloggerd/models/File.{hpp,cpp}: the content-addressed files table. \<open>upsertFile\<close> is modelled
  as its lookup and what follows it, so that two workers' transactions can be interleaved between
  the two. The abstract view is a map from digests to id, hit count and file name.
\<close>

section \<open>Model\<close>

record stored_file =
  f_tg_file_id :: string
  f_file_type :: string
  f_file_size :: int
  f_sha256_hex :: string
  f_file_ext :: "string option"
  f_orig_file_name :: string

definition file_lookup_sql :: sql_query where
  [sql_defs]: "file_lookup_sql = Select [Col ''id''] (Some T_files) [(''sha256'', Unhex (Arg 0))]"

definition file_hit_sql :: sql_stmt where
  [sql_defs]: "file_hit_sql = Update T_files None
     [(''hit_count'', Plus (Col ''hit_count'') (Lit (IntV 1))),
      (''orig_file_name'',
        IfEq (Col ''orig_file_name'') (Lit (TextV '''')) (Arg 0) (Col ''orig_file_name''))]
     [(''id'', Arg 1)]"

definition file_insert_sql :: sql_stmt where
  [sql_defs]: "file_insert_sql = Insert T_files
     [''tg_file_id'', ''file_type'', ''file_size'', ''sha256'', ''file_ext'', ''orig_file_name'']
     [Arg 0, Arg 1, Arg 2, Unhex (Arg 3), Arg 4, Arg 5] None"

definition upsertFile_after :: "stored_file \<Rightarrow> sql_val list list \<Rightarrow> int tx" where
  "upsertFile_after f rows =
     (if rows \<noteq> [] \<and> first_value rows \<noteq> Null then
        tx_bind (stoll (first_value rows)) (\<lambda>id.
        tx_then (do_execute file_hit_sql [TextV (f_orig_file_name f), IntV id])
        (tx_return id))
      else
        do_insert file_insert_sql
          [TextV (f_tg_file_id f), TextV (f_file_type f), IntV (f_file_size f),
           TextV (f_sha256_hex f), opt_text (f_file_ext f), TextV (f_orig_file_name f)])"

definition upsertFile_body :: "stored_file \<Rightarrow> int tx" where
  "upsertFile_body f =
     tx_bind (do_query file_lookup_sql [TextV (f_sha256_hex f)]) (upsertFile_after f)"

definition upsertFile :: "stored_file \<Rightarrow> int tx" where
  "upsertFile f = transaction (upsertFile_body f)"

section \<open>Contracts\<close>

context stmt_relation
begin

lemma upsertFile_keeps:
  assumes "allowed file_hit_sql" and "allowed file_insert_sql"
  shows "keeps R (upsertFile_body f)"
  unfolding upsertFile_body_def upsertFile_after_def
  by (intro keeps_rules assms)

end

section \<open>The content store\<close>

text \<open>Abstract view: digest to (id, hit count, original name).\<close>

definition file_entry :: "row \<Rightarrow> sql_val \<times> sql_val \<times> sql_val" where
  "file_entry r = (r ''id'', r ''hit_count'', r ''orig_file_name'')"

definition file_store :: "db \<Rightarrow> nat list \<Rightarrow> (sql_val \<times> sql_val \<times> sql_val) option" where
  "file_store d h = map_option file_entry (find (\<lambda>r. r ''sha256'' = BytesV h) (d T_files))"

text \<open>Abstract specification of one sighting of content \<open>h\<close> under name \<open>nm\<close>, with \<open>i\<close> a fresh id.\<close>

definition sight :: "collation \<Rightarrow> int \<Rightarrow> string \<Rightarrow> (sql_val \<times> sql_val \<times> sql_val) option \<Rightarrow>
    sql_val \<times> sql_val \<times> sql_val" where
  "sight w i nm old =
     (case old of
        None \<Rightarrow> (IntV i, IntV 1, TextV nm)
      | Some (j, n, onm) \<Rightarrow>
          (j, plus_val n (IntV 1), if val_eq w onm (TextV '''') then TextV nm else onm))"


lemma files_uniques: "[''sha256''] \<in> set (td_uniques (schema T_files))"
  "[''tg_file_id''] \<in> set (td_uniques (schema T_files))"
  by (simp_all add: files_def_def)

lemma files_sha256_unique:
  assumes "uniq_rows w T_files (d T_files)" and "r \<in> set (d T_files)" and "r' \<in> set (d T_files)"
    and "r ''sha256'' = BytesV h" and "r' ''sha256'' = BytesV h"
  shows "r = r'"
  using uniq_rows_key [OF assms(1-3) files_uniques(1)] assms(4,5) by simp

lemma file_store_SomeD:
  assumes "file_store d h = Some e"
  obtains r where "r \<in> set (d T_files)" and "r ''sha256'' = BytesV h" and "e = file_entry r"
  using assms by (auto simp: file_store_def dest: find_Some_mem)

lemma file_store_row:
  assumes "uniq_rows w T_files (d T_files)" and "r \<in> set (d T_files)" and "r ''sha256'' = BytesV h"
  shows "file_store d h = Some (file_entry r)"
proof (cases "find (\<lambda>r. r ''sha256'' = BytesV h) (d T_files)")
  case None
  with assms(2,3) show ?thesis by (auto simp: find_None_iff)
next
  case (Some r')
  then have "r' \<in> set (d T_files)" and "r' ''sha256'' = BytesV h" by (auto dest: find_Some_mem)
  with assms have "r' = r" by (intro files_sha256_unique)
  with Some show ?thesis by (simp add: file_store_def)
qed

lemma val_eq_BytesV [simp]: "val_eq w x (BytesV h) \<longleftrightarrow> x = BytesV h"
  by (cases x) auto

text \<open>What the lookup returns.\<close>

lemma lookup_rows:
  assumes "exec_query w [TextV hex] file_lookup_sql d = Inr rows" and "unhex hex = Some h"
  shows "rows = map (\<lambda>r. [r ''id'']) (filter (\<lambda>r. r ''sha256'' = BytesV h) (d T_files))"
  using assms by (auto simp: file_lookup_sql_def exec_query_Inr_iff)

lemma lookup_first:
  assumes "exec_query w [TextV hex] file_lookup_sql d = Inr rows" and "unhex hex = Some h"
  shows "first_value rows = (case file_store d h of None \<Rightarrow> Null | Some (i, _) \<Rightarrow> i)"
    and "rows = [] \<longleftrightarrow> file_store d h = None"
  unfolding lookup_rows [OF assms] file_store_def find_filter_hd
  by (auto simp: first_value_def file_entry_def split: list.splits)

text \<open>A rewriting of one row that keeps its digest rewrites one entry of the store.\<close>

lemma file_store_rewrite:
  assumes uniq: "uniq_rows w T_files (d T_files)" and r: "r \<in> set (d T_files)"
    "r ''sha256'' = BytesV h" "r ''id'' = IntV i"
    and f: "\<And>q. f q ''sha256'' = q ''sha256''"
  shows "file_store (d(T_files := map (\<lambda>q. if q ''id'' = IntV i then f q else q) (d T_files))) =
    (file_store d)(h \<mapsto> file_entry (f r))" (is "file_store ?d' = _")
proof
  fix k
  let ?g = "\<lambda>q. if q ''id'' = IntV i then f q else q"
  have same: "q = r" if "q \<in> set (d T_files)" "q ''id'' = IntV i" for q
    using uniq_rows_id [OF uniq that(1) r(1) id_unique] that r by simp
  have find: "file_store ?d' k = map_option (file_entry \<circ> ?g)
      (find (\<lambda>q. q ''sha256'' = BytesV k) (d T_files))"
    by (simp add: file_store_def find_map_update f option.map_comp)
  show "file_store ?d' k = ((file_store d)(h \<mapsto> file_entry (f r))) k"
  proof (cases "k = h")
    case True
    have "find (\<lambda>q. q ''sha256'' = BytesV h) (d T_files) \<noteq> None"
      using r by (auto simp: find_None_iff)
    then obtain q where q: "find (\<lambda>q. q ''sha256'' = BytesV h) (d T_files) = Some q" by blast
    with files_sha256_unique [where d = d, OF uniq _ r(1) _ r(2)] have "q = r" by (auto dest: find_Some_mem)
    with find q True r show ?thesis by simp
  next
    case False
    have "?g q = q" if "find (\<lambda>q. q ''sha256'' = BytesV k) (d T_files) = Some q" for q
      using find_Some_mem [OF that] same [of q] r False by auto
    with find False show ?thesis
      by (cases "find (\<lambda>q. q ''sha256'' = BytesV k) (d T_files)") (auto simp: file_store_def)
  qed
qed

lemma hit_effect:
  assumes ok: "db_ok w d au" and old: "file_store d h = Some (IntV i, n, onm)"
    and ex: "exec_stmt w [TextV nm, IntV i] file_hit_sql d au = Inr (d', au')"
  shows "file_store d' = (file_store d)(h \<mapsto> sight w j nm (Some (IntV i, n, onm)))" and "au' = au"
proof -
  let ?f = "\<lambda>r. r(''hit_count'' := plus_val (r ''hit_count'') (IntV 1),
     ''orig_file_name'' := (if val_eq w (r ''orig_file_name'') (TextV '''') then TextV nm
        else r ''orig_file_name''))"
  from old obtain r where r: "r \<in> set (d T_files)" "r ''sha256'' = BytesV h"
    "r ''id'' = IntV i" "n = r ''hit_count''" "onm = r ''orig_file_name''"
    by (auto simp: file_entry_def elim!: file_store_SomeD)
  have uniq: "uniq_rows w T_files (d T_files)" using ok by (simp add: db_ok_def)
  have "d' = d(T_files := map (\<lambda>q. if q ''id'' = IntV i then ?f q else q) (d T_files))"
    and "au' = au"
    using ex by (simp_all add: file_hit_sql_def exec_update_Inr_iff Let_def cong: if_cong)
  then show "file_store d' = (file_store d)(h \<mapsto> sight w j nm (Some (IntV i, n, onm)))"
    and "au' = au"
    using file_store_rewrite [where d = d and f = ?f, OF uniq r(1-3)] r by (simp_all add: sight_def file_entry_def)
qed

lemma insert_effect:
  assumes new: "file_store d h = None" and hex: "unhex (f_sha256_hex f) = Some h"
    and ex: "exec_stmt w [TextV (f_tg_file_id f), TextV (f_file_type f), IntV (f_file_size f),
      TextV (f_sha256_hex f), opt_text (f_file_ext f), TextV (f_orig_file_name f)]
      file_insert_sql d au = Inr (d', au')"
  shows "file_store d' = (file_store d)(h \<mapsto> sight w (au T_files) (f_orig_file_name f) None)"
proof -
  let ?args = "[TextV (f_tg_file_id f), TextV (f_file_type f), IntV (f_file_size f),
      TextV (f_sha256_hex f), opt_text (f_file_ext f), TextV (f_orig_file_name f)]"
  obtain r where d': "d' = d(T_files := d T_files @ [r])" and "r ''sha256'' = BytesV h"
    and "file_entry r = (IntV (au T_files), IntV 1, TextV (f_orig_file_name f))"
    using ex hex
    by (auto simp: file_insert_sql_def exec_insert_Inr_iff new_row_def apply_sets_def
        blank_row_def files_def_def file_entry_def Let_def)
  then show ?thesis
    using new by (auto simp: file_store_def find_append sight_def fun_eq_iff split: option.splits)
qed

section \<open>Running it\<close>

lemma upsertFile_after_run:
  assumes run: "upsertFile_after f rows sv s = (Inr i, t)"
    and look: "exec_query (weight sv) [TextV (f_sha256_hex f)] file_lookup_sql (view s) = Inr rows"
    and hex: "unhex (f_sha256_hex f) = Some h" and ok: "db_ok (weight sv) (view s) (autos s)"
  shows "file_store (view t) = (file_store (view s))
      (h \<mapsto> sight (weight sv) (autos s T_files) (f_orig_file_name f) (file_store (view s) h))"
    and "\<exists>n nm. file_store (view t) h = Some (IntV i, n, nm)"
proof -
  note first = lookup_first [OF look hex]
  have "file_store (view t) = (file_store (view s))
      (h \<mapsto> sight (weight sv) (autos s T_files) (f_orig_file_name f) (file_store (view s) h)) \<and>
    (\<exists>n nm. file_store (view t) h = Some (IntV i, n, nm))"
  proof (cases "file_store (view s) h")
    case None
    then have "do_insert file_insert_sql [TextV (f_tg_file_id f), TextV (f_file_type f),
        IntV (f_file_size f), TextV (f_sha256_hex f), opt_text (f_file_ext f),
        TextV (f_orig_file_name f)] sv s = (Inr i, t)"
      using run first by (simp add: upsertFile_after_def)
    then obtain d' au' where ex: "exec_stmt (weight sv) [TextV (f_tg_file_id f),
        TextV (f_file_type f), IntV (f_file_size f), TextV (f_sha256_hex f),
        opt_text (f_file_ext f), TextV (f_orig_file_name f)]
        file_insert_sql (view s) (autos s) = Inr (d', au')" and "view t = d'"
      and "i = generated_id file_insert_sql (autos s) (last_id s)"
      by (auto simp: do_insert_run after_stmt_def)
    with insert_effect [OF None hex ex] None show ?thesis
      by (simp add: sight_def generated_id_def file_insert_sql_def files_def_def)
  next
    case (Some e)
    obtain r where r: "r \<in> set (view s T_files)" "e = file_entry r"
      by (rule file_store_SomeD [OF Some])
    have "below_counter T_files (view s T_files) (autos s T_files)"
      using ok by (simp add: db_ok_def)
    with r obtain j n onm where e: "e = (IntV j, n, onm)"
      by (auto simp: file_entry_def below_counter_def files_def_def)
    from run first Some e obtain d' au' where
      ex: "exec_stmt (weight sv) [TextV (f_orig_file_name f), IntV j] file_hit_sql
        (view s) (autos s) = Inr (d', au')" and "view t = d'" and "i = j"
      by (auto simp: upsertFile_after_def tx_run after_stmt_def)
    with hit_effect(1) [OF ok Some [unfolded e] ex, of "autos s T_files"] Some e show ?thesis
      by (simp add: sight_def)
  qed
  then show "file_store (view t) = (file_store (view s))
      (h \<mapsto> sight (weight sv) (autos s T_files) (f_orig_file_name f) (file_store (view s) h))"
    and "\<exists>n nm. file_store (view t) h = Some (IntV i, n, nm)" by blast+
qed

lemma upsertFile_body_run:
  assumes "upsertFile_body f sv s = (Inr i, t)"
    and "unhex (f_sha256_hex f) = Some h" and "db_ok (weight sv) (view s) (autos s)"
  shows "file_store (view t) = (file_store (view s))
      (h \<mapsto> sight (weight sv) (autos s T_files) (f_orig_file_name f) (file_store (view s) h))"
    and "\<exists>n nm. file_store (view t) h = Some (IntV i, n, nm)"
proof -
  from assms(1) obtain rows u where
    look: "exec_query (weight sv) [TextV (f_sha256_hex f)] file_lookup_sql (view s) = Inr rows"
    and u: "u = s\<lparr>clk := Suc (clk s)\<rparr>" and run: "upsertFile_after f rows sv u = (Inr i, t)"
    by (auto simp: upsertFile_body_def tx_run)
  from look have "exec_query (weight sv) [TextV (f_sha256_hex f)] file_lookup_sql (view u) = Inr rows"
    by (simp add: u)
  from upsertFile_after_run [OF run this assms(2)] assms(3)
  show "file_store (view t) = (file_store (view s))
      (h \<mapsto> sight (weight sv) (autos s T_files) (f_orig_file_name f) (file_store (view s) h))"
    and "\<exists>n nm. file_store (view t) h = Some (IntV i, n, nm)"
    by (simp_all add: u)
qed

lemma upsertFile_run:
  assumes "upsertFile f sv s = (Inr i, t)" and "unhex (f_sha256_hex f) = Some h"
    and "db_ok (weight sv) (view s) (autos s)"
  shows "file_store (disk t) = (file_store (view s))
      (h \<mapsto> sight (weight sv) (autos s T_files) (f_orig_file_name f) (file_store (view s) h))"
    and "\<exists>n nm. file_store (disk t) h = Some (IntV i, n, nm)"
    and "clean t" and "db_ok (weight sv) (view t) (autos t)"
proof -
  have kept: "keeps (on_view db_ok) (upsertFile_body f)" by (simp add: integrity.upsertFile_keeps)
  obtain s1 s2 where *: "upsertFile_body f sv s1 = (Inr i, s2)"
    "db_ok (weight sv) (view s1) (autos s1)" "view s1 = view s" "autos s1 = autos s"
    "disk t = view s2" and "clean t" "db_ok (weight sv) (view t) (autos t)"
    by (rule transaction_run [OF assms(1) [unfolded upsertFile_def] kept assms(3)]) (rule that)
  with upsertFile_body_run [OF *(1) assms(2) *(2)]
  show "file_store (disk t) = (file_store (view s))
      (h \<mapsto> sight (weight sv) (autos s T_files) (f_orig_file_name f) (file_store (view s) h))"
    and "\<exists>n nm. file_store (disk t) h = Some (IntV i, n, nm)"
    and "clean t" and "db_ok (weight sv) (view t) (autos t)"
    by simp_all
qed

text \<open>A sighting of stored content adds no row.\<close>

lemma upsertFile_hit_length:
  assumes run: "upsertFile_body f sv s = (Inr i, t)" and hex: "unhex (f_sha256_hex f) = Some h"
    and old: "file_store (view s) h = Some (IntV j, n, onm)"
  shows "length (view t T_files) = length (view s T_files)"
proof -
  from run obtain rows where
    look: "exec_query (weight sv) [TextV (f_sha256_hex f)] file_lookup_sql (view s) = Inr rows"
    and run: "upsertFile_after f rows sv (s\<lparr>clk := Suc (clk s)\<rparr>) = (Inr i, t)"
    by (auto simp: upsertFile_body_def tx_run)
  have "rows \<noteq> []" and "first_value rows = IntV j"
    using lookup_first [OF look hex] old by simp_all
  with run obtain d' au' where
    "exec_stmt (weight sv) [TextV (f_orig_file_name f), IntV j] file_hit_sql (view s) (autos s)
      = Inr (d', au')" and "view t = d'"
    by (auto simp: upsertFile_after_def tx_run after_stmt_def)
  then show ?thesis by (auto simp: file_hit_sql_def exec_update_Inr_iff Let_def)
qed

lemma insert_clash:
  assumes hex: "unhex (f_sha256_hex f) = Some h" and r: "r \<in> set (view s T_files)"
    and clash: "r ''sha256'' = BytesV h \<or> val_eq (weight sv) (TextV (f_tg_file_id f)) (r ''tg_file_id'')"
    and "fault sv (clk s) = None" and none: "rows = [] \<or> first_value rows = Null"
  shows "upsertFile_after f rows sv s = (Inl (InsertFailed DupKey), s\<lparr>clk := Suc (clk s)\<rparr>)"
proof -
  let ?args = "[TextV (f_tg_file_id f), TextV (f_file_type f), IntV (f_file_size f),
      TextV (f_sha256_hex f), opt_text (f_file_ext f), TextV (f_orig_file_name f)]"
  let ?new = "new_row (weight sv) ?args T_files [''tg_file_id'', ''file_type'', ''file_size'',
      ''sha256'', ''file_ext'', ''orig_file_name''] [Arg 0, Arg 1, Arg 2, Unhex (Arg 3), Arg 4, Arg 5]
      (autos s)"
  have "?new ''sha256'' = BytesV h" and "?new ''tg_file_id'' = TextV (f_tg_file_id f)"
    using hex by (simp_all add: new_row_def Let_def)
  then have "conflict (weight sv) T_files ?new r"
    using clash by (auto simp: conflict_def files_def_def)
  then have "\<not> uniq_rows (weight sv) T_files (view s T_files @ [?new])"
    using r by (auto simp: uniq_rows_snoc)
  then have "exec_stmt (weight sv) ?args file_insert_sql (view s) (autos s) = Inl DupKey"
    by (simp add: file_insert_sql_def exec_stmt_def exec_insert_def put_rows_def Let_def)
  with none assms(4) show ?thesis
    by (auto simp: upsertFile_after_def do_insert_def tx_bind_def wrap_def executeUpdate_def
        drv_def Let_def)
qed

section \<open>Properties\<close>

text \<open>
  C5: \<open>upsertFile\<close> refines one sighting on the abstract content store, all or nothing. Whatever
  driver call fails, the committed store afterwards is the one before or the one where this digest
  has been sighted once more (first sighting: fresh id, count 1, this name; later ones: same id,
  count plus one, the name filled in only if it was empty); a normal return means the latter, and
  the returned id is the id stored for the digest.
\<close>

theorem upsertFile_refines:
  assumes "upsertFile f sv s = (r, t)" and "unhex (f_sha256_hex f) = Some h"
    and "clean s" and "db_ok (weight sv) (view s) (autos s)"
  shows "(file_store (disk t) = file_store (disk s) \<and> (\<exists>e. r = Inl e)) \<or>
     (file_store (disk t) = (file_store (disk s))(h \<mapsto> sight (weight sv) (autos s T_files)
        (f_orig_file_name f) (file_store (disk s) h)) \<and>
      (\<forall>i. r = Inr i \<longrightarrow> (\<exists>n nm. file_store (disk t) h = Some (IntV i, n, nm))))"
proof -
  have iso: "keeps isolation (upsertFile_body f)" by (simp add: iso.upsertFile_keeps)
  have vs: "view s = disk s" using assms(3) by (rule clean_begun)
  show ?thesis
    using transaction_atomic [OF iso assms(1) [unfolded upsertFile_def]]
  proof (elim disjE exE conjE)
    fix s1 a s2
    assume begun: "begun s s1" and fn: "upsertFile_body f sv s1 = (Inr a, s2)" and d: "disk t = view s2"
    have "db_ok (weight sv) (view s1) (autos s1)" using assms(4) begun by (simp add: begun_def)
    note run = upsertFile_body_run [OF fn assms(2) this]
    have "\<exists>n nm. file_store (disk t) h = Some (IntV i, n, nm)" if "r = Inr i" for i
    proof -
      from assms(1) [unfolded upsertFile_def that] obtain s1' s2' where
        b': "begun s s1'" "upsertFile_body f sv s1' = (Inr i, s2')" "disk t = view s2'"
        by (auto elim: transaction_Inr)
      have "db_ok (weight sv) (view s1') (autos s1')" using assms(4) b'(1) by (simp add: begun_def)
      from upsertFile_body_run(2) [OF b'(2) assms(2) this] b'(3) show ?thesis by simp
    qed
    with run(1) d begun vs show ?thesis by (simp add: begun_def)
  qed simp
qed
text \<open>A photo seen on the empty database.\<close>

definition sample_file :: stored_file where
  "sample_file = \<lparr>f_tg_file_id = ''AgAD'', f_file_type = ''photo'', f_file_size = 3,
     f_sha256_hex = ''ab01'', f_file_ext = Some ''jpg'', f_orig_file_name = ''cat''\<rparr>"

lemma sample_hex: "unhex (f_sha256_hex sample_file) = Some [171, 1]"
  by code_simp

lemma sample_run: "fst (upsertFile sample_file quiet empty_session) = Inr 1"
  by code_simp

theorem upsertFile_refines_witness:
  "file_store (disk (snd (upsertFile sample_file quiet empty_session))) =
     [[171, 1] \<mapsto> (IntV 1, IntV 1, TextV ''cat'')]"
proof -
  have "file_store (disk empty_session) = (\<lambda>_. None)"
    by (simp add: file_store_def empty_session_def fun_eq_iff)
  with upsertFile_refines [OF fst_run [OF sample_run] sample_hex clean_empty db_ok_empty]
  show ?thesis by (simp add: sight_def sample_file_def empty_session_def)
qed

text \<open>
  De-duplication. Two successful calls for the same content, one after the other, return the
  same id, whatever names, types or remote ids the two sightings carry, and the second one adds no
  row to the files table.
\<close>

theorem upsertFile_dedup:
  assumes "upsertFile f sv s = (Inr i, t)" and "upsertFile g sv t = (Inr j, u)"
    and f: "unhex (f_sha256_hex f) = Some h" and g: "unhex (f_sha256_hex g) = Some h"
    and "db_ok (weight sv) (view s) (autos s)"
  shows "i = j \<and> length (disk u T_files) = length (disk t T_files)"
proof -
  note first = upsertFile_run [OF assms(1) f assms(5)]
  have vt: "view t = disk t" using first(3) by (rule clean_begun)
  obtain n nm where old: "file_store (view t) h = Some (IntV i, n, nm)"
    using first(2) vt by auto
  note second = upsertFile_run [OF assms(2) g first(4)]
  then have "i = j" using old by (auto simp: sight_def)
  moreover have "length (disk u T_files) = length (disk t T_files)"
  proof -
    obtain t1 u1 where "begun t t1" "upsertFile_body g sv t1 = (Inr j, u1)" "disk u = view u1"
      by (rule transaction_Inr [OF assms(2) [unfolded upsertFile_def]]) (rule that)
    moreover from this have "view t1 = view t" by (simp add: begun_def)
    ultimately show ?thesis using upsertFile_hit_length [OF _ g, of sv t1 j u1] old vt by simp
  qed
  ultimately show ?thesis ..
qed

lemma sample_again: "fst (upsertFile (sample_file\<lparr>f_orig_file_name := ''''\<rparr>) quiet
    (snd (upsertFile sample_file quiet empty_session))) = Inr 1"
  by code_simp

theorem upsertFile_dedup_witness:
  "length (disk (snd (upsertFile (sample_file\<lparr>f_orig_file_name := ''''\<rparr>) quiet
     (snd (upsertFile sample_file quiet empty_session)))) T_files) =
   length (disk (snd (upsertFile sample_file quiet empty_session)) T_files)"
  using upsertFile_dedup [OF fst_run [OF sample_run] fst_run [OF sample_again] sample_hex _ db_ok_empty]
    sample_hex by simp

text \<open>
  C31: the race the transaction leaves open. A worker whose lookup found no row for a digest, while
  another worker committed that digest before it inserts, gets a duplicate-key exception instead
  of the id: nothing is stored for its sighting and no id is returned.
\<close>

theorem upsertFile_stale_lookup:
  assumes "file_store (view s) h \<noteq> None" and "unhex (f_sha256_hex f) = Some h"
    and "fault sv (clk s) = None"
  shows "upsertFile_after f [] sv s = (Inl (InsertFailed DupKey), s\<lparr>clk := Suc (clk s)\<rparr>)"
  using assms insert_clash by (auto elim!: file_store_SomeD)

theorem upsertFile_stale_lookup_witness:
  "fst (upsertFile_after sample_file [] quiet (snd (upsertFile sample_file quiet empty_session))) =
     Inl (InsertFailed DupKey)"
proof -
  have "file_store (view (snd (upsertFile sample_file quiet empty_session))) [171, 1] \<noteq> None"
    by code_simp
  then show ?thesis
    using upsertFile_stale_lookup [OF _ sample_hex, of _ quiet] by (simp add: quiet_def)
qed

text \<open>
  Content not stored yet is refused when its remote file id compares equal (under the column's
  case-insensitive collation) to the one of a stored file: the call throws and stores nothing.
\<close>

theorem upsertFile_remote_id_clash:
  assumes "file_store (disk s) h = None" and "unhex (f_sha256_hex f) = Some h"
    and "r \<in> set (disk s T_files)" and "val_eq (weight sv) (TextV (f_tg_file_id f)) (r ''tg_file_id'')"
    and "fault sv = (\<lambda>_. None)" and "clean s"
  shows "fst (upsertFile f sv s) = Inl (InsertFailed DupKey) \<and>
     disk (snd (upsertFile f sv s)) = disk s"
  unfolding upsertFile_def
proof (rule transaction_throws [OF assms(5)])
  fix s1
  assume "begun s s1"
  with clean_begun [OF assms(6)] have view: "view s1 = disk s" by (simp add: begun_def)
  obtain rows where
    look: "exec_query (weight sv) [TextV (f_sha256_hex f)] file_lookup_sql (view s1) = Inr rows"
    by (simp add: file_lookup_sql_def exec_query_def)
  have none: "rows = [] \<or> first_value rows = Null"
    using lookup_first [OF look assms(2)] assms(1) view by simp
  let ?u = "s1\<lparr>clk := Suc (clk s1)\<rparr>"
  have "r \<in> set (view ?u T_files)" and "fault sv (clk ?u) = None"
    using assms(3,5) view by simp_all
  from insert_clash [OF assms(2) this(1) _ this(2) none] assms(4) look
  show "\<exists>s2. upsertFile_body f sv s1 = (Inl (InsertFailed DupKey), s2) \<and> disk s2 = disk s1"
    by (simp add: upsertFile_body_def do_query_def executeQuery_def wrap_def drv_def tx_bind_def
        assms(5) Let_def)
qed

theorem upsertFile_remote_id_clash_witness:
  "fst (upsertFile (sample_file\<lparr>f_sha256_hex := ''cd02''\<rparr>) quiet
     (snd (upsertFile sample_file quiet empty_session))) = Inl (InsertFailed DupKey)"
proof -
  let ?s = "snd (upsertFile sample_file quiet empty_session)"
  have "file_store (disk ?s) [205, 2] = None" by code_simp
  moreover have "unhex (f_sha256_hex (sample_file\<lparr>f_sha256_hex := ''cd02''\<rparr>)) = Some [205, 2]"
    by code_simp
  moreover have "length (disk ?s T_files) = 1" by code_simp
  then have "hd (disk ?s T_files) \<in> set (disk ?s T_files)" by (cases "disk ?s T_files") simp_all
  moreover have "val_eq (weight quiet)
      (TextV (f_tg_file_id (sample_file\<lparr>f_sha256_hex := ''cd02''\<rparr>)))
      (hd (disk ?s T_files) ''tg_file_id'')"
    by code_simp
  moreover have "clean ?s" using upsertFile_run(3) [OF fst_run [OF sample_run] sample_hex] by simp
  ultimately show ?thesis by (intro upsertFile_remote_id_clash [THEN conjunct1]) (auto simp: quiet_def)
qed

end
