(* ===== verification/Sql_Keyed.thy ===== *)
theory Sql_Keyed
  imports Sql_Engine
begin

text \<open>
  Tables seen through a unique key: what INSERT, INSERT ... ON DUPLICATE KEY UPDATE, UPDATE and
  DELETE do to the row a key designates and to the rows of every other key. The model classes'
  proofs about users, groups, usernames, messages and administrators rest on these lemmas.
\<close>

section \<open>Rows of one key\<close>

lemma map_first_cong:
  "(\<And>x. x \<in> set xs \<Longrightarrow> P x = Q x) \<Longrightarrow> map_first P f xs = map_first Q f xs"
  by (induction xs) simp_all

lemma map_first_unique:
  "length (filter K xs) \<le> 1 \<Longrightarrow> map_first K f xs = map (\<lambda>r. if K r then f r else r) xs"
proof (induction xs)
  case (Cons x xs)
  show ?case
  proof (cases "K x")
    case True
    with Cons.prems have "\<forall>y\<in>set xs. \<not> K y" by (simp add: filter_empty_conv)
    then have "map (\<lambda>r. if K r then f r else r) xs = xs" by (simp add: map_idI)
    with True show ?thesis by simp
  qed (use Cons in simp)
qed simp

lemma uniq_rows_filter_short:
  assumes "uniq_rows w t rs"
    and "\<And>r r'. r \<in> set rs \<Longrightarrow> r' \<in> set rs \<Longrightarrow> K r \<Longrightarrow> K r' \<Longrightarrow> conflict w t r r'"
  shows "length (filter K rs) \<le> 1"
  using assms
proof (induction rs)
  case (Cons r rs)
  show ?case
  proof (cases "K r")
    case True
    then have "filter K rs = []"
      using Cons.prems by (auto simp: filter_empty_conv)
    with True show ?thesis by simp
  next
    case False
    with Cons show ?thesis by simp
  qed
qed simp

section \<open>Insert or update\<close>

text \<open>
  An upsert whose new row conflicts exactly with the rows of one key: the row of that key is
  rewritten in place, or, when there is none, the new row is appended.
\<close>

definition upserted :: "(row \<Rightarrow> bool) \<Rightarrow> string list \<Rightarrow> row \<Rightarrow> row list \<Rightarrow> row list" where
  "upserted K ups new rs =
     (if find K rs = None then rs @ [new]
      else map (\<lambda>r. if K r then copy_cols ups new r else r) rs)"

lemma exec_upsert_rows:
  assumes ex: "exec_stmt w args (Insert t cols vals (Some ups)) d au = Inr (d', au')"
    and new: "new = new_row w args t cols vals au"
    and K: "\<And>r. r \<in> set (d t) \<Longrightarrow> conflict w t new r = K r"
    and one: "length (filter K (d t)) \<le> 1"
  shows "d' = d(t := upserted K ups new (d t))" and "au' = bump t au"
proof -
  have cong: "find (conflict w t new) (d t) = find K (d t)"
    using K by (intro find_cong) simp_all
  show "au' = bump t au" using ex by (simp add: exec_upsert_Inr_iff)
  show "d' = d(t := upserted K ups new (d t))"
  proof (cases "find K (d t)")
    case None
    with ex show ?thesis by (simp add: exec_upsert_Inr_iff cong Let_def upserted_def flip: new)
  next
    case (Some old)
    have "map_first (conflict w t new) (\<lambda>_. copy_cols ups new old) (d t) =
      map_first K (\<lambda>_. copy_cols ups new old) (d t)"
      using K by (rule map_first_cong)
    also have "\<dots> = map (\<lambda>r. if K r then copy_cols ups new old else r) (d t)"
      using one by (rule map_first_unique)
    also have "\<dots> = map (\<lambda>r. if K r then copy_cols ups new r else r) (d t)"
    proof (rule map_cong [OF refl])
      fix r assume r: "r \<in> set (d t)"
      have "set (filter K (d t)) = {old}" using one Some by (simp add: filter_single)
      then have "r = old" if "K r" using r that by auto
      then show "(if K r then copy_cols ups new old else r) = (if K r then copy_cols ups new r else r)"
        by simp
    qed
    finally show ?thesis
      using ex Some by (simp add: exec_upsert_Inr_iff cong Let_def upserted_def flip: new)
  qed
qed

text \<open>The row of the key afterwards, and the rows of other keys.\<close>

lemma find_upserted_same:
  assumes "K new" and "\<And>r. K r \<Longrightarrow> K (copy_cols ups new r)"
  shows "find K (upserted K ups new rs) =
    Some (case find K rs of None \<Rightarrow> new | Some old \<Rightarrow> copy_cols ups new old)"
proof (cases "find K rs")
  case (Some old)
  then have "K old" by (simp add: find_Some_mem)
  with Some show ?thesis
    by (simp add: upserted_def find_map_if [of K K] assms)
qed (simp add: upserted_def find_append assms)

lemma find_upserted_other:
  assumes "\<not> P new" and "\<And>r. K r \<Longrightarrow> \<not> P r \<and> \<not> P (copy_cols ups new r)"
  shows "find P (upserted K ups new rs) = find P rs"
  using assms
  by (auto simp: upserted_def find_append find_map_if [of K P] dest: find_Some_mem
      split: option.splits)

section \<open>Update of one key\<close>

lemma exec_update_rows:
  assumes "exec_stmt w args (Update t None sets wh) d au = Inr (d', au')"
  shows "d' = d(t := map (\<lambda>r. if match w args wh r then apply_sets w args Null sets r else r) (d t))"
    and "au' = au"
  using assms by (simp_all add: exec_update_Inr_iff Let_def join_id_def)

lemma find_updated:
  assumes "\<And>r. K r \<Longrightarrow> K (f r)"
  shows "find K (map (\<lambda>r. if K r then f r else r) rs) = map_option f (find K rs)"
  using assms find_Some_mem [of K rs] by (cases "find K rs") (simp_all add: find_map_if [of K K])

lemma find_updated_other:
  assumes "\<And>r. K r \<Longrightarrow> \<not> P r \<and> \<not> P (f r)"
  shows "find P (map (\<lambda>r. if K r then f r else r) rs) = find P rs"
  using assms by (induction rs) auto

section \<open>Rows built from parameters\<close>

fun args_from :: "nat \<Rightarrow> string list \<Rightarrow> sql_expr list" where
  "args_from k [] = []"
| "args_from k (c # cs) = Arg k # args_from (Suc k) cs"

lemma length_args_from [simp]: "length (args_from k cols) = length cols"
  by (induction cols arbitrary: k) simp_all

lemma args_from_args [simp]: "concat (map expr_args (args_from k cols)) = [k..<k + length cols]"
  by (induction cols arbitrary: k) (simp_all add: upt_rec)

lemma apply_sets_args:
  assumes "distinct cols" and "length args = k + length cols"
  shows "apply_sets w args j (zip cols (args_from k cols)) r c =
    (case map_of (zip cols (drop k args)) c of None \<Rightarrow> r c | Some v \<Rightarrow> v)"
  using assms
proof (induction cols arbitrary: k r)
  case (Cons d cols)
  have drop: "drop k args = args ! k # drop (Suc k) args"
    using Cons.prems(2) by (simp add: Cons_nth_drop_Suc)
  have "d \<notin> set cols" using Cons.prems(1) by simp
  then have none: "map_of (zip cols (drop (Suc k) args)) d = None"
    by (meson map_of_eq_None_iff in_set_zipE imageE set_zip_leftD not_None_eq map_of_SomeD)
  have "apply_sets w args j (zip cols (args_from (Suc k) cols)) (r(d := args ! k)) c =
      (case map_of (zip cols (drop (Suc k) args)) c of None \<Rightarrow> (r(d := args ! k)) c | Some v \<Rightarrow> v)"
    using Cons.IH [of "Suc k"] Cons.prems by simp
  with Cons.prems(2) none show ?case by (auto simp: drop split: option.split)
qed simp

lemma new_row_args:
  assumes "distinct cols" and "length args = length cols" and "c \<noteq> ''id'' \<or> \<not> td_auto (schema t)"
  shows "new_row w args t cols (args_from 0 cols) au c =
    (case map_of (zip cols args) c of None \<Rightarrow> blank_row t c | Some v \<Rightarrow> v)"
  using assms apply_sets_args [of cols args 0]
  by (auto simp: new_row_def Let_def)

lemma map_of_zip_the:
  assumes "c \<in> set cols" and "length vs = length cols"
  shows "map_of (zip cols vs) c = Some (the (map_of (zip cols vs) c))"
  using map_of_zip_is_None [of cols vs c] assms by (cases "map_of (zip cols vs) c") auto

lemma map_of_zip_self:
  assumes "distinct cols" and "length vs = length cols"
  shows "map (\<lambda>c. the (map_of (zip cols vs) c)) cols = vs"
  using assms
proof (induction cols vs rule: list_induct2')
  case (4 c cols v vs)
  have "map (\<lambda>d. the (map_of (zip (c # cols) (v # vs)) d)) cols =
      map (\<lambda>d. the (map_of (zip cols vs) d)) cols"
    using 4 by (intro map_cong) auto
  with 4 show ?case by simp
qed simp_all

section \<open>Tables with a plain id\<close>

text \<open>The upsert of a table whose only unique key is an id the program supplies.\<close>

definition has_key :: "int \<Rightarrow> row \<Rightarrow> bool" where
  "has_key i r \<longleftrightarrow> r ''id'' = IntV i"

lemma has_key_single:
  "uniq_rows w t (d t) \<Longrightarrow> length (filter (has_key i) (d t)) \<le> 1"
  by (rule uniq_rows_filter_short [of w t]) (use id_unique in \<open>auto simp: has_key_def conflict_def intro!: bexI\<close>)

lemma upsert_by_id:
  assumes uniq: "uniq_rows w t (d t)" and keys: "td_uniques (schema t) = [[''id'']]"
    and id: "new_row w args t cols vals au ''id'' = IntV i"
    and ups: "''id'' \<notin> set ups"
    and ex: "exec_stmt w args (Insert t cols vals (Some ups)) d au = Inr (d', au')"
  shows "d' = d(t := upserted (has_key i) ups (new_row w args t cols vals au) (d t))"
    and "find (has_key i) (d' t) = Some (case find (has_key i) (d t) of
      None \<Rightarrow> new_row w args t cols vals au
    | Some old \<Rightarrow> copy_cols ups (new_row w args t cols vals au) old)"
    and "\<And>j. j \<noteq> i \<Longrightarrow> find (has_key j) (d' t) = find (has_key j) (d t)"
proof -
  show d': "d' = d(t := upserted (has_key i) ups (new_row w args t cols vals au) (d t))"
    by (rule exec_upsert_rows [OF ex refl _ has_key_single [where d = d, OF uniq]])
      (simp add: conflict_def keys id has_key_def)
  show "find (has_key i) (d' t) = Some (case find (has_key i) (d t) of
      None \<Rightarrow> new_row w args t cols vals au
    | Some old \<Rightarrow> copy_cols ups (new_row w args t cols vals au) old)"
    unfolding d' fun_upd_same
    by (rule find_upserted_same) (use ups in \<open>simp_all add: has_key_def id copy_cols_apply\<close>)
  show "find (has_key j) (d' t) = find (has_key j) (d t)" if "j \<noteq> i" for j
    unfolding d' fun_upd_same
    by (rule find_upserted_other) (use ups that in \<open>simp_all add: has_key_def id copy_cols_apply\<close>)
qed
end
