(* ===== verification/Db_Messages.thy ===== *)
theory Db_Messages
  imports Db_Contract Sql_Keyed
begin

text \<open>
  src/tgloggerd/models/Message.{hpp,cpp}, PrivateMessage.{hpp,cpp} and GroupMessage.{hpp,cpp}: the
  data of a message, the helpers both families share (edit snapshot, forward information), the two
  upserts, and the two pairs of late updates that link a downloaded file and a reply target. The
  operations of the two families are translated one by one; theory \<open>Db_Message_Store\<close> states what
  they have in common.
\<close>

section \<open>Data\<close>

datatype MessageContentType =
    Ct_Text | Ct_Photo | Ct_Video | Ct_Document | Ct_Audio | Ct_Voice | Ct_Sticker | Ct_Animation
  | Ct_Unknown

datatype ForwardOriginType = Fo_User | Fo_HiddenUser | Fo_Chat | Fo_Channel

record ForwardInfo =
  origin_type :: ForwardOriginType
  origin_sender_user_id :: "int option"
  origin_sender_name :: "string option"
  origin_chat_id :: "int option"
  origin_message_id :: "int option"
  origin_date :: int

record MessageContent =
  content_type :: MessageContentType
  content_text :: "string option"
  content_file_id :: "int option"

record PrivateMessage =
  pm_chat_id :: int
  pm_message_id :: int
  pm_sender_id :: "int option"
  pm_is_outgoing :: bool
  pm_date :: int
  pm_edit_date :: int
  pm_content :: MessageContent
  pm_is_deleted :: bool
  pm_forward_info :: "ForwardInfo option"

record GroupMessage =
  gm_chat_id :: int
  gm_message_id :: int
  gm_sender_user_id :: "int option"
  gm_sender_chat_id :: "int option"
  gm_is_outgoing :: bool
  gm_is_channel_post :: bool
  gm_author_signature :: "string option"
  gm_date :: int
  gm_edit_date :: int
  gm_content :: MessageContent
  gm_is_deleted :: bool
  gm_forward_info :: "ForwardInfo option"

fun content_type_to_string :: "MessageContentType \<Rightarrow> string" where
  "content_type_to_string Ct_Text = ''text''"
| "content_type_to_string Ct_Photo = ''photo''"
| "content_type_to_string Ct_Video = ''video''"
| "content_type_to_string Ct_Document = ''document''"
| "content_type_to_string Ct_Audio = ''audio''"
| "content_type_to_string Ct_Voice = ''voice''"
| "content_type_to_string Ct_Sticker = ''sticker''"
| "content_type_to_string Ct_Animation = ''animation''"
| "content_type_to_string Ct_Unknown = ''unknown''"

fun origin_type_to_string :: "ForwardOriginType \<Rightarrow> string" where
  "origin_type_to_string Fo_User = ''user''"
| "origin_type_to_string Fo_HiddenUser = ''hidden_user''"
| "origin_type_to_string Fo_Chat = ''chat''"
| "origin_type_to_string Fo_Channel = ''channel''"

definition message_content_type_from_string :: "string \<Rightarrow> MessageContentType" where
  "message_content_type_from_string s =
     (if s = ''text'' then Ct_Text
      else if s = ''photo'' then Ct_Photo
      else if s = ''video'' then Ct_Video
      else if s = ''document'' then Ct_Document
      else if s = ''audio'' then Ct_Audio
      else if s = ''voice'' then Ct_Voice
      else if s = ''sticker'' then Ct_Sticker
      else if s = ''animation'' then Ct_Animation
      else Ct_Unknown)"

section \<open>Shared helpers\<close>

definition edit_insert_sql :: "tname \<Rightarrow> string \<Rightarrow> sql_stmt" where
  [sql_defs]: "edit_insert_sql edits_table fk_column = Insert edits_table
     [fk_column, ''content_type'', ''text'', ''file_id'', ''edit_date'']
     [Arg 0, Arg 1, Arg 2, Arg 3, Arg 4] None"

definition snapshotMessageEditIfChanged :: "tname \<Rightarrow> string \<Rightarrow> int \<Rightarrow> MessageContent \<Rightarrow> int \<Rightarrow>
    MessageContent \<Rightarrow> int \<Rightarrow> bool tx" where
  "snapshotMessageEditIfChanged edits_table fk_column row_id old_content old_edit_date
     new_content new_edit_date =
     (if new_edit_date \<le> old_edit_date then tx_return False
      else if content_type old_content = content_type new_content \<and>
              content_text old_content = content_text new_content then tx_return False
      else
        tx_then (do_execute (edit_insert_sql edits_table fk_column)
          [IntV row_id, TextV (content_type_to_string (content_type old_content)),
           opt_text (content_text old_content), opt_int (content_file_id old_content),
           IntV new_edit_date])
        (tx_return True))"

definition fwd_exists_sql :: "tname \<Rightarrow> string \<Rightarrow> sql_query" where
  [sql_defs]: "fwd_exists_sql table fk_column = Select [Lit (IntV 1)] (Some table) [(fk_column, Arg 0)]"

definition fwd_insert_sql :: "tname \<Rightarrow> string \<Rightarrow> sql_stmt" where
  [sql_defs]: "fwd_insert_sql table fk_column = Insert table
     [fk_column, ''origin_type'', ''origin_sender_user_id'', ''origin_sender_name'',
      ''origin_chat_id'', ''origin_message_id'', ''origin_date'']
     [Arg 0, Arg 1, Arg 2, Arg 3, Arg 4, Arg 5, Arg 6] None"

definition insertForwardInfo :: "tname \<Rightarrow> string \<Rightarrow> int \<Rightarrow> ForwardInfo \<Rightarrow> unit tx" where
  "insertForwardInfo table fk_column row_id info =
     tx_bind (do_query (fwd_exists_sql table fk_column) [IntV row_id]) (\<lambda>rows.
       if rows \<noteq> [] then tx_return ()
       else do_execute (fwd_insert_sql table fk_column)
         [IntV row_id, TextV (origin_type_to_string (origin_type info)),
          opt_int (origin_sender_user_id info), opt_text (origin_sender_name info),
          opt_int (origin_chat_id info), opt_int (origin_message_id info),
          IntV (origin_date info)])"

text \<open>Rebuilding \<open>old_content\<close> from columns 2 to 4 of the fetched row.\<close>

fun text_opt :: "sql_val \<Rightarrow> string option" where
  "text_opt (TextV s) = Some s"
| "text_opt _ = None"

definition old_content_of :: "sql_val list \<Rightarrow> MessageContent tx" where
  "old_content_of old =
     tx_bind (if old ! 4 \<noteq> Null then tx_bind (stoll (old ! 4)) (\<lambda>f. tx_return (Some f))
              else tx_return None) (\<lambda>file_id.
     tx_return \<lparr>content_type = message_content_type_from_string (text_or (old ! 2) ''unknown''),
       content_text = text_opt (old ! 3), content_file_id = file_id\<rparr>)"

section \<open>PrivateMessage.cpp\<close>

definition pm_upsert_sql :: sql_stmt where
  [sql_defs]: "pm_upsert_sql = Insert T_private_messages
     [''chat_id'', ''message_id'', ''sender_id'', ''is_outgoing'', ''date'', ''edit_date'',
      ''content_type'', ''text'', ''is_deleted'', ''is_forwarded'']
     [Arg 0, Arg 1, Arg 2, Arg 3, Arg 4, Arg 5, Arg 6, Arg 7, Arg 8, Arg 9]
     (Some [''sender_id'', ''is_outgoing'', ''date'', ''edit_date'', ''content_type'', ''text'',
       ''is_deleted'', ''is_forwarded''])"

definition pm_old_sql :: sql_query where
  [sql_defs]: "pm_old_sql = Select
     [Col ''id'', Col ''edit_date'', Col ''content_type'', Col ''text'', Col ''file_id'',
      Col ''is_deleted'']
     (Some T_private_messages) [(''chat_id'', Arg 0), (''message_id'', Arg 1)]"

definition pm_id_sql :: sql_query where
  [sql_defs]: "pm_id_sql = Select [Col ''id''] (Some T_private_messages)
     [(''chat_id'', Arg 0), (''message_id'', Arg 1)]"

definition pm_delete_sql :: sql_stmt where
  [sql_defs]: "pm_delete_sql = Update T_private_messages None
     [(''is_deleted'', Lit (IntV 1))] [(''id'', Arg 0)]"

definition pm_params :: "PrivateMessage \<Rightarrow> sql_val list" where
  "pm_params msg =
     [IntV (pm_chat_id msg), IntV (pm_message_id msg), opt_int (pm_sender_id msg),
      b (pm_is_outgoing msg), IntV (pm_date msg), IntV (pm_edit_date msg),
      TextV (content_type_to_string (content_type (pm_content msg))),
      opt_text (content_text (pm_content msg)), b (pm_is_deleted msg),
      b (pm_forward_info msg \<noteq> None)]"

definition upsertPrivateMessage_body :: "PrivateMessage \<Rightarrow> unit tx" where
  "upsertPrivateMessage_body msg =
     tx_bind (do_query pm_old_sql [IntV (pm_chat_id msg), IntV (pm_message_id msg)]) (\<lambda>old_rows.
     if old_rows = [] then
       (if pm_is_deleted msg then tx_return ()
        else
          tx_then (do_execute pm_upsert_sql (pm_params msg))
          (tx_bind (do_query pm_id_sql [IntV (pm_chat_id msg), IntV (pm_message_id msg)]) (\<lambda>new_rows.
           case pm_forward_info msg of
             None \<Rightarrow> tx_return ()
           | Some info \<Rightarrow>
               (if new_rows \<noteq> [] \<and> first_value new_rows \<noteq> Null then
                  tx_bind (stoll (first_value new_rows)) (\<lambda>pm_id.
                    insertForwardInfo T_private_message_fwd_info ''private_message_id'' pm_id info)
                else tx_return ()))))
     else
       (let old = hd old_rows in
        tx_bind (stoll (old ! 0)) (\<lambda>pm_id.
        tx_bind (if old ! 1 \<noteq> Null then stoll (old ! 1) else tx_return 0) (\<lambda>old_edit_date.
        if pm_is_deleted msg \<and> old ! 5 \<noteq> IntV 1 then
          do_execute pm_delete_sql [IntV pm_id]
        else
          tx_bind (old_content_of old) (\<lambda>old_content.
          tx_bind (snapshotMessageEditIfChanged T_private_message_edits ''private_message_id'' pm_id
              old_content old_edit_date (pm_content msg) (pm_edit_date msg)) (\<lambda>_.
          tx_then (do_execute pm_upsert_sql (pm_params msg))
          (case pm_forward_info msg of
             None \<Rightarrow> tx_return ()
           | Some info \<Rightarrow>
               insertForwardInfo T_private_message_fwd_info ''private_message_id'' pm_id info)))))))"

definition upsertPrivateMessage :: "PrivateMessage \<Rightarrow> unit tx" where
  "upsertPrivateMessage msg = transaction (upsertPrivateMessage_body msg)"

definition pm_file_sql :: sql_stmt where
  [sql_defs]: "pm_file_sql = Update T_private_messages None [(''file_id'', Arg 0)]
     [(''chat_id'', Arg 1), (''message_id'', Arg 2)]"

definition setPrivateMessageFile :: "int \<Rightarrow> int \<Rightarrow> int \<Rightarrow> unit tx" where
  "setPrivateMessageFile chat_id message_id file_id =
     db_execute pm_file_sql [IntV file_id, IntV chat_id, IntV message_id]"

definition pm_reply_sql :: sql_stmt where
  [sql_defs]: "pm_reply_sql = Update T_private_messages
     (Some [(''chat_id'', Arg 0), (''message_id'', Arg 1)])
     [(''reply_to_chat_id'', Arg 2), (''reply_to_msg_id'', Arg 3), (''reply_to_id'', JoinId)]
     [(''chat_id'', Arg 4), (''message_id'', Arg 5)]"

definition setPrivateMessageReply :: "int \<Rightarrow> int \<Rightarrow> int \<Rightarrow> int \<Rightarrow> unit tx" where
  "setPrivateMessageReply chat_id message_id reply_to_chat_id reply_to_message_id =
     db_execute pm_reply_sql
       [IntV reply_to_chat_id, IntV reply_to_message_id,
        IntV reply_to_chat_id, IntV reply_to_message_id, IntV chat_id, IntV message_id]"

section \<open>GroupMessage.cpp\<close>

definition gm_upsert_sql :: sql_stmt where
  [sql_defs]: "gm_upsert_sql = Insert T_group_messages
     [''chat_id'', ''message_id'', ''sender_user_id'', ''sender_chat_id'', ''is_outgoing'',
      ''is_channel_post'', ''author_signature'', ''date'', ''edit_date'', ''content_type'',
      ''text'', ''is_deleted'', ''is_forwarded'']
     [Arg 0, Arg 1, Arg 2, Arg 3, Arg 4, Arg 5, Arg 6, Arg 7, Arg 8, Arg 9, Arg 10, Arg 11, Arg 12]
     (Some [''sender_user_id'', ''sender_chat_id'', ''is_outgoing'', ''is_channel_post'',
       ''author_signature'', ''date'', ''edit_date'', ''content_type'', ''text'', ''is_deleted'',
       ''is_forwarded''])"

definition gm_old_sql :: sql_query where
  [sql_defs]: "gm_old_sql = Select
     [Col ''id'', Col ''edit_date'', Col ''content_type'', Col ''text'', Col ''file_id'',
      Col ''is_deleted'']
     (Some T_group_messages) [(''chat_id'', Arg 0), (''message_id'', Arg 1)]"

definition gm_id_sql :: sql_query where
  [sql_defs]: "gm_id_sql = Select [Col ''id''] (Some T_group_messages)
     [(''chat_id'', Arg 0), (''message_id'', Arg 1)]"

definition gm_delete_sql :: sql_stmt where
  [sql_defs]: "gm_delete_sql = Update T_group_messages None
     [(''is_deleted'', Lit (IntV 1))] [(''id'', Arg 0)]"

definition gm_params :: "GroupMessage \<Rightarrow> sql_val list" where
  "gm_params msg =
     [IntV (gm_chat_id msg), IntV (gm_message_id msg), opt_int (gm_sender_user_id msg),
      opt_int (gm_sender_chat_id msg), b (gm_is_outgoing msg), b (gm_is_channel_post msg),
      opt_text (gm_author_signature msg), IntV (gm_date msg), IntV (gm_edit_date msg),
      TextV (content_type_to_string (content_type (gm_content msg))),
      opt_text (content_text (gm_content msg)), b (gm_is_deleted msg),
      b (gm_forward_info msg \<noteq> None)]"

definition upsertGroupMessage_body :: "GroupMessage \<Rightarrow> unit tx" where
  "upsertGroupMessage_body msg =
     tx_bind (do_query gm_old_sql [IntV (gm_chat_id msg), IntV (gm_message_id msg)]) (\<lambda>old_rows.
     if old_rows = [] then
       (if gm_is_deleted msg then tx_return ()
        else
          tx_then (do_execute gm_upsert_sql (gm_params msg))
          (tx_bind (do_query gm_id_sql [IntV (gm_chat_id msg), IntV (gm_message_id msg)]) (\<lambda>new_rows.
           case gm_forward_info msg of
             None \<Rightarrow> tx_return ()
           | Some info \<Rightarrow>
               (if new_rows \<noteq> [] \<and> first_value new_rows \<noteq> Null then
                  tx_bind (stoll (first_value new_rows)) (\<lambda>gm_id.
                    insertForwardInfo T_group_message_fwd_info ''group_message_id'' gm_id info)
                else tx_return ()))))
     else
       (let old = hd old_rows in
        tx_bind (stoll (old ! 0)) (\<lambda>gm_id.
        tx_bind (if old ! 1 \<noteq> Null then stoll (old ! 1) else tx_return 0) (\<lambda>old_edit_date.
        if gm_is_deleted msg \<and> old ! 5 \<noteq> IntV 1 then
          do_execute gm_delete_sql [IntV gm_id]
        else
          tx_bind (old_content_of old) (\<lambda>old_content.
          tx_bind (snapshotMessageEditIfChanged T_group_message_edits ''group_message_id'' gm_id
              old_content old_edit_date (gm_content msg) (gm_edit_date msg)) (\<lambda>_.
          tx_then (do_execute gm_upsert_sql (gm_params msg))
          (case gm_forward_info msg of
             None \<Rightarrow> tx_return ()
           | Some info \<Rightarrow>
               insertForwardInfo T_group_message_fwd_info ''group_message_id'' gm_id info)))))))"

definition upsertGroupMessage :: "GroupMessage \<Rightarrow> unit tx" where
  "upsertGroupMessage msg = transaction (upsertGroupMessage_body msg)"

definition gm_file_sql :: sql_stmt where
  [sql_defs]: "gm_file_sql = Update T_group_messages None [(''file_id'', Arg 0)]
     [(''chat_id'', Arg 1), (''message_id'', Arg 2)]"

definition setGroupMessageFile :: "int \<Rightarrow> int \<Rightarrow> int \<Rightarrow> unit tx" where
  "setGroupMessageFile chat_id message_id file_id =
     db_execute gm_file_sql [IntV file_id, IntV chat_id, IntV message_id]"

definition gm_reply_sql :: sql_stmt where
  [sql_defs]: "gm_reply_sql = Update T_group_messages
     (Some [(''chat_id'', Arg 0), (''message_id'', Arg 1)])
     [(''reply_to_chat_id'', Arg 2), (''reply_to_msg_id'', Arg 3), (''reply_to_id'', JoinId)]
     [(''chat_id'', Arg 4), (''message_id'', Arg 5)]"

definition setGroupMessageReply :: "int \<Rightarrow> int \<Rightarrow> int \<Rightarrow> int \<Rightarrow> unit tx" where
  "setGroupMessageReply chat_id message_id reply_to_chat_id reply_to_message_id =
     db_execute gm_reply_sql
       [IntV reply_to_chat_id, IntV reply_to_message_id,
        IntV reply_to_chat_id, IntV reply_to_message_id, IntV chat_id, IntV message_id]"

end
