(* ===== verification/Db_Message_Store.thy ===== *)
theory Db_Message_Store
  imports Db_Messages
begin

text \<open>
  What the two message families promise, stated once. The abstract store maps (chat, message) to
  the live message: its row id, last edit time, content and deletion flag; beside it stand the log
  of edit snapshots and the log of forward information. The locale \<open>message_family\<close> asks of a
  family what its statements and its upsert look like, and proves the refinement; it is
  interpreted on the definitions of PrivateMessage.cpp and GroupMessage.cpp.
\<close>

section \<open>The abstract store\<close>

record live =
  l_id :: sql_val
  l_edit_date :: int
  l_content :: MessageContent
  l_deleted :: bool

fun int_opt :: "sql_val \<Rightarrow> int option" where
  "int_opt (IntV i) = Some i"
| "int_opt _ = None"

definition content_of_row :: "row \<Rightarrow> MessageContent" where
  "content_of_row r =
     \<lparr>content_type = message_content_type_from_string (text_or (r ''content_type'') ''unknown''),
      content_text = text_opt (r ''text''), content_file_id = int_opt (r ''file_id'')\<rparr>"

definition live_of_row :: "row \<Rightarrow> live" where
  "live_of_row r =
     \<lparr>l_id = r ''id'', l_edit_date = int_or0 (r ''edit_date''), l_content = content_of_row r,
      l_deleted = (r ''is_deleted'' = IntV 1)\<rparr>"

definition is_key :: "int \<Rightarrow> int \<Rightarrow> row \<Rightarrow> bool" where
  "is_key c m r \<longleftrightarrow> r ''chat_id'' = IntV c \<and> r ''message_id'' = IntV m"

definition live_store :: "tname \<Rightarrow> db \<Rightarrow> int \<times> int \<Rightarrow> live option" where
  "live_store t d k = map_option live_of_row (find (is_key (fst k) (snd k)) (d t))"

type_synonym edit_entry = "sql_val \<times> MessageContent \<times> int"

definition edit_log :: "tname \<Rightarrow> string \<Rightarrow> db \<Rightarrow> edit_entry list" where
  "edit_log t fk d = map (\<lambda>r. (r fk, content_of_row r, int_or0 (r ''edit_date''))) (d t)"

type_synonym fwd_entry = "sql_val \<times> sql_val list"

definition fwd_log :: "tname \<Rightarrow> string \<Rightarrow> db \<Rightarrow> fwd_entry list" where
  "fwd_log t fk d = map (\<lambda>r. (r fk, map r [''origin_type'', ''origin_sender_user_id'',
     ''origin_sender_name'', ''origin_chat_id'', ''origin_message_id'', ''origin_date''])) (d t)"

text \<open>The specification of one upsert, with \<open>i\<close> the id a new row gets.\<close>

definition live_step :: "int \<Rightarrow> MessageContent \<Rightarrow> int \<Rightarrow> bool \<Rightarrow> live option \<Rightarrow> live option" where
  "live_step i con ed del old =
     (case old of
        None \<Rightarrow>
          if del then None
          else Some \<lparr>l_id = IntV i, l_edit_date = ed, l_content = con\<lparr>content_file_id := None\<rparr>,
            l_deleted = False\<rparr>
      | Some l \<Rightarrow>
          if del \<and> \<not> l_deleted l then Some (l\<lparr>l_deleted := True\<rparr>)
          else Some (l\<lparr>l_edit_date := ed,
            l_content := con\<lparr>content_file_id := content_file_id (l_content l)\<rparr>,
            l_deleted := del\<rparr>))"

definition genuine_edit :: "MessageContent \<Rightarrow> int \<Rightarrow> live \<Rightarrow> bool" where
  "genuine_edit con ed l \<longleftrightarrow> l_edit_date l < ed \<and>
     (content_type (l_content l) \<noteq> content_type con \<or> content_text (l_content l) \<noteq> content_text con)"

definition edit_step :: "MessageContent \<Rightarrow> int \<Rightarrow> bool \<Rightarrow> live option \<Rightarrow> edit_entry list" where
  "edit_step con ed del old =
     (case old of
        None \<Rightarrow> []
      | Some l \<Rightarrow>
          if del \<and> \<not> l_deleted l then []
          else if genuine_edit con ed l then [(l_id l, l_content l, ed)] else [])"

definition fwd_values :: "ForwardInfo \<Rightarrow> sql_val list" where
  "fwd_values info =
     [TextV (origin_type_to_string (origin_type info)), opt_int (origin_sender_user_id info),
      opt_text (origin_sender_name info), opt_int (origin_chat_id info),
      opt_int (origin_message_id info), IntV (origin_date info)]"

definition fwd_step :: "int \<Rightarrow> bool \<Rightarrow> ForwardInfo option \<Rightarrow> live option \<Rightarrow> fwd_entry list \<Rightarrow>
    fwd_entry list" where
  "fwd_step i del info old log =
     (case info of
        None \<Rightarrow> []
      | Some fw \<Rightarrow>
          (case old of
             None \<Rightarrow> if del then [] else [(IntV i, fwd_values fw)]
           | Some l \<Rightarrow>
               if del \<and> \<not> l_deleted l then []
               else if l_id l \<in> fst ` set log then [] else [(l_id l, fwd_values fw)]))"

text \<open>All three together: one upsert of the message with key \<open>k\<close>.\<close>

type_synonym message_store = "(int \<times> int \<Rightarrow> live option) \<times> edit_entry list \<times> fwd_entry list"

definition message_step :: "int \<Rightarrow> int \<times> int \<Rightarrow> MessageContent \<Rightarrow> int \<Rightarrow> bool \<Rightarrow> ForwardInfo option \<Rightarrow>
    message_store \<Rightarrow> message_store" where
  "message_step i k con ed del info st =
     (case st of (live, elog, flog) \<Rightarrow>
        (live(k := live_step i con ed del (live k)),
         elog @ edit_step con ed del (live k),
         flog @ fwd_step i del info (live k) flog))"

definition stored_in :: "tname \<Rightarrow> tname \<Rightarrow> tname \<Rightarrow> string \<Rightarrow> db \<Rightarrow> message_store" where
  "stored_in t e f fk d = (live_store t d, edit_log e fk d, fwd_log f fk d)"

section \<open>The shape of the two upserts\<close>

definition old_sql :: "tname \<Rightarrow> sql_query" where
  "old_sql t = Select
     [Col ''id'', Col ''edit_date'', Col ''content_type'', Col ''text'', Col ''file_id'',
      Col ''is_deleted''] (Some t) [(''chat_id'', Arg 0), (''message_id'', Arg 1)]"

definition id_sql :: "tname \<Rightarrow> sql_query" where
  "id_sql t = Select [Col ''id''] (Some t) [(''chat_id'', Arg 0), (''message_id'', Arg 1)]"

definition delete_sql :: "tname \<Rightarrow> sql_stmt" where
  "delete_sql t = Update t None [(''is_deleted'', Lit (IntV 1))] [(''id'', Arg 0)]"

definition message_new :: "tname \<Rightarrow> tname \<Rightarrow> string \<Rightarrow> sql_stmt \<Rightarrow> sql_val list \<Rightarrow> int \<Rightarrow> int \<Rightarrow>
    bool \<Rightarrow> ForwardInfo option \<Rightarrow> unit tx" where
  "message_new t fwd fk ups args c m del info =
     (if del then tx_return ()
      else
        tx_then (do_execute ups args)
        (tx_bind (do_query (id_sql t) [IntV c, IntV m]) (\<lambda>new_rows.
         case info of
           None \<Rightarrow> tx_return ()
         | Some fw \<Rightarrow>
             (if new_rows \<noteq> [] \<and> first_value new_rows \<noteq> Null then
                tx_bind (stoll (first_value new_rows)) (\<lambda>i. insertForwardInfo fwd fk i fw)
              else tx_return ()))))"

definition message_change :: "tname \<Rightarrow> tname \<Rightarrow> string \<Rightarrow> sql_stmt \<Rightarrow> sql_val list \<Rightarrow>
    MessageContent \<Rightarrow> int \<Rightarrow> ForwardInfo option \<Rightarrow> sql_val list \<Rightarrow> int \<Rightarrow> int \<Rightarrow> unit tx" where
  "message_change edits fwd fk ups args con ed info old i old_ed =
     tx_bind (old_content_of old) (\<lambda>old_content.
     tx_bind (snapshotMessageEditIfChanged edits fk i old_content old_ed con ed) (\<lambda>_.
     tx_then (do_execute ups args)
     (case info of None \<Rightarrow> tx_return () | Some fw \<Rightarrow> insertForwardInfo fwd fk i fw)))"

definition message_upsert :: "tname \<Rightarrow> tname \<Rightarrow> tname \<Rightarrow> string \<Rightarrow> sql_stmt \<Rightarrow> sql_val list \<Rightarrow> int \<Rightarrow>
    int \<Rightarrow> MessageContent \<Rightarrow> int \<Rightarrow> bool \<Rightarrow> ForwardInfo option \<Rightarrow> unit tx" where
  "message_upsert t edits fwd fk ups args c m con ed del info =
     tx_bind (do_query (old_sql t) [IntV c, IntV m]) (\<lambda>old_rows.
     if old_rows = [] then message_new t fwd fk ups args c m del info
     else
       tx_bind (stoll (hd old_rows ! 0)) (\<lambda>i.
       tx_bind (if hd old_rows ! 1 \<noteq> Null then stoll (hd old_rows ! 1) else tx_return 0) (\<lambda>old_ed.
       if del \<and> hd old_rows ! 5 \<noteq> IntV 1 then do_execute (delete_sql t) [IntV i]
       else message_change edits fwd fk ups args con ed info (hd old_rows) i old_ed)))"

locale message_family =
  fixes t edits fwd :: tname and fk :: string
    and cols :: "string list" and vals :: "sql_expr list" and ups :: "string list"
    and params :: "'m \<Rightarrow> sql_val list" and chat mid ed :: "'m \<Rightarrow> int"
    and con :: "'m \<Rightarrow> MessageContent" and del :: "'m \<Rightarrow> bool" and info :: "'m \<Rightarrow> ForwardInfo option"
    and body :: "'m \<Rightarrow> unit tx"
  assumes body_eq: "body x = message_upsert t edits fwd fk (Insert t cols vals (Some ups)) (params x)
      (chat x) (mid x) (con x) (ed x) (del x) (info x)"
    and tables: "t \<noteq> edits" "t \<noteq> fwd" "edits \<noteq> fwd"
    and schemas: "schema edits = message_edits_def fk t" "schema fwd = message_fwd_info_def fk t"
    and keys: "td_auto (schema t)"
      "set (td_uniques (schema t)) = {[''id''], [''chat_id'', ''message_id'']}"
    and fk_new: "fk \<notin> {''id'', ''content_type'', ''text'', ''file_id'', ''edit_date'',
      ''origin_type'', ''origin_sender_user_id'', ''origin_sender_name'', ''origin_chat_id'',
      ''origin_message_id'', ''origin_date''}"
    and ups_in: "{''edit_date'', ''content_type'', ''text'', ''is_deleted''} \<subseteq> set ups"
    and ups_out: "''id'' \<notin> set ups" "''file_id'' \<notin> set ups" "''chat_id'' \<notin> set ups"
      "''message_id'' \<notin> set ups"
    and written: "new_row w (params x) t cols vals au ''chat_id'' = IntV (chat x)"
      "new_row w (params x) t cols vals au ''message_id'' = IntV (mid x)"
      "new_row w (params x) t cols vals au ''edit_date'' = IntV (ed x)"
      "new_row w (params x) t cols vals au ''content_type'' =
         TextV (content_type_to_string (content_type (con x)))"
      "new_row w (params x) t cols vals au ''text'' = opt_text (content_text (con x))"
      "new_row w (params x) t cols vals au ''file_id'' = Null"
      "new_row w (params x) t cols vals au ''is_deleted'' = b (del x)"

section \<open>Contracts\<close>

context stmt_relation
begin

lemma snapshot_keeps:
  "allowed (edit_insert_sql e fk) \<Longrightarrow> keeps R (snapshotMessageEditIfChanged e fk i oc oe nc ne)"
  unfolding snapshotMessageEditIfChanged_def by (intro keeps_rules)

lemma old_content_keeps: "keeps R (old_content_of old)"
  unfolding old_content_of_def by (intro keeps_rules)

lemma forward_keeps: "allowed (fwd_insert_sql f fk) \<Longrightarrow> keeps R (insertForwardInfo f fk i fw)"
  unfolding insertForwardInfo_def by (intro keeps_rules)

lemma message_upsert_keeps:
  assumes "allowed (edit_insert_sql e fk)" and "allowed (fwd_insert_sql f fk)" and "allowed st"
    and "allowed (delete_sql t)"
  shows "keeps R (message_upsert t e f fk st args c m con ed del info)"
  unfolding message_upsert_def message_new_def message_change_def
  by (intro keeps_rules snapshot_keeps old_content_keeps forward_keeps assms)

end

section \<open>Facts about rows\<close>

lemma content_type_roundtrip [simp]:
  "message_content_type_from_string (content_type_to_string ct) = ct"
  by (cases ct) (simp_all add: message_content_type_from_string_def)

lemma text_opt_simp [simp]: "text_opt (opt_text x) = x"
  by (cases x) (simp_all add: opt_text_def)

lemma int_opt_simp [simp]: "int_opt (opt_int x) = x"
  by (cases x) (simp_all add: opt_int_def)

lemma b_simp [simp]: "b v = IntV 1 \<longleftrightarrow> v"
  by (simp add: b_def)

lemma live_store_row:
  assumes "live_store t d (c, m) = Some l"
  shows "\<exists>r. find (is_key c m) (d t) = Some r \<and> live_of_row r = l \<and> r ''id'' = l_id l"
  using assms by (auto simp: live_store_def live_of_row_def)

lemma is_key_disjoint: "is_key c m r \<Longrightarrow> (c', m') \<noteq> (c, m) \<Longrightarrow> \<not> is_key c' m' r"
  by (auto simp: is_key_def)

lemma old_rows:
  assumes "exec_query w [IntV c, IntV m] (old_sql t) d = Inr rows"
  shows "rows = map (\<lambda>r. [r ''id'', r ''edit_date'', r ''content_type'', r ''text'',
    r ''file_id'', r ''is_deleted'']) (filter (is_key c m) (d t))"
  using assms by (simp add: old_sql_def exec_query_Inr_iff is_key_def [abs_def])

lemma id_rows:
  assumes "exec_query w [IntV c, IntV m] (id_sql t) d = Inr rows"
  shows "rows = map (\<lambda>r. [r ''id'']) (filter (is_key c m) (d t))"
  using assms by (simp add: id_sql_def exec_query_Inr_iff is_key_def [abs_def])

lemma old_content_run:
  assumes "old_content_of [i, e, ct, tx, f, dl] sv s = (Inr oc, u)"
  shows "oc = \<lparr>content_type = message_content_type_from_string (text_or ct ''unknown''),
      content_text = text_opt tx, content_file_id = int_opt f\<rparr>" and "u = s"
  using assms by (auto simp: old_content_of_def tx_run split: if_splits)

lemma insertForwardInfo_alt:
  "insertForwardInfo fwd fk i fw =
     tx_bind (do_query (fwd_exists_sql fwd fk) [IntV i]) (\<lambda>rows.
       if rows \<noteq> [] then tx_return ()
       else do_execute (fwd_insert_sql fwd fk) (IntV i # fwd_values fw))"
  unfolding insertForwardInfo_def fwd_values_def ..

lemma edit_log_frame [simp]: "t \<noteq> e \<Longrightarrow> edit_log e fk (d(t := rs)) = edit_log e fk d"
  by (simp add: edit_log_def)

lemma fwd_log_frame [simp]: "t \<noteq> e \<Longrightarrow> fwd_log e fk (d(t := rs)) = fwd_log e fk d"
  by (simp add: fwd_log_def)

lemma live_store_frame [simp]: "t \<noteq> e \<Longrightarrow> live_store e (d(t := rs)) = live_store e d"
  by (simp add: live_store_def fun_eq_iff)

context message_family
begin

text \<open>The key of a message.\<close>

lemma key_conflict:
  assumes ok: "db_ok w d au" and r: "r \<in> set (d t)"
  shows "conflict w t (new_row w (params x) t cols vals au) r = is_key (chat x) (mid x) r"
proof -
  have "below_counter t (d t) (au t)" using ok by (simp add: db_ok_def)
  then have "r ''id'' \<noteq> IntV (au t)" using r keys(1) by (auto simp: below_counter_def)
  moreover have "new_row w (params x) t cols vals au ''id'' = IntV (au t)"
    using keys(1) by (simp add: new_row_def Let_def)
  ultimately show ?thesis
    by (simp add: conflict_def keys(2) written is_key_def)
qed

lemma key_single: "db_ok w d au \<Longrightarrow> length (filter (is_key c m) (d t)) \<le> 1"
  by (rule uniq_rows_filter_short [of w t])
    (auto simp: db_ok_def conflict_def keys(2) is_key_def)

lemma key_rows:
  assumes "db_ok w d au"
  shows "filter (is_key c m) (d t) = (case find (is_key c m) (d t) of None \<Rightarrow> [] | Some r \<Rightarrow> [r])"
  by (rule filter_single) (rule key_single [OF assms])

lemma row_id:
  assumes "db_ok w d au" and "find (is_key c m) (d t) = Some r"
  obtains i where "r ''id'' = IntV i" and "i < au t"
  using assms keys(1) by (force simp: db_ok_def below_counter_def dest!: find_Some_mem)

lemma ups_key: "is_key c m r \<Longrightarrow> is_key c m (copy_cols ups new r)"
  using ups_out by (simp add: is_key_def copy_cols_apply)

lemma new_key: "is_key (chat x) (mid x) (new_row w (params x) t cols vals au)"
  by (simp add: is_key_def written)

lemma new_live:
  "live_of_row (new_row w (params x) t cols vals au) =
     \<lparr>l_id = IntV (au t), l_edit_date = ed x, l_content = con x\<lparr>content_file_id := None\<rparr>,
      l_deleted = del x\<rparr>"
proof -
  have "new_row w (params x) t cols vals au ''id'' = IntV (au t)"
    using keys(1) by (simp add: new_row_def Let_def)
  then show ?thesis by (simp add: live_of_row_def content_of_row_def written)
qed

lemma changed_live:
  "live_of_row (copy_cols ups (new_row w (params x) t cols vals au) r) =
     (live_of_row r)\<lparr>l_edit_date := ed x,
       l_content := con x\<lparr>content_file_id := int_opt (r ''file_id'')\<rparr>, l_deleted := del x\<rparr>"
  using ups_in ups_out by (simp add: live_of_row_def content_of_row_def copy_cols_apply written)

text \<open>The upsert statement on the store.\<close>

lemma upsert_effect:
  assumes ok: "db_ok w d au"
    and ex: "exec_stmt w (params x) (Insert t cols vals (Some ups)) d au = Inr (d', au')"
  shows "live_store t d' = (live_store t d)((chat x, mid x) \<mapsto>
      (case live_store t d (chat x, mid x) of
         None \<Rightarrow> \<lparr>l_id = IntV (au t), l_edit_date = ed x,
           l_content = con x\<lparr>content_file_id := None\<rparr>, l_deleted = del x\<rparr>
       | Some l \<Rightarrow> l\<lparr>l_edit_date := ed x,
           l_content := con x\<lparr>content_file_id := content_file_id (l_content l)\<rparr>,
           l_deleted := del x\<rparr>))"
    and "\<And>t'. t' \<noteq> t \<Longrightarrow> d' t' = d t'" and "db_ok w d' au'"
proof -
  let ?new = "new_row w (params x) t cols vals au" and ?K = "is_key (chat x) (mid x)"
  have d': "d' = d(t := upserted ?K ups ?new (d t))"
    by (rule exec_upsert_rows [OF ex refl key_conflict [OF ok] key_single [OF ok]])
  then show "d' t' = d t'" if "t' \<noteq> t" for t' using that by simp
  show "db_ok w d' au'" using ok ex by (rule exec_stmt_db_ok)
  show "live_store t d' = (live_store t d)((chat x, mid x) \<mapsto>
      (case live_store t d (chat x, mid x) of
         None \<Rightarrow> \<lparr>l_id = IntV (au t), l_edit_date = ed x,
           l_content = con x\<lparr>content_file_id := None\<rparr>, l_deleted = del x\<rparr>
       | Some l \<Rightarrow> l\<lparr>l_edit_date := ed x,
           l_content := con x\<lparr>content_file_id := content_file_id (l_content l)\<rparr>,
           l_deleted := del x\<rparr>))"
  proof
    fix k :: "int \<times> int"
    obtain c m where k: "k = (c, m)" by (cases k)
    show "live_store t d' k = ((live_store t d)((chat x, mid x) \<mapsto>
      (case live_store t d (chat x, mid x) of
         None \<Rightarrow> \<lparr>l_id = IntV (au t), l_edit_date = ed x,
           l_content = con x\<lparr>content_file_id := None\<rparr>, l_deleted = del x\<rparr>
       | Some l \<Rightarrow> l\<lparr>l_edit_date := ed x,
           l_content := con x\<lparr>content_file_id := content_file_id (l_content l)\<rparr>,
           l_deleted := del x\<rparr>))) k"
    proof (cases "k = (chat x, mid x)")
      case True
      have "find ?K (d' t) = Some (case find ?K (d t) of
          None \<Rightarrow> ?new | Some old \<Rightarrow> copy_cols ups ?new old)"
        by (simp add: d' find_upserted_same new_key ups_key)
      with True show ?thesis
        by (cases "find ?K (d t)")
          (simp_all add: live_store_def new_live changed_live, simp add: live_of_row_def content_of_row_def)
    next
      case False
      then have "find (is_key c m) (d' t) = find (is_key c m) (d t)"
        using is_key_disjoint [OF new_key] is_key_disjoint [OF ups_key] is_key_disjoint k
        by (simp add: d' find_upserted_other)
      with False k show ?thesis by (auto simp: live_store_def)
    qed
  qed
qed

text \<open>Marking a message deleted.\<close>

lemma delete_effect:
  assumes ok: "db_ok w d au" and row: "find (is_key c m) (d t) = Some r" and id: "r ''id'' = IntV i"
    and ex: "exec_stmt w [IntV i] (delete_sql t) d au = Inr (d', au')"
  shows "live_store t d' = (live_store t d)((c, m) \<mapsto> (live_of_row r)\<lparr>l_deleted := True\<rparr>)"
    and "\<And>t'. t' \<noteq> t \<Longrightarrow> d' t' = d t'"
proof -
  let ?f = "\<lambda>q. if q ''id'' = IntV i then q(''is_deleted'' := IntV 1) else q"
  have d': "d' = d(t := map ?f (d t))"
    using exec_update_rows(1) [OF ex [unfolded delete_sql_def]] by (simp cong: if_cong)
  then show "d' t' = d t'" if "t' \<noteq> t" for t' using that by simp
  have r: "r \<in> set (d t)" "is_key c m r" using row by (simp_all add: find_Some_mem)
  have same: "q = r" if "q \<in> set (d t)" "q ''id'' = IntV i" for q
    using ok by (intro uniq_rows_id [where t = t and w = w, OF _ that(1) r(1) id_unique])
      (simp_all add: db_ok_def that id)
  show "live_store t d' = (live_store t d)((c, m) \<mapsto> (live_of_row r)\<lparr>l_deleted := True\<rparr>)"
  proof
    fix k :: "int \<times> int"
    obtain c' m' where k: "k = (c', m')" by (cases k)
    have find: "find (is_key c' m') (d' t) = map_option ?f (find (is_key c' m') (d t))"
      by (simp add: d' find_map_if is_key_def)
    show "live_store t d' k = ((live_store t d)((c, m) \<mapsto> (live_of_row r)\<lparr>l_deleted := True\<rparr>)) k"
    proof (cases "k = (c, m)")
      case True
      with find row id k show ?thesis
        by (simp add: live_store_def live_of_row_def content_of_row_def)
    next
      case False
      have "?f q = q" if "find (is_key c' m') (d t) = Some q" for q
        using find_Some_mem [OF that] same [of q] r(2) is_key_disjoint [of c m r] False k by auto
      with False find k show ?thesis
        by (cases "find (is_key c' m') (d t)") (auto simp: live_store_def)
    qed
  qed
qed

text \<open>The two logs.\<close>

lemma fk_neq: "fk \<noteq> ''id''" "fk \<noteq> ''content_type''" "fk \<noteq> ''text''" "fk \<noteq> ''file_id''"
  "fk \<noteq> ''edit_date''" "fk \<noteq> ''origin_type''" "fk \<noteq> ''origin_sender_user_id''"
  "fk \<noteq> ''origin_sender_name''" "fk \<noteq> ''origin_chat_id''" "fk \<noteq> ''origin_message_id''"
  "fk \<noteq> ''origin_date''"
  using fk_new by simp_all

lemma edit_effect:
  assumes "exec_stmt w [IntV i, TextV (content_type_to_string (content_type oc)),
      opt_text (content_text oc), opt_int (content_file_id oc), IntV e]
      (edit_insert_sql edits fk) d au = Inr (d', au')"
  shows "edit_log edits fk d' = edit_log edits fk d @ [(IntV i, oc, e)]"
    and "\<And>t'. t' \<noteq> edits \<Longrightarrow> d' t' = d t'" and "au' t = au t"
proof -
  note ins = exec_insert_append [OF assms [unfolded edit_insert_sql_def]]
  then show "d' t' = d t'" if "t' \<noteq> edits" for t' using that by simp
  show "au' t = au t" using ins tables by (simp add: bump_def)
  show "edit_log edits fk d' = edit_log edits fk d @ [(IntV i, oc, e)]"
    using ins fk_neq
    by (simp add: edit_log_def new_row_def schemas message_edits_def_def content_of_row_def Let_def)
qed

lemma snapshot_run:
  assumes "snapshotMessageEditIfChanged edits fk i oc oe nc ne sv s = (Inr x, u)"
  shows "edit_log edits fk (view u) = edit_log edits fk (view s) @
      (if oe < ne \<and> (content_type oc \<noteq> content_type nc \<or> content_text oc \<noteq> content_text nc)
       then [(IntV i, oc, ne)] else [])"
    and "\<And>t'. t' \<noteq> edits \<Longrightarrow> view u t' = view s t'" and "autos u t = autos s t"
proof -
  let ?c = "oe < ne \<and> (content_type oc \<noteq> content_type nc \<or> content_text oc \<noteq> content_text nc)"
  have "edit_log edits fk (view u) = edit_log edits fk (view s) @ (if ?c then [(IntV i, oc, ne)] else [])
    \<and> (\<forall>t'. t' \<noteq> edits \<longrightarrow> view u t' = view s t') \<and> autos u t = autos s t"
  proof (cases ?c)
    case True
    with assms obtain d au where
      ex: "exec_stmt (weight sv) [IntV i, TextV (content_type_to_string (content_type oc)),
        opt_text (content_text oc), opt_int (content_file_id oc), IntV ne]
        (edit_insert_sql edits fk) (view s) (autos s) = Inr (d, au)" and "view u = d" and "autos u = au"
      by (auto simp: snapshotMessageEditIfChanged_def tx_run after_stmt_def)
    with True edit_effect [OF ex] show ?thesis by simp
  next
    case False
    with assms show ?thesis
      by (auto simp: snapshotMessageEditIfChanged_def tx_run split: if_splits)
  qed
  then show "edit_log edits fk (view u) = edit_log edits fk (view s) @
      (if ?c then [(IntV i, oc, ne)] else [])"
    and "\<And>t'. t' \<noteq> edits \<Longrightarrow> view u t' = view s t'" and "autos u t = autos s t" by blast+
qed

lemma fwd_effect:
  assumes "exec_stmt w (IntV i # fwd_values fw) (fwd_insert_sql fwd fk) d au = Inr (d', au')"
  shows "fwd_log fwd fk d' = fwd_log fwd fk d @ [(IntV i, fwd_values fw)]"
    and "\<And>t'. t' \<noteq> fwd \<Longrightarrow> d' t' = d t'"
proof -
  note ins = exec_insert_append [OF assms [unfolded fwd_insert_sql_def]]
  then show "d' t' = d t'" if "t' \<noteq> fwd" for t' using that by simp
  show "fwd_log fwd fk d' = fwd_log fwd fk d @ [(IntV i, fwd_values fw)]"
    using ins fk_neq
    by (simp add: fwd_log_def new_row_def schemas message_fwd_info_def_def fwd_values_def Let_def)
qed

lemma forward_run:
  assumes "insertForwardInfo fwd fk i fw sv s = (Inr (), u)"
  shows "fwd_log fwd fk (view u) = fwd_log fwd fk (view s) @
      (if IntV i \<in> fst ` set (fwd_log fwd fk (view s)) then [] else [(IntV i, fwd_values fw)])"
    and "\<And>t'. t' \<noteq> fwd \<Longrightarrow> view u t' = view s t'"
proof -
  from assms obtain rows where
    look: "exec_query (weight sv) [IntV i] (fwd_exists_sql fwd fk) (view s) = Inr rows"
    and run: "(if rows \<noteq> [] then tx_return () else do_execute (fwd_insert_sql fwd fk)
      (IntV i # fwd_values fw)) sv (s\<lparr>clk := Suc (clk s)\<rparr>) = (Inr (), u)"
    by (auto simp: insertForwardInfo_alt tx_bind_run do_query_run)
  have rows: "rows \<noteq> [] \<longleftrightarrow> IntV i \<in> fst ` set (fwd_log fwd fk (view s))"
  proof -
    have "rows = map (\<lambda>_. [IntV 1]) (filter (\<lambda>r. r fk = IntV i) (view s fwd))"
      using look by (simp add: fwd_exists_sql_def exec_query_Inr_iff)
    moreover have "fst ` set (fwd_log fwd fk (view s)) = (\<lambda>r. r fk) ` set (view s fwd)"
      by (simp add: fwd_log_def image_image)
    ultimately show ?thesis by (simp add: filter_empty_conv image_iff) (metis (full_types))
  qed
  have "fwd_log fwd fk (view u) = fwd_log fwd fk (view s) @
      (if IntV i \<in> fst ` set (fwd_log fwd fk (view s)) then [] else [(IntV i, fwd_values fw)])
    \<and> (\<forall>t'. t' \<noteq> fwd \<longrightarrow> view u t' = view s t')"
  proof (cases "rows = []")
    case True
    with run obtain d au where
      ex: "exec_stmt (weight sv) (IntV i # fwd_values fw) (fwd_insert_sql fwd fk) (view s) (autos s)
        = Inr (d, au)" and "view u = d"
      by (auto simp: do_execute_run after_stmt_def)
    with True rows fwd_effect [OF ex] show ?thesis by simp
  next
    case False
    with run have "u = s\<lparr>clk := Suc (clk s)\<rparr>" by (simp add: tx_return_run)
    with False rows show ?thesis by simp
  qed
  then show "fwd_log fwd fk (view u) = fwd_log fwd fk (view s) @
      (if IntV i \<in> fst ` set (fwd_log fwd fk (view s)) then [] else [(IntV i, fwd_values fw)])"
    and "\<And>t'. t' \<noteq> fwd \<Longrightarrow> view u t' = view s t'" by blast+
qed

lemma forward_option_run:
  assumes "(case fwi of None \<Rightarrow> tx_return () | Some fw \<Rightarrow> insertForwardInfo fwd fk i fw) sv s = (Inr (), u)"
  shows "fwd_log fwd fk (view u) = fwd_log fwd fk (view s) @
      (case fwi of None \<Rightarrow> [] | Some fw \<Rightarrow>
        if IntV i \<in> fst ` set (fwd_log fwd fk (view s)) then [] else [(IntV i, fwd_values fw)])"
    and "\<And>t'. t' \<noteq> fwd \<Longrightarrow> view u t' = view s t'"
  using assms forward_run
  by (cases fwi; simp add: tx_return_run)+

text \<open>No forward information refers to an id that was not handed out yet.\<close>

lemma fwd_fresh:
  assumes "db_ok w d au"
  shows "IntV (au t) \<notin> fst ` set (fwd_log fwd fk d)"
proof
  assume "IntV (au t) \<in> fst ` set (fwd_log fwd fk d)"
  then obtain r where "r \<in> set (d fwd)" and "r fk = IntV (au t)" by (auto simp: fwd_log_def)
  moreover from this have "fk_row d fwd r"
    using assms by (auto simp: db_ok_def list_all_iff)
  moreover have "(fk, t) \<in> set (td_fkeys (schema fwd))"
    by (simp add: schemas message_fwd_info_def_def)
  ultimately have "has_id d t (IntV (au t))"
    unfolding fk_row_def by (metis (mono_tags, lifting) case_prodD sql_val.distinct(1))
  moreover have "below_counter t (d t) (au t)" using assms by (simp add: db_ok_def)
  ultimately show False using keys(1) by (auto simp: has_id_def below_counter_def)
qed

end

context message_family
begin

lemma logs_same:
  "d' edits = d edits \<Longrightarrow> edit_log edits fk d' = edit_log edits fk d"
  "d' fwd = d fwd \<Longrightarrow> fwd_log fwd fk d' = fwd_log fwd fk d"
  "d' t = d t \<Longrightarrow> live_store t d' = live_store t d"
  by (simp_all add: edit_log_def fwd_log_def live_store_def fun_eq_iff)

text \<open>The first branch: a message not stored yet.\<close>

lemma first_run:
  assumes ok: "db_ok (weight sv) (view s) (autos s)"
    and none: "live_store t (view s) (chat x, mid x) = None" and new: "\<not> del x"
    and run: "message_new t fwd fk (Insert t cols vals (Some ups)) (params x) (chat x) (mid x)
      (del x) (info x) sv s = (Inr (), u)"
  shows "live_store t (view u) = (live_store t (view s))
      ((chat x, mid x) := live_step (autos s t) (con x) (ed x) (del x) None) \<and>
    edit_log edits fk (view u) = edit_log edits fk (view s) \<and>
    fwd_log fwd fk (view u) = fwd_log fwd fk (view s) @
      fwd_step (autos s t) (del x) (info x) None (fwd_log fwd fk (view s))"
proof -
  let ?D = "insertForwardInfo fwd fk"
  from run obtain v v' :: session and rows where
    ex: "exec_stmt (weight sv) (params x) (Insert t cols vals (Some ups)) (view s) (autos s)
      = Inr (view v, autos v)"
    and ids: "exec_query (weight sv) [IntV (chat x), IntV (mid x)] (id_sql t) (view v) = Inr rows"
    and v': "view v' = view v"
    and rest: "(case info x of None \<Rightarrow> tx_return ()
       | Some fw \<Rightarrow> if rows \<noteq> [] \<and> first_value rows \<noteq> Null
           then tx_bind (stoll (first_value rows)) (\<lambda>i. ?D i fw) else tx_return ())
       sv v' = (Inr (), u)"
    unfolding message_new_def if_not_P [OF new]
    by (elim tx_thenE tx_bindE do_executeE do_queryE) (rule that)
  note up = upsert_effect [OF ok ex]
  let ?k = "(chat x, mid x)"
  have live: "live_store t (view v) = (live_store t (view s))
      (?k := live_step (autos s t) (con x) (ed x) (del x) None)"
    using up(1) none new by (simp add: live_step_def)
  then have "live_store t (view v) ?k = Some \<lparr>l_id = IntV (autos s t), l_edit_date = ed x,
      l_content = con x\<lparr>content_file_id := None\<rparr>, l_deleted = False\<rparr>"
    by (simp add: live_step_def new)
  from live_store_row [OF this] obtain r where
    r: "find (is_key (chat x) (mid x)) (view v t) = Some r" and id: "r ''id'' = IntV (autos s t)"
    by auto
  have rows: "rows = [[IntV (autos s t)]]"
    using id_rows [OF ids] key_rows [OF up(3), of "chat x" "mid x"] r id by simp
  have "(case info x of None \<Rightarrow> tx_return () | Some fw \<Rightarrow> ?D (autos s t) fw) sv v' = (Inr (), u)"
    using rest by (auto simp: rows first_value_def tx_run split: option.splits)
  note fwd = forward_option_run [OF this]
  have logs: "edit_log edits fk (view v) = edit_log edits fk (view s)"
    "fwd_log fwd fk (view v) = fwd_log fwd fk (view s)"
    using tables by (intro logs_same; simp add: up(2))+
  have "live_store t (view u) = live_store t (view v)"
    and "edit_log edits fk (view u) = edit_log edits fk (view v)"
    using tables v' by (intro logs_same; simp add: fwd(2))+
  with v' live logs fwd(1) fwd_fresh [OF ok] new show ?thesis
    by (simp add: fwd_step_def split: option.splits)
qed

lemma new_run:
  assumes ok: "db_ok (weight sv) (view s) (autos s)"
    and none: "live_store t (view s) (chat x, mid x) = None"
    and run: "message_new t fwd fk (Insert t cols vals (Some ups)) (params x) (chat x) (mid x)
      (del x) (info x) sv s = (Inr (), u)"
  shows "live_store t (view u) = (live_store t (view s))
      ((chat x, mid x) := live_step (autos s t) (con x) (ed x) (del x) None)"
    and "edit_log edits fk (view u) = edit_log edits fk (view s)"
    and "fwd_log fwd fk (view u) = fwd_log fwd fk (view s) @
      fwd_step (autos s t) (del x) (info x) None (fwd_log fwd fk (view s))"
proof -
  have "live_store t (view u) = (live_store t (view s))
      ((chat x, mid x) := live_step (autos s t) (con x) (ed x) (del x) None) \<and>
    edit_log edits fk (view u) = edit_log edits fk (view s) \<and>
    fwd_log fwd fk (view u) = fwd_log fwd fk (view s) @
      fwd_step (autos s t) (del x) (info x) None (fwd_log fwd fk (view s))"
  proof (cases "del x")
    case True
    with run none show ?thesis
      by (auto simp: message_new_def tx_return_run live_step_def fwd_step_def fun_eq_iff
          split: option.splits)
  next
    case False
    from first_run [OF ok none this run] show ?thesis .
  qed
  then show "live_store t (view u) = (live_store t (view s))
      ((chat x, mid x) := live_step (autos s t) (con x) (ed x) (del x) None)"
    and "edit_log edits fk (view u) = edit_log edits fk (view s)"
    and "fwd_log fwd fk (view u) = fwd_log fwd fk (view s) @
      fwd_step (autos s t) (del x) (info x) None (fwd_log fwd fk (view s))" by blast+
qed

text \<open>The last branch: an edit of a stored message, or a repeated deletion.\<close>

lemma change_run:
  assumes ok: "db_ok (weight sv) (view s) (autos s)"
    and row: "find (is_key (chat x) (mid x)) (view s t) = Some r" and id: "r ''id'' = IntV i"
    and run: "message_change edits fwd fk (Insert t cols vals (Some ups)) (params x) (con x) (ed x)
      (info x) [r ''id'', r ''edit_date'', r ''content_type'', r ''text'', r ''file_id'', r ''is_deleted'']
      i (int_or0 (r ''edit_date'')) sv s = (Inr (), u)"
  shows "live_store t (view u) = (live_store t (view s))((chat x, mid x) \<mapsto>
      (live_of_row r)\<lparr>l_edit_date := ed x,
         l_content := con x\<lparr>content_file_id := content_file_id (l_content (live_of_row r))\<rparr>,
         l_deleted := del x\<rparr>)"
    and "edit_log edits fk (view u) = edit_log edits fk (view s) @
      (if genuine_edit (con x) (ed x) (live_of_row r)
       then [(IntV i, l_content (live_of_row r), ed x)] else [])"
    and "fwd_log fwd fk (view u) = fwd_log fwd fk (view s) @
      (case info x of None \<Rightarrow> [] | Some fw \<Rightarrow>
        if IntV i \<in> fst ` set (fwd_log fwd fk (view s)) then [] else [(IntV i, fwd_values fw)])"
proof -
  let ?k = "(chat x, mid x)" and ?l = "live_of_row r"
  from run obtain oc v1 v2 v3 b where
    oc: "old_content_of [r ''id'', r ''edit_date'', r ''content_type'', r ''text'', r ''file_id'',
      r ''is_deleted''] sv s = (Inr oc, v1)"
    and snap: "snapshotMessageEditIfChanged edits fk i oc (int_or0 (r ''edit_date'')) (con x) (ed x)
      sv v1 = (Inr b, v2)"
    and up: "do_execute (Insert t cols vals (Some ups)) (params x) sv v2 = (Inr (), v3)"
    and fwdr: "(case info x of None \<Rightarrow> tx_return () | Some fw \<Rightarrow> insertForwardInfo fwd fk i fw) sv v3
      = (Inr (), u)"
    unfolding message_change_def by (elim tx_bindE tx_thenE) (rule that)
  have oc_eq: "oc = l_content ?l" and v1: "v1 = s"
    using old_content_run [OF oc] by (simp_all add: live_of_row_def content_of_row_def)
  note snap' = snapshot_run [OF snap [unfolded v1]]
  have ok2: "db_ok (weight sv) (view v2) (autos v2)"
    using keepsD [OF integrity.snapshot_keeps snap] ok v1 by (simp add: on_view_def)
  have ex: "exec_stmt (weight sv) (params x) (Insert t cols vals (Some ups)) (view v2) (autos v2)
      = Inr (view v3, autos v3)"
    using up by (rule do_executeE)
  note up' = upsert_effect [OF ok2 ex] and fwd' = forward_option_run [OF fwdr]
  have live2: "live_store t (view v2) = live_store t (view s)"
    using tables by (intro logs_same; simp add: snap'(2))+
  moreover have "live_store t (view s) ?k = Some ?l"
    using row by (simp add: live_store_def)
  moreover have "live_store t (view u) = live_store t (view v3)"
    using tables by (intro logs_same; simp add: fwd'(2))+
  ultimately show "live_store t (view u) = (live_store t (view s))((chat x, mid x) \<mapsto>
      ?l\<lparr>l_edit_date := ed x, l_content := con x\<lparr>content_file_id := content_file_id (l_content ?l)\<rparr>,
         l_deleted := del x\<rparr>)"
    using up'(1) by simp
  have "edit_log edits fk (view u) = edit_log edits fk (view v3)"
    and "edit_log edits fk (view v3) = edit_log edits fk (view v2)"
    using tables by (intro logs_same; simp add: up'(2) fwd'(2))+
  then show "edit_log edits fk (view u) = edit_log edits fk (view s) @
      (if genuine_edit (con x) (ed x) ?l then [(IntV i, l_content ?l, ed x)] else [])"
    using snap'(1) by (simp add: genuine_edit_def oc_eq) (simp add: live_of_row_def)
  have "fwd_log fwd fk (view v3) = fwd_log fwd fk (view v2)"
    and "fwd_log fwd fk (view v2) = fwd_log fwd fk (view s)"
    using tables by (intro logs_same; simp add: up'(2) snap'(2))+
  then show "fwd_log fwd fk (view u) = fwd_log fwd fk (view s) @
      (case info x of None \<Rightarrow> [] | Some fw \<Rightarrow>
        if IntV i \<in> fst ` set (fwd_log fwd fk (view s)) then [] else [(IntV i, fwd_values fw)])"
    using fwd'(1) by (simp split: option.split)
qed

text \<open>The whole upsert, as one step of the abstract store.\<close>

text \<open>A message that is stored: a deletion, or the change of its row.\<close>

lemma known_run:
  assumes okv: "db_ok (weight sv) (view v) (autos v)" and Some: "find (is_key (chat x) (mid x)) (view v t) = Some r"
    and id: "r ''id'' = IntV i"
    and act: "(if del x \<and> r ''is_deleted'' \<noteq> IntV 1 then do_execute (delete_sql t) [IntV i]
       else message_change edits fwd fk (Insert t cols vals (Some ups)) (params x) (con x) (ed x) (info x)
         [r ''id'', r ''edit_date'', r ''content_type'', r ''text'', r ''file_id'', r ''is_deleted''] i
         (int_or0 (r ''edit_date''))) sv v = (Inr (), u)"
  shows "stored_in t edits fwd fk (view u) = message_step (autos v t) (chat x, mid x) (con x) (ed x) (del x) (info x)
    (stored_in t edits fwd fk (view v))"
proof -
  let ?c = "chat x" and ?m = "mid x"
  let ?old = "[r ''id'', r ''edit_date'', r ''content_type'', r ''text'', r ''file_id'', r ''is_deleted'']"
  have live: "live_store t (view v) (?c, ?m) = Some (live_of_row r)"
    using Some by (simp add: live_store_def)
  have del_eq: "l_deleted (live_of_row r) \<longleftrightarrow> r ''is_deleted'' = IntV 1"
    and lid: "l_id (live_of_row r) = IntV i"
    by (simp_all add: live_of_row_def id)
  show ?thesis
  proof (cases "del x \<and> r ''is_deleted'' \<noteq> IntV 1")
    case True
    then have "do_execute (delete_sql t) [IntV i] sv v = (Inr (), u)" using act by simp
    then have ex: "exec_stmt (weight sv) [IntV i] (delete_sql t) (view v) (autos v)
        = Inr (view u, autos u)" by (rule do_executeE)
    note eff = delete_effect [OF okv Some id ex]
    have "edit_log edits fk (view u) = edit_log edits fk (view v)"
      and "fwd_log fwd fk (view u) = fwd_log fwd fk (view v)"
      using tables by (intro logs_same; simp add: eff(2))+
    with eff(1) True live del_eq show ?thesis
      by (simp add: stored_in_def message_step_def live_step_def edit_step_def fwd_step_def
          split: option.split)
  next
    case False
    with act have "message_change edits fwd fk (Insert t cols vals (Some ups)) (params x) (con x)
        (ed x) (info x) ?old i (int_or0 (r ''edit_date'')) sv v = (Inr (), u)"
      by (simp only: if_False)
    from change_run [OF okv Some id this] False live del_eq lid show ?thesis
      by (auto simp: stored_in_def message_step_def live_step_def edit_step_def fwd_step_def
          split: option.split)
  qed
qed

lemma body_run:
  assumes ok: "db_ok (weight sv) (view s) (autos s)" and run: "body x sv s = (Inr (), u)"
  shows "stored_in t edits fwd fk (view u) = message_step (autos s t) (chat x, mid x) (con x) (ed x) (del x) (info x)
    (stored_in t edits fwd fk (view s))"
proof -
  let ?c = "chat x" and ?m = "mid x"
  from run obtain rows v where
    look: "exec_query (weight sv) [IntV ?c, IntV ?m] (old_sql t) (view s) = Inr rows"
    and v: "view v = view s" "autos v = autos s"
    and rest: "(if rows = [] then message_new t fwd fk (Insert t cols vals (Some ups)) (params x) ?c ?m
        (del x) (info x)
      else
       tx_bind (stoll (hd rows ! 0)) (\<lambda>i.
       tx_bind (if hd rows ! 1 \<noteq> Null then stoll (hd rows ! 1) else tx_return 0) (\<lambda>old_ed.
       if del x \<and> hd rows ! 5 \<noteq> IntV 1 then do_execute (delete_sql t) [IntV i]
       else message_change edits fwd fk (Insert t cols vals (Some ups)) (params x) (con x) (ed x)
         (info x) (hd rows) i old_ed))) sv v = (Inr (), u)"
    unfolding body_eq message_upsert_def by (elim tx_bindE do_queryE) (rule that)
  have okv: "db_ok (weight sv) (view v) (autos v)" using ok v by simp
  show ?thesis
  proof (cases "find (is_key ?c ?m) (view s t)")
    case None
    then have "rows = []" using old_rows [OF look] by (simp add: key_rows [OF ok])
    moreover have "live_store t (view v) (?c, ?m) = None" using None v by (simp add: live_store_def)
    ultimately show ?thesis
      using new_run [OF okv, of x u] rest v
      by (simp add: stored_in_def message_step_def edit_step_def)
  next
    case (Some r)
    let ?old = "[r ''id'', r ''edit_date'', r ''content_type'', r ''text'', r ''file_id'',
      r ''is_deleted'']"
    have rows: "rows = [?old]" using old_rows [OF look] Some by (simp add: key_rows [OF ok])
    obtain i where id: "r ''id'' = IntV i" using ok Some by (rule row_id)
    from rest have act: "(if del x \<and> r ''is_deleted'' \<noteq> IntV 1 then do_execute (delete_sql t) [IntV i]
       else message_change edits fwd fk (Insert t cols vals (Some ups)) (params x) (con x) (ed x)
         (info x) ?old i (int_or0 (r ''edit_date''))) sv v = (Inr (), u)"
      by (auto simp: rows id tx_bind_run stoll_run tx_return_run split: if_split_asm)
    from known_run [OF okv Some [folded v(1)] id act] show ?thesis by (simp add: v)
  qed
qed

end

section \<open>Transactions\<close>

context message_family
begin

lemma body_keeps_integrity: "keeps (on_view db_ok) (body x)"
  unfolding body_eq by (rule integrity.message_upsert_keeps) simp_all

lemma body_isolated: "keeps isolation (body x)"
  unfolding body_eq by (rule iso.message_upsert_keeps) simp_all

lemma upsert_outcome:
  assumes run: "transaction (body x) sv s = (r, u)" and "clean s"
    and ok: "db_ok (weight sv) (view s) (autos s)"
  shows "(stored_in t edits fwd fk (disk u) = stored_in t edits fwd fk (disk s) \<and> (\<exists>e. r = Inl e)) \<or>
    stored_in t edits fwd fk (disk u) = message_step (autos s t) (chat x, mid x) (con x) (ed x) (del x)
      (info x) (stored_in t edits fwd fk (disk s))"
  using transaction_atomic [OF body_isolated run]
proof (elim disjE exE conjE)
  fix s1 a s2
  assume begun: "begun s s1" and fn: "body x sv s1 = (Inr a, s2)" and d: "disk u = view s2"
  have "db_ok (weight sv) (view s1) (autos s1)" using ok begun by (simp add: begun_def)
  from body_run [OF this] fn have "stored_in t edits fwd fk (view s2) =
      message_step (autos s1 t) (chat x, mid x) (con x) (ed x) (del x) (info x)
        (stored_in t edits fwd fk (view s1))"
    by simp
  with begun d clean_begun [OF \<open>clean s\<close>] show ?thesis by (simp add: begun_def)
qed simp

lemma upsert_returns:
  assumes run: "transaction (body x) sv s = (Inr (), u)" and "clean s"
    and ok: "db_ok (weight sv) (view s) (autos s)"
  shows "stored_in t edits fwd fk (disk u) = message_step (autos s t) (chat x, mid x) (con x) (ed x)
      (del x) (info x) (stored_in t edits fwd fk (disk s))"
    and "clean u" and "db_ok (weight sv) (view u) (autos u)"
proof -
  obtain s1 s2 where *: "body x sv s1 = (Inr (), s2)" "db_ok (weight sv) (view s1) (autos s1)"
    "view s1 = view s" "autos s1 = autos s" "disk u = view s2" "clean u"
    "db_ok (weight sv) (view u) (autos u)"
    by (rule transaction_run [OF run body_keeps_integrity ok]) (rule that)
  with body_run [OF *(2,1)] clean_begun [OF \<open>clean s\<close>]
  show "stored_in t edits fwd fk (disk u) = message_step (autos s t) (chat x, mid x) (con x) (ed x)
      (del x) (info x) (stored_in t edits fwd fk (disk s))"
    and "clean u" and "db_ok (weight sv) (view u) (autos u)" by simp_all
qed

end

section \<open>Late updates\<close>

text \<open>Linking a downloaded file and a reply target, on a table of either family.\<close>

definition file_sql :: "tname \<Rightarrow> sql_stmt" where
  "file_sql t = Update t None [(''file_id'', Arg 0)] [(''chat_id'', Arg 1), (''message_id'', Arg 2)]"

definition reply_sql :: "tname \<Rightarrow> sql_stmt" where
  "reply_sql t = Update t (Some [(''chat_id'', Arg 0), (''message_id'', Arg 1)])
     [(''reply_to_chat_id'', Arg 2), (''reply_to_msg_id'', Arg 3), (''reply_to_id'', JoinId)]
     [(''chat_id'', Arg 4), (''message_id'', Arg 5)]"

definition link_file :: "int \<Rightarrow> live \<Rightarrow> live" where
  "link_file f l = l\<lparr>l_content := (l_content l)\<lparr>content_file_id := Some f\<rparr>\<rparr>"

lemma file_effect:
  assumes "exec_stmt w [IntV f, IntV c, IntV m] (file_sql t) d au = Inr (d', au')"
  shows "live_store t d' = (live_store t d)((c, m) := map_option (link_file f) (live_store t d (c, m)))"
    and "\<And>t'. t' \<noteq> t \<Longrightarrow> d' t' = d t'"
proof -
  let ?f = "\<lambda>r. r(''file_id'' := IntV f)"
  have d': "d' = d(t := map (\<lambda>r. if is_key c m r then ?f r else r) (d t))"
    using exec_update_rows(1) [OF assms [unfolded file_sql_def]]
    by (simp add: is_key_def cong: if_cong)
  then show "d' t' = d t'" if "t' \<noteq> t" for t' using that by simp
  show "live_store t d' = (live_store t d)((c, m) := map_option (link_file f) (live_store t d (c, m)))"
  proof
    fix k :: "int \<times> int"
    obtain c' m' where k: "k = (c', m')" by (cases k)
    show "live_store t d' k = ((live_store t d)((c, m) := map_option (link_file f)
        (live_store t d (c, m)))) k"
    proof (cases "k = (c, m)")
      case True
      have "find (is_key c m) (d' t) = map_option ?f (find (is_key c m) (d t))"
        unfolding d' fun_upd_same by (rule find_updated) (simp add: is_key_def)
      with True show ?thesis
        by (cases "find (is_key c m) (d t)")
          (simp_all add: live_store_def live_of_row_def content_of_row_def link_file_def)
    next
      case False
      then have "find (is_key c' m') (d' t) = find (is_key c' m') (d t)"
        unfolding d' fun_upd_same
        by (intro find_updated_other) (use k in \<open>auto simp: is_key_def\<close>)
      with False k show ?thesis by (auto simp: live_store_def)
    qed
  qed
qed

text \<open>The reply columns of a row, and the id the left join resolves.\<close>

definition reply_of :: "tname \<Rightarrow> db \<Rightarrow> int \<times> int \<Rightarrow> (sql_val \<times> sql_val \<times> sql_val) option" where
  "reply_of t d k = map_option (\<lambda>r. (r ''reply_to_chat_id'', r ''reply_to_msg_id'', r ''reply_to_id''))
     (find (is_key (fst k) (snd k)) (d t))"

lemma reply_effect:
  assumes "exec_stmt w [IntV rc, IntV rm, IntV rc, IntV rm, IntV c, IntV m] (reply_sql t) d au
    = Inr (d', au')"
  shows "reply_of t d' = (reply_of t d)((c, m) := map_option (\<lambda>_. (IntV rc, IntV rm,
      case live_store t d (rc, rm) of None \<Rightarrow> Null | Some l \<Rightarrow> l_id l)) (reply_of t d (c, m)))"
    and "live_store t d' = live_store t d" and "\<And>t'. t' \<noteq> t \<Longrightarrow> d' t' = d t'"
proof -
  let ?id = "case live_store t d (rc, rm) of None \<Rightarrow> Null | Some l \<Rightarrow> l_id l"
  let ?f = "\<lambda>r. r(''reply_to_chat_id'' := IntV rc, ''reply_to_msg_id'' := IntV rm, ''reply_to_id'' := ?id)"
  have join: "join_id w [IntV rc, IntV rm, IntV rc, IntV rm, IntV c, IntV m]
      (Some [(''chat_id'', Arg 0), (''message_id'', Arg 1)]) (d t) = ?id"
    by (simp add: join_id_def live_store_def live_of_row_def is_key_def [abs_def] split: option.split)
  have d': "d' = d(t := map (\<lambda>r. if is_key c m r then ?f r else r) (d t))"
    using assms
    by (simp add: reply_sql_def exec_update_Inr_iff Let_def join is_key_def
        del: One_nat_def cong: if_cong)
  then show "d' t' = d t'" if "t' \<noteq> t" for t' using that by simp
  have same: "find (is_key c m) (d' t) = map_option ?f (find (is_key c m) (d t))"
    unfolding d' fun_upd_same by (rule find_updated) (simp add: is_key_def)
  have other: "find (is_key c' m') (d' t) = find (is_key c' m') (d t)" if "(c', m') \<noteq> (c, m)" for c' m'
    unfolding d' fun_upd_same by (rule find_updated_other) (use that in \<open>auto simp: is_key_def\<close>)
  have live: "live_of_row (?f r) = live_of_row r" for r
    by (simp add: live_of_row_def content_of_row_def)
  show "reply_of t d' = (reply_of t d)((c, m) := map_option (\<lambda>_. (IntV rc, IntV rm, ?id))
      (reply_of t d (c, m)))"
  proof
    fix k :: "int \<times> int"
    show "reply_of t d' k = ((reply_of t d)((c, m) := map_option (\<lambda>_. (IntV rc, IntV rm, ?id))
        (reply_of t d (c, m)))) k"
      using same other [of "fst k" "snd k"]
      by (cases "k = (c, m)"; cases "find (is_key c m) (d t)") (auto simp: reply_of_def)
  qed
  show "live_store t d' = live_store t d"
  proof
    fix k :: "int \<times> int"
    show "live_store t d' k = live_store t d k"
      using same other [of "fst k" "snd k"] live
      by (cases "k = (c, m)"; cases "find (is_key c m) (d t)") (auto simp: live_store_def)
  qed
qed

section \<open>The two families\<close>

interpretation pm: message_family T_private_messages T_private_message_edits
  T_private_message_fwd_info "''private_message_id''"
  "[''chat_id'', ''message_id'', ''sender_id'', ''is_outgoing'', ''date'', ''edit_date'',
    ''content_type'', ''text'', ''is_deleted'', ''is_forwarded'']"
  "[Arg 0, Arg 1, Arg 2, Arg 3, Arg 4, Arg 5, Arg 6, Arg 7, Arg 8, Arg 9]"
  "[''sender_id'', ''is_outgoing'', ''date'', ''edit_date'', ''content_type'', ''text'',
    ''is_deleted'', ''is_forwarded'']"
  pm_params pm_chat_id pm_message_id pm_edit_date pm_content pm_is_deleted pm_forward_info
  upsertPrivateMessage_body
proof unfold_locales
  show "upsertPrivateMessage_body x =
    message_upsert T_private_messages T_private_message_edits T_private_message_fwd_info
      ''private_message_id''
      (Insert T_private_messages
        [''chat_id'', ''message_id'', ''sender_id'', ''is_outgoing'', ''date'', ''edit_date'',
         ''content_type'', ''text'', ''is_deleted'', ''is_forwarded'']
        [Arg 0, Arg 1, Arg 2, Arg 3, Arg 4, Arg 5, Arg 6, Arg 7, Arg 8, Arg 9]
        (Some [''sender_id'', ''is_outgoing'', ''date'', ''edit_date'', ''content_type'', ''text'',
          ''is_deleted'', ''is_forwarded'']))
      (pm_params x) (pm_chat_id x) (pm_message_id x) (pm_content x) (pm_edit_date x)
      (pm_is_deleted x) (pm_forward_info x)" for x
    unfolding upsertPrivateMessage_body_def message_upsert_def message_new_def message_change_def
      Let_def pm_old_sql_def old_sql_def pm_id_sql_def id_sql_def pm_delete_sql_def delete_sql_def
      pm_upsert_sql_def ..
qed (simp_all add: table_defs new_row_def pm_params_def blank_row_def Let_def)

interpretation gm: message_family T_group_messages T_group_message_edits
  T_group_message_fwd_info "''group_message_id''"
  "[''chat_id'', ''message_id'', ''sender_user_id'', ''sender_chat_id'', ''is_outgoing'',
    ''is_channel_post'', ''author_signature'', ''date'', ''edit_date'', ''content_type'',
    ''text'', ''is_deleted'', ''is_forwarded'']"
  "[Arg 0, Arg 1, Arg 2, Arg 3, Arg 4, Arg 5, Arg 6, Arg 7, Arg 8, Arg 9, Arg 10, Arg 11, Arg 12]"
  "[''sender_user_id'', ''sender_chat_id'', ''is_outgoing'', ''is_channel_post'',
    ''author_signature'', ''date'', ''edit_date'', ''content_type'', ''text'', ''is_deleted'',
    ''is_forwarded'']"
  gm_params gm_chat_id gm_message_id gm_edit_date gm_content gm_is_deleted gm_forward_info
  upsertGroupMessage_body
proof unfold_locales
  show "upsertGroupMessage_body x =
    message_upsert T_group_messages T_group_message_edits T_group_message_fwd_info
      ''group_message_id''
      (Insert T_group_messages
        [''chat_id'', ''message_id'', ''sender_user_id'', ''sender_chat_id'', ''is_outgoing'',
         ''is_channel_post'', ''author_signature'', ''date'', ''edit_date'', ''content_type'',
         ''text'', ''is_deleted'', ''is_forwarded'']
        [Arg 0, Arg 1, Arg 2, Arg 3, Arg 4, Arg 5, Arg 6, Arg 7, Arg 8, Arg 9, Arg 10, Arg 11,
         Arg 12]
        (Some [''sender_user_id'', ''sender_chat_id'', ''is_outgoing'', ''is_channel_post'',
          ''author_signature'', ''date'', ''edit_date'', ''content_type'', ''text'',
          ''is_deleted'', ''is_forwarded'']))
      (gm_params x) (gm_chat_id x) (gm_message_id x) (gm_content x) (gm_edit_date x)
      (gm_is_deleted x) (gm_forward_info x)" for x
    unfolding upsertGroupMessage_body_def message_upsert_def message_new_def message_change_def
      Let_def gm_old_sql_def old_sql_def gm_id_sql_def id_sql_def gm_delete_sql_def delete_sql_def
      gm_upsert_sql_def ..
qed (simp_all add: table_defs new_row_def gm_params_def blank_row_def Let_def)

end
