(* ===== verification/Db_Message_Props.thy ===== *)
theory Db_Message_Props
  imports Db_Message_Store
begin

text \<open>
  The properties of the message operations of PrivateMessage.cpp and GroupMessage.cpp, over the
  abstract store of theory \<open>Db_Message_Store\<close>.
\<close>

abbreviation private_store :: "db \<Rightarrow> message_store" where
  "private_store \<equiv> stored_in T_private_messages T_private_message_edits T_private_message_fwd_info
     ''private_message_id''"

abbreviation group_store :: "db \<Rightarrow> message_store" where
  "group_store \<equiv> stored_in T_group_messages T_group_message_edits T_group_message_fwd_info
     ''group_message_id''"

abbreviation private_step :: "PrivateMessage \<Rightarrow> int \<Rightarrow> message_store \<Rightarrow> message_store" where
  "private_step x i \<equiv> message_step i (pm_chat_id x, pm_message_id x) (pm_content x) (pm_edit_date x)
     (pm_is_deleted x) (pm_forward_info x)"

abbreviation group_step :: "GroupMessage \<Rightarrow> int \<Rightarrow> message_store \<Rightarrow> message_store" where
  "group_step x i \<equiv> message_step i (gm_chat_id x, gm_message_id x) (gm_content x) (gm_edit_date x)
     (gm_is_deleted x) (gm_forward_info x)"

section \<open>Refinement\<close>

text \<open>
  C2: \<open>upsertPrivateMessage\<close> refines one step of the abstract message store, all or nothing: the
  live message of the key is created, flagged deleted or replaced (keeping its row id and file
  link), exactly the snapshot of the content before a genuine edit is appended to the edit log, and
  forward information is recorded at most once per message. A normal return means the step took
  effect; if any driver call fails the committed store is the old or the new one.
\<close>

theorem upsertPrivateMessage_refines:
  assumes "upsertPrivateMessage x sv s = (r, u)" and "clean s"
    and "db_ok (weight sv) (view s) (autos s)"
  shows "(private_store (disk u) = private_store (disk s) \<and> (\<exists>e. r = Inl e)) \<or>
    private_store (disk u) = private_step x (autos s T_private_messages) (private_store (disk s))"
  using assms unfolding upsertPrivateMessage_def by (rule pm.upsert_outcome)

text \<open>A user to talk to, and a first message.\<close>

definition peer_row :: row where
  "peer_row = (\<lambda>c. if c = ''id'' then IntV 7 else Null)"

definition peer_session :: session where
  "peer_session = empty_session\<lparr>view := (\<lambda>_. [])(T_users := [peer_row]),
     disk := (\<lambda>_. [])(T_users := [peer_row])\<rparr>"

lemma clean_peer [simp]: "clean peer_session"
  by (simp add: clean_def peer_session_def empty_session_def)

lemma db_ok_peer [simp]: "db_ok w (view peer_session) (autos peer_session)"
  by (simp add: db_ok_def peer_session_def empty_session_def below_counter_def fk_row_def peer_row_def
      users_def_def)

definition sample_pm :: PrivateMessage where
  "sample_pm = \<lparr>pm_chat_id = 7, pm_message_id = 100, pm_sender_id = Some 7, pm_is_outgoing = False,
     pm_date = 50, pm_edit_date = 0,
     pm_content = \<lparr>content_type = Ct_Text, content_text = Some ''hi'', content_file_id = None\<rparr>,
     pm_is_deleted = False, pm_forward_info = None\<rparr>"

lemma sample_pm_run: "fst (upsertPrivateMessage sample_pm quiet peer_session) = Inr ()"
  by (simp add: run_eval sql_defs upsertPrivateMessage_def upsertPrivateMessage_body_def
      pm_params_def insertForwardInfo_def peer_session_def sample_pm_def peer_row_def)

theorem upsertPrivateMessage_refines_witness:
  "private_store (disk (snd (upsertPrivateMessage sample_pm quiet peer_session))) =
     private_step sample_pm 1 (private_store (disk peer_session))"
  using upsertPrivateMessage_refines [OF fst_run [OF sample_pm_run] clean_peer db_ok_peer]
  by (simp add: peer_session_def empty_session_def)

text \<open>
  C4: the same for \<open>upsertGroupMessage\<close>, over the tables of group messages.
\<close>

theorem upsertGroupMessage_refines:
  assumes "upsertGroupMessage x sv s = (r, u)" and "clean s"
    and "db_ok (weight sv) (view s) (autos s)"
  shows "(group_store (disk u) = group_store (disk s) \<and> (\<exists>e. r = Inl e)) \<or>
    group_store (disk u) = group_step x (autos s T_group_messages) (group_store (disk s))"
  using assms unfolding upsertGroupMessage_def by (rule gm.upsert_outcome)

definition room_session :: session where
  "room_session = empty_session\<lparr>view := (\<lambda>_. [])(T_groups := [peer_row]),
     disk := (\<lambda>_. [])(T_groups := [peer_row])\<rparr>"

lemma clean_room [simp]: "clean room_session"
  by (simp add: clean_def room_session_def empty_session_def)

lemma db_ok_room [simp]: "db_ok w (view room_session) (autos room_session)"
  by (simp add: db_ok_def room_session_def empty_session_def below_counter_def fk_row_def peer_row_def
      groups_def_def)

definition sample_gm :: GroupMessage where
  "sample_gm = \<lparr>gm_chat_id = 7, gm_message_id = 100, gm_sender_user_id = None,
     gm_sender_chat_id = Some 7, gm_is_outgoing = False, gm_is_channel_post = True,
     gm_author_signature = Some ''A'', gm_date = 50, gm_edit_date = 0,
     gm_content = \<lparr>content_type = Ct_Photo, content_text = None, content_file_id = None\<rparr>,
     gm_is_deleted = False,
     gm_forward_info = Some \<lparr>origin_type = Fo_HiddenUser, origin_sender_user_id = None,
       origin_sender_name = Some ''B'', origin_chat_id = None, origin_message_id = None,
       origin_date = 9\<rparr>\<rparr>"

lemma sample_gm_run: "fst (upsertGroupMessage sample_gm quiet room_session) = Inr ()"
  by (simp add: run_eval sql_defs upsertGroupMessage_def upsertGroupMessage_body_def gm_params_def
      insertForwardInfo_def room_session_def sample_gm_def peer_row_def)

theorem upsertGroupMessage_refines_witness:
  "group_store (disk (snd (upsertGroupMessage sample_gm quiet room_session))) =
     group_step sample_gm 1 (group_store (disk room_session))"
  using upsertGroupMessage_refines [OF fst_run [OF sample_gm_run] clean_room db_ok_room]
  by (simp add: room_session_def empty_session_def)

section \<open>Histories\<close>

lemma message_updates:
  "pm_file_sql = file_sql T_private_messages" "gm_file_sql = file_sql T_group_messages"
  "pm_reply_sql = reply_sql T_private_messages" "gm_reply_sql = reply_sql T_group_messages"
  by (simp_all add: pm_file_sql_def gm_file_sql_def pm_reply_sql_def gm_reply_sql_def
      file_sql_def reply_sql_def)

definition message_log_tables :: "tname set" where
  "message_log_tables = {T_private_message_edits, T_private_message_fwd_info,
     T_group_message_edits, T_group_message_fwd_info}"

lemma message_bodies_append:
  "keeps (view_rel (appends message_log_tables)) (upsertPrivateMessage_body x)"
  "keeps (view_rel (appends message_log_tables)) (upsertGroupMessage_body y)"
  unfolding pm.body_eq gm.body_eq
  by (rule append_only.message_upsert_keeps;
      simp add: message_log_tables_def edit_insert_sql_def fwd_insert_sql_def delete_sql_def)+

lemma append_tx:
  assumes "transaction fn sv s = (r, u)" and "clean s" and "keeps isolation fn"
    and "keeps (view_rel (appends message_log_tables)) fn"
  shows "appends message_log_tables (disk s) (disk u)"
  using append_only.transaction_related [OF assms(3,4,1)] clean_begun [OF assms(2)]
  by (simp add: append_only.Q_refl)

lemma append_upd:
  assumes "db_execute st args sv s = (r, u)" and "clean s" and "appending message_log_tables st"
  shows "appends message_log_tables (disk s) (disk u)"
  using append_only.execute_related [OF assms(1,3)] clean_begun [OF assms(2)]
  by (simp add: append_only.Q_refl)

text \<open>
  The edit snapshots and the forward information are append-only. No message operation of
  either family, whatever it is given and wherever it fails, removes or changes a committed row of
  the four log tables.
\<close>

theorem message_logs_append_only:
  assumes "m \<in> {upsertPrivateMessage x, upsertGroupMessage y, setPrivateMessageFile c n f,
      setGroupMessageFile c n f, setPrivateMessageReply c n c' n', setGroupMessageReply c n c' n'}"
    and "m sv s = (r, u)" and "clean s"
  shows "appends message_log_tables (disk s) (disk u)"
proof -
  have tables: "T_private_messages \<notin> message_log_tables" "T_group_messages \<notin> message_log_tables"
    by (simp_all add: message_log_tables_def)
  note defs = upsertPrivateMessage_def upsertGroupMessage_def setPrivateMessageFile_def
    setGroupMessageFile_def setPrivateMessageReply_def setGroupMessageReply_def
    message_updates file_sql_def reply_sql_def
  consider "m = upsertPrivateMessage x" | "m = upsertGroupMessage y"
    | st args where "m = db_execute st args" "stmt_table st \<notin> message_log_tables"
      "appending message_log_tables st"
    using assms(1) tables by (auto simp: defs)
  then show ?thesis
  proof cases
    case 1
    with assms(2,3) show ?thesis
      by (simp add: upsertPrivateMessage_def append_tx pm.body_isolated message_bodies_append)
  next
    case 2
    with assms(2,3) show ?thesis
      by (simp add: upsertGroupMessage_def append_tx gm.body_isolated message_bodies_append)
  next
    case 3
    with assms(2,3) show ?thesis by (simp add: append_upd)
  qed
qed

theorem message_logs_append_only_witness:
  "appends message_log_tables (disk peer_session)
     (disk (snd (upsertPrivateMessage sample_pm quiet peer_session)))"
  using message_logs_append_only [of "upsertPrivateMessage sample_pm" sample_pm,
      OF _ fst_run [OF sample_pm_run] clean_peer] by blast
section \<open>Complete histories\<close>

lemma fst_stored_in [simp]: "fst (stored_in t e f fk d) = live_store t d"
  "fst (snd (stored_in t e f fk d)) = edit_log e fk d"
  "snd (snd (stored_in t e f fk d)) = fwd_log f fk d"
  by (simp_all add: stored_in_def)

text \<open>
  \<open>version_of\<close> is what a version of a message says (type and text); \<open>recorded\<close> reads a store back:
  the snapshots of the message's row id in order, then its live content.
\<close>

definition version_of :: "MessageContent \<Rightarrow> MessageContentType \<times> string option" where
  "version_of c = (content_type c, content_text c)"

definition recorded :: "message_store \<Rightarrow> int \<times> int \<Rightarrow> (MessageContentType \<times> string option) list" where
  "recorded st k =
     (case st of (live, elog, flog) \<Rightarrow>
        (case live k of
           None \<Rightarrow> []
         | Some l \<Rightarrow> map (\<lambda>(i, c, e). version_of c) (filter (\<lambda>(i, c, e). i = l_id l) elog)
             @ [version_of (l_content l)]))"

lemma recorded_edit:
  assumes "live k = Some l" and "\<not> l_deleted l" and "l_edit_date l < ed"
  shows "recorded (message_step i k con ed False info (live, elog, flog)) k =
    (if version_of con = version_of (l_content l) then recorded (live, elog, flog) k
     else recorded (live, elog, flog) k @ [version_of con])"
  using assms
  by (auto simp: recorded_def message_step_def live_step_def edit_step_def genuine_edit_def version_of_def)

lemma message_step_live:
  assumes "fst st k = Some l"
  shows "\<exists>l'. fst (message_step i k con ed False info st) k = Some l' \<and>
    \<not> l_deleted l' \<and> l_edit_date l' = ed \<and> version_of (l_content l') = version_of con"
  using assms by (cases st) (simp add: message_step_def live_step_def version_of_def)
lemma recorded_last:
  assumes "fst st k = Some l"
  shows "recorded st k \<noteq> [] \<and> last (recorded st k) = version_of (l_content l)"
  using assms by (cases st) (simp add: recorded_def)

lemma remdups_adj_snoc_step:
  "xs \<noteq> [] \<Longrightarrow> last xs = a \<Longrightarrow>
     butlast xs @ remdups_adj (a # v # vs) =
     butlast (if v = a then xs else xs @ [v]) @ remdups_adj (v # vs)"
  by (cases xs rule: rev_cases) (auto simp: butlast_append)

context message_family
begin

text \<open>No snapshot refers to an id that was not handed out yet.\<close>

lemma edit_fresh:
  assumes "db_ok w d au"
  shows "filter (\<lambda>(i, c, e). i = IntV (au t)) (edit_log edits fk d) = []"
proof -
  have "r fk \<noteq> IntV (au t)" if r: "r \<in> set (d edits)" for r
  proof
    assume fk: "r fk = IntV (au t)"
    have "fk_row d edits r" using assms r by (auto simp: db_ok_def list_all_iff)
    moreover have "(fk, t) \<in> set (td_fkeys (schema edits))"
      by (simp add: schemas message_edits_def_def)
    ultimately have "has_id d t (IntV (au t))"
      using fk unfolding fk_row_def by (metis (mono_tags, lifting) case_prodD sql_val.distinct(1))
    moreover have "below_counter t (d t) (au t)" using assms by (simp add: db_ok_def)
    ultimately show False using keys(1) by (auto simp: has_id_def below_counter_def)
  qed
  then show ?thesis by (auto simp: edit_log_def filter_empty_conv)
qed

abbreviation (input) st_of :: "db \<Rightarrow> message_store" where
  "st_of \<equiv> stored_in t edits fwd fk"

lemma history_rest:
  assumes "tx_for (\<lambda>x. transaction (body x)) xs sv s = (Inr (), u)"
    and "clean s" and "db_ok (weight sv) (view s) (autos s)"
    and "live_store t (disk s) k = Some l" and "\<not> l_deleted l"
    and "\<And>x. x \<in> set xs \<Longrightarrow> (chat x, mid x) = k \<and> \<not> del x"
    and "sorted_wrt (<) (l_edit_date l # map ed xs)"
  shows "recorded (st_of (disk u)) k = butlast (recorded (st_of (disk s)) k) @
    remdups_adj (version_of (l_content l) # map (\<lambda>x. version_of (con x)) xs)"
  using assms
proof (induction xs arbitrary: s l)
  case Nil
  then have "u = s" by (simp add: tx_return_run)
  with recorded_last [of "st_of (disk s)" k l] Nil.prems(4) show ?case
    by simp (metis append_butlast_last_id)
next
  case (Cons x xs)
  from Cons.prems(1) obtain v where one: "transaction (body x) sv s = (Inr (), v)"
    and rest: "tx_for (\<lambda>x. transaction (body x)) xs sv v = (Inr (), u)"
    by (auto simp: tx_then_run)
  note ret = upsert_returns [OF one Cons.prems(2,3)]
  have x: "(chat x, mid x) = k" "\<not> del x" using Cons.prems(6) by simp_all
  have step: "st_of (disk v) = message_step (autos s t) k (con x) (ed x) False (info x) (st_of (disk s))"
    using ret(1) x by simp
  obtain l' where l': "live_store t (disk v) k = Some l'" "\<not> l_deleted l'" "l_edit_date l' = ed x"
    "version_of (l_content l') = version_of (con x)"
    using message_step_live [of "st_of (disk s)" k l "autos s t" "con x" "ed x" "info x"]
      Cons.prems(4) unfolding step [symmetric] by auto
  have rec: "recorded (st_of (disk v)) k = (if version_of (con x) = version_of (l_content l)
      then recorded (st_of (disk s)) k else recorded (st_of (disk s)) k @ [version_of (con x)])"
    unfolding step unfolding stored_in_def
    by (rule recorded_edit) (use Cons.prems in simp_all)
  have "recorded (st_of (disk u)) k = butlast (recorded (st_of (disk v)) k) @
      remdups_adj (version_of (l_content l') # map (\<lambda>x. version_of (con x)) xs)"
    using Cons.IH [OF rest ret(2,3) l'(1,2)] Cons.prems(6,7) l'(3) by simp
  then show ?case
    using recorded_last [of "st_of (disk s)" k l] Cons.prems(4)
      remdups_adj_snoc_step [of "recorded (st_of (disk s)) k" "version_of (l_content l)"
        "version_of (con x)"]
    by (simp add: rec l'(4) del: remdups_adj.simps)
qed

lemma history:
  assumes run: "tx_for (\<lambda>x. transaction (body x)) xs sv s = (Inr (), u)" and "xs \<noteq> []"
    and s: "clean s" "db_ok (weight sv) (view s) (autos s)"
    and none: "live_store t (disk s) k = None"
    and xs: "\<And>x. x \<in> set xs \<Longrightarrow> (chat x, mid x) = k \<and> \<not> del x"
    and inc: "sorted_wrt (<) (map ed xs)"
  shows "recorded (st_of (disk u)) k = remdups_adj (map (\<lambda>x. version_of (con x)) xs)"
proof -
  obtain x ys where ys: "xs = x # ys" using assms(2) by (cases xs) auto
  from run obtain v where one: "transaction (body x) sv s = (Inr (), v)"
    and rest: "tx_for (\<lambda>x. transaction (body x)) ys sv v = (Inr (), u)"
    by (auto simp: ys tx_then_run)
  note ret = upsert_returns [OF one s]
  let ?l = "\<lparr>l_id = IntV (autos s t), l_edit_date = ed x, l_content = (con x)\<lparr>content_file_id := None\<rparr>,
    l_deleted = False\<rparr>"
  have x: "(chat x, mid x) = k" "\<not> del x" using xs ys by simp_all
  have step: "st_of (disk v) = message_step (autos s t) k (con x) (ed x) False (info x) (st_of (disk s))"
    using ret(1) x by simp
  have live: "live_store t (disk v) k = Some ?l"
    using arg_cong [OF step, of fst] none by (simp add: message_step_def stored_in_def live_step_def)
  have elog: "edit_log edits fk (disk v) = edit_log edits fk (disk s)"
    using arg_cong [OF step, of "fst \<circ> snd"] none
    by (simp add: message_step_def stored_in_def edit_step_def)
  have "filter (\<lambda>(i, c, e). i = IntV (autos s t)) (edit_log edits fk (disk s)) = []"
    using edit_fresh [OF s(2)] clean_begun [OF s(1)] by simp
  then have "recorded (st_of (disk v)) k = [version_of (con x)]"
    by (simp add: recorded_def stored_in_def live elog version_of_def)
  moreover have "recorded (st_of (disk u)) k = butlast (recorded (st_of (disk v)) k) @
      remdups_adj (version_of (l_content ?l) # map (\<lambda>x. version_of (con x)) ys)"
    by (rule history_rest [OF rest ret(2,3) live]) (use xs inc in \<open>simp_all add: ys\<close>)
  ultimately show ?thesis by (simp add: ys version_of_def)
qed

end
text \<open>
  C11: complete histories. When a message unknown so far is followed by any number of versions with
  growing edit dates, each handed to \<open>upsertPrivateMessage\<close> and none failing, then the snapshots
  of its row and its live content, in order, are the versions themselves, with consecutive versions
  that say the same merged into one.
\<close>

theorem private_history_complete:
  assumes "tx_for upsertPrivateMessage xs sv s = (Inr (), u)" and "xs \<noteq> []"
    and "clean s" and "db_ok (weight sv) (view s) (autos s)"
    and "fst (private_store (disk s)) (c, m) = None"
    and "\<And>x. x \<in> set xs \<Longrightarrow> (pm_chat_id x, pm_message_id x) = (c, m) \<and> \<not> pm_is_deleted x"
    and "sorted_wrt (<) (map pm_edit_date xs)"
  shows "recorded (private_store (disk u)) (c, m) =
    remdups_adj (map (\<lambda>x. version_of (pm_content x)) xs)"
  using assms unfolding upsertPrivateMessage_def fst_stored_in by (rule pm.history)

definition sample_edit :: PrivateMessage where
  "sample_edit = sample_pm\<lparr>pm_edit_date := 60,
     pm_content := \<lparr>content_type = Ct_Text, content_text = Some ''yo'', content_file_id = None\<rparr>\<rparr>"

lemma sample_history_run:
  "fst (tx_for upsertPrivateMessage [sample_pm, sample_edit] quiet peer_session) = Inr ()"
  by (simp add: run_eval sql_defs upsertPrivateMessage_def upsertPrivateMessage_body_def
      pm_params_def insertForwardInfo_def snapshotMessageEditIfChanged_def old_content_of_def
      peer_session_def sample_pm_def sample_edit_def peer_row_def message_content_type_from_string_def)

theorem private_history_complete_witness:
  "recorded (private_store (disk (snd (tx_for upsertPrivateMessage [sample_pm, sample_edit] quiet
     peer_session)))) (7, 100) = [(Ct_Text, Some ''hi''), (Ct_Text, Some ''yo'')]"
proof -
  have "fst (private_store (disk peer_session)) (7, 100) = None"
    by (simp add: live_store_def peer_session_def)
  then have "recorded (private_store (disk (snd (tx_for upsertPrivateMessage [sample_pm, sample_edit]
      quiet peer_session)))) (7, 100) =
    remdups_adj (map (\<lambda>x. version_of (pm_content x)) [sample_pm, sample_edit])"
    by (intro private_history_complete [OF fst_run [OF sample_history_run] _ clean_peer db_ok_peer])
      (auto simp: sample_pm_def sample_edit_def)
  then show ?thesis by (simp add: sample_pm_def sample_edit_def version_of_def)
qed

text \<open>
  The same for the versions of a group message or channel post.
\<close>

theorem group_history_complete:
  assumes "tx_for upsertGroupMessage xs sv s = (Inr (), u)" and "xs \<noteq> []"
    and "clean s" and "db_ok (weight sv) (view s) (autos s)"
    and "fst (group_store (disk s)) (c, m) = None"
    and "\<And>x. x \<in> set xs \<Longrightarrow> (gm_chat_id x, gm_message_id x) = (c, m) \<and> \<not> gm_is_deleted x"
    and "sorted_wrt (<) (map gm_edit_date xs)"
  shows "recorded (group_store (disk u)) (c, m) =
    remdups_adj (map (\<lambda>x. version_of (gm_content x)) xs)"
  using assms unfolding upsertGroupMessage_def fst_stored_in by (rule gm.history)

lemma sample_gm_history_run: "fst (tx_for upsertGroupMessage [sample_gm] quiet room_session) = Inr ()"
  using sample_gm_run
  by (cases "upsertGroupMessage sample_gm quiet room_session")
    (simp add: tx_then_def tx_bind_def tx_return_def)

theorem group_history_complete_witness:
  "recorded (group_store (disk (snd (tx_for upsertGroupMessage [sample_gm] quiet room_session))))
     (7, 100) = [(Ct_Photo, None)]"
proof -
  have "fst (group_store (disk room_session)) (7, 100) = None"
    by (simp add: live_store_def room_session_def)
  then have "recorded (group_store (disk (snd (tx_for upsertGroupMessage [sample_gm] quiet
      room_session)))) (7, 100) = remdups_adj (map (\<lambda>x. version_of (gm_content x)) [sample_gm])"
    by (intro group_history_complete [OF fst_run [OF sample_gm_history_run] _ clean_room db_ok_room])
      (auto simp: sample_gm_def)
  then show ?thesis by (simp add: sample_gm_def version_of_def)
qed

section \<open>Deletions and late versions\<close>

text \<open>
  A deletion keeps the content. When a stored message that was not deleted is reported deleted,
  only its deletion flag changes: content, edit date and file link stay as they were, and nothing
  is logged. (For a message that was never stored, nothing happens at all.)
\<close>

theorem deletion_keeps_content:
  assumes "upsertPrivateMessage x sv s = (Inr (), u)" and "clean s"
    and "db_ok (weight sv) (view s) (autos s)" and "pm_is_deleted x"
    and "fst (private_store (disk s)) (pm_chat_id x, pm_message_id x) = old"
    and "\<And>l. old = Some l \<Longrightarrow> \<not> l_deleted l"
  shows "private_store (disk u) =
    ((fst (private_store (disk s)))((pm_chat_id x, pm_message_id x) :=
       map_option (\<lambda>l. l\<lparr>l_deleted := True\<rparr>) old), snd (private_store (disk s)))"
  using pm.upsert_returns(1) [OF assms(1) [unfolded upsertPrivateMessage_def] assms(2,3)] assms(4-6)
  by (cases old)
    (auto simp: stored_in_def message_step_def live_step_def edit_step_def fwd_step_def
      split: option.split)

text \<open>The first message, then the placeholder the client sends for its deletion.\<close>

definition sample_deletion :: PrivateMessage where
  "sample_deletion = sample_pm\<lparr>pm_is_deleted := True,
     pm_content := \<lparr>content_type = Ct_Unknown, content_text = None, content_file_id = None\<rparr>\<rparr>"

lemma sample_deletions_run: "fst (tx_for upsertPrivateMessage
    [sample_pm, sample_deletion, sample_deletion] quiet peer_session) = Inr ()"
  by (simp add: run_eval sql_defs upsertPrivateMessage_def upsertPrivateMessage_body_def
      pm_params_def insertForwardInfo_def snapshotMessageEditIfChanged_def old_content_of_def
      peer_session_def sample_pm_def sample_deletion_def peer_row_def
      message_content_type_from_string_def)

lemma sample_first:
  assumes "upsertPrivateMessage sample_pm quiet peer_session = (Inr (), v)"
  shows "clean v" and "db_ok (weight quiet) (view v) (autos v)"
    and "\<exists>l. fst (private_store (disk v)) (7, 100) = Some l \<and> \<not> l_deleted l \<and> l_edit_date l = 0"
  using pm.upsert_returns [OF assms [unfolded upsertPrivateMessage_def] clean_peer db_ok_peer]
  by (simp_all add: stored_in_def message_step_def live_step_def live_store_def peer_session_def
      sample_pm_def)

theorem deletion_keeps_content_witness:
  "\<exists>v u. upsertPrivateMessage sample_pm quiet peer_session = (Inr (), v) \<and>
     upsertPrivateMessage sample_deletion quiet v = (Inr (), u) \<and>
     snd (private_store (disk u)) = snd (private_store (disk v))"
proof -
  obtain v u where v: "upsertPrivateMessage sample_pm quiet peer_session = (Inr (), v)"
    and u: "upsertPrivateMessage sample_deletion quiet v = (Inr (), u)"
    using fst_run [OF sample_deletions_run] by (auto simp: tx_then_run)
  note first = sample_first [OF v]
  from deletion_keeps_content [OF u first(1,2) _ refl] first(3)
  have "private_store (disk u) =
    ((fst (private_store (disk v)))((7, 100) := map_option (\<lambda>l. l\<lparr>l_deleted := True\<rparr>)
       (fst (private_store (disk v)) (7, 100))), snd (private_store (disk v)))"
    by (auto simp: sample_deletion_def sample_pm_def)
  with v u show ?thesis by (metis snd_conv)
qed

text \<open>
  C30: a second deletion loses the content. A stored message already flagged deleted that is
  reported deleted again has its content replaced by the content of that report, and unless the
  report carries a later edit date no snapshot is taken: for the placeholder the client builds for
  a deletion (no text, unknown type, edit date 0) the logged text is gone.
\<close>

theorem second_deletion_overwrites:
  assumes "upsertPrivateMessage x sv s = (Inr (), u)" and "clean s"
    and "db_ok (weight sv) (view s) (autos s)" and "pm_is_deleted x"
    and "fst (private_store (disk s)) (pm_chat_id x, pm_message_id x) = Some l" and "l_deleted l"
    and "pm_edit_date x \<le> l_edit_date l"
  shows "\<exists>l'. fst (private_store (disk u)) (pm_chat_id x, pm_message_id x) = Some l' \<and>
     version_of (l_content l') = version_of (pm_content x) \<and> l_edit_date l' = pm_edit_date x \<and>
     fst (snd (private_store (disk u))) = fst (snd (private_store (disk s)))"
  using pm.upsert_returns(1) [OF assms(1) [unfolded upsertPrivateMessage_def] assms(2,3)] assms(4-7)
  by (auto simp: stored_in_def message_step_def live_step_def edit_step_def genuine_edit_def
      version_of_def)

theorem second_deletion_overwrites_witness:
  "\<exists>v u u' l. upsertPrivateMessage sample_pm quiet peer_session = (Inr (), v) \<and>
     upsertPrivateMessage sample_deletion quiet v = (Inr (), u) \<and>
     upsertPrivateMessage sample_deletion quiet u = (Inr (), u') \<and>
     fst (private_store (disk u')) (7, 100) = Some l \<and>
     version_of (l_content l) = (Ct_Unknown, None)"
proof -
  obtain v u u' where v: "upsertPrivateMessage sample_pm quiet peer_session = (Inr (), v)"
    and u: "upsertPrivateMessage sample_deletion quiet v = (Inr (), u)"
    and u': "upsertPrivateMessage sample_deletion quiet u = (Inr (), u')"
    using fst_run [OF sample_deletions_run] by (auto simp: tx_then_run)
  note first = sample_first [OF v]
  note second = pm.upsert_returns [OF u [unfolded upsertPrivateMessage_def] first(1,2)]
  from second(1) first(3) obtain l where "fst (private_store (disk u)) (7, 100) = Some l"
    and "l_deleted l" and "l_edit_date l = 0"
    by (auto simp: stored_in_def message_step_def live_step_def sample_deletion_def sample_pm_def)
  with second_deletion_overwrites [OF u' second(2,3)]
  have "\<exists>l'. fst (private_store (disk u')) (7, 100) = Some l' \<and>
      version_of (l_content l') = (Ct_Unknown, None)"
    by (auto simp: sample_deletion_def sample_pm_def version_of_def)
  with v u u' show ?thesis by blast
qed

text \<open>
  A late version overwrites. An upsert whose edit date is not later than the stored one
  (versions delivered out of order) replaces the live content by its own, older or not, and records
  no snapshot of what it replaces.
\<close>

theorem stale_version_overwrites:
  assumes "upsertPrivateMessage x sv s = (Inr (), u)" and "clean s"
    and "db_ok (weight sv) (view s) (autos s)" and "\<not> pm_is_deleted x"
    and "fst (private_store (disk s)) (pm_chat_id x, pm_message_id x) = Some l"
    and "pm_edit_date x \<le> l_edit_date l"
  shows "\<exists>l'. fst (private_store (disk u)) (pm_chat_id x, pm_message_id x) = Some l' \<and>
     version_of (l_content l') = version_of (pm_content x) \<and> l_edit_date l' = pm_edit_date x \<and>
     fst (snd (private_store (disk u))) = fst (snd (private_store (disk s)))"
  using pm.upsert_returns(1) [OF assms(1) [unfolded upsertPrivateMessage_def] assms(2,3)] assms(4-6)
  by (auto simp: stored_in_def message_step_def live_step_def edit_step_def genuine_edit_def
      version_of_def)
lemma sample_twice_run: "fst (tx_for upsertPrivateMessage [sample_pm, sample_pm] quiet peer_session) = Inr ()"
  by (simp add: run_eval sql_defs upsertPrivateMessage_def upsertPrivateMessage_body_def
      pm_params_def insertForwardInfo_def snapshotMessageEditIfChanged_def old_content_of_def
      peer_session_def sample_pm_def peer_row_def message_content_type_from_string_def)

theorem stale_version_overwrites_witness:
  "\<exists>v u l. upsertPrivateMessage sample_pm quiet peer_session = (Inr (), v) \<and>
     upsertPrivateMessage sample_pm quiet v = (Inr (), u) \<and>
     fst (private_store (disk u)) (7, 100) = Some l \<and> version_of (l_content l) = (Ct_Text, Some ''hi'')"
proof -
  obtain v u where v: "upsertPrivateMessage sample_pm quiet peer_session = (Inr (), v)"
    and u: "upsertPrivateMessage sample_pm quiet v = (Inr (), u)"
    using fst_run [OF sample_twice_run] by (auto simp: tx_then_run)
  note first = sample_first [OF v]
  from stale_version_overwrites [OF u first(1,2)] first(3)
  have "\<exists>l. fst (private_store (disk u)) (7, 100) = Some l \<and>
      version_of (l_content l) = (Ct_Text, Some ''hi'')"
    by (auto simp: sample_pm_def version_of_def)
  with v u show ?thesis by blast
qed

section \<open>Files and replies\<close>

text \<open>
  Linking a downloaded file. When \<open>setPrivateMessageFile\<close> or \<open>setGroupMessageFile\<close> returns,
  the live message of that key carries the file id, every other message and both logs are as
  before, and a key that is not stored is silently ignored; when it throws, nothing changed.
\<close>

theorem set_message_file:
  assumes "clean s"
    and "setPrivateMessageFile c m f sv s = (r, u)" and "setGroupMessageFile c m f sv s = (r', u')"
  shows "(if r = Inr () then private_store (disk u) =
      ((fst (private_store (disk s)))((c, m) := map_option (link_file f) (fst (private_store (disk s)) (c, m))),
       snd (private_store (disk s)))
    else private_store (disk u) = private_store (disk s)) \<and>
   (if r' = Inr () then group_store (disk u') =
      ((fst (group_store (disk s)))((c, m) := map_option (link_file f) (fst (group_store (disk s)) (c, m))),
       snd (group_store (disk s)))
    else group_store (disk u') = group_store (disk s))"
proof -
  have s: "autoc s" "view s = disk s" using assms(1) by (simp_all add: clean_def)
  have linked: "(if r = Inr () then live_store t (disk u) =
        (live_store t (disk s))((c, m) := map_option (link_file f) (live_store t (disk s) (c, m)))
      else live_store t (disk u) = live_store t (disk s)) \<and> (\<forall>t'. t' \<noteq> t \<longrightarrow> disk u t' = disk s t')"
    if "db_execute (file_sql t) [IntV f, IntV c, IntV m] sv s = (r, u)" for t r and u :: session
    using that
  proof (cases rule: db_execute_outcome)
    case (executed d au)
    with file_effect [OF executed(2)] s show ?thesis by simp
  qed simp
  show ?thesis
    using linked [OF assms(2) [unfolded setPrivateMessageFile_def message_updates]]
      linked [OF assms(3) [unfolded setGroupMessageFile_def message_updates]]
    by (auto simp: stored_in_def edit_log_def fwd_log_def)
qed

theorem set_message_file_witness:
  "private_store (disk (snd (setPrivateMessageFile 7 100 5 quiet empty_session))) =
     private_store (disk empty_session)"
proof -
  have "setPrivateMessageFile 7 100 5 quiet empty_session =
      (Inr (), snd (setPrivateMessageFile 7 100 5 quiet empty_session))"
    by (rule fst_run) (simp add: run_eval sql_defs setPrivateMessageFile_def)
  from set_message_file [OF clean_empty this prod.collapse [symmetric]]
  show ?thesis by (simp add: stored_in_def live_store_def empty_session_def fun_eq_iff)
qed

text \<open>
  Linking a reply. When \<open>setPrivateMessageReply\<close> or \<open>setGroupMessageReply\<close> returns, the row
  of that key names the replied message, with the row id of the replied message when it is stored
  in the same family and NULL when it is not; other rows' reply columns, all live messages and both
  logs are as before.
\<close>

theorem set_message_reply:
  assumes "clean s" and "setPrivateMessageReply c m rc rm sv s = (Inr (), u)"
    and "setGroupMessageReply c m rc rm sv s = (Inr (), u')"
  shows "reply_of T_private_messages (disk u) = (reply_of T_private_messages (disk s))((c, m) :=
      map_option (\<lambda>_. (IntV rc, IntV rm,
        case fst (private_store (disk s)) (rc, rm) of None \<Rightarrow> Null | Some l \<Rightarrow> l_id l))
        (reply_of T_private_messages (disk s) (c, m))) \<and>
    private_store (disk u) = private_store (disk s) \<and>
    reply_of T_group_messages (disk u') = (reply_of T_group_messages (disk s))((c, m) :=
      map_option (\<lambda>_. (IntV rc, IntV rm,
        case fst (group_store (disk s)) (rc, rm) of None \<Rightarrow> Null | Some l \<Rightarrow> l_id l))
        (reply_of T_group_messages (disk s) (c, m))) \<and>
    group_store (disk u') = group_store (disk s)"
proof -
  have s: "autoc s" "view s = disk s" using assms(1) by (simp_all add: clean_def)
  have reply: "reply_of t (disk u) = (reply_of t (disk s))((c, m) := map_option (\<lambda>_. (IntV rc, IntV rm,
        case live_store t (disk s) (rc, rm) of None \<Rightarrow> Null | Some l \<Rightarrow> l_id l)) (reply_of t (disk s) (c, m)))
      \<and> live_store t (disk u) = live_store t (disk s) \<and> (\<forall>t'. t' \<noteq> t \<longrightarrow> disk u t' = disk s t')"
    if "db_execute (reply_sql t) [IntV rc, IntV rm, IntV rc, IntV rm, IntV c, IntV m] sv s = (Inr (), u)"
    for t and u :: session
    using that
  proof (cases rule: db_execute_outcome)
    case (executed d au)
    with reply_effect [OF executed(2)] s show ?thesis by simp
  qed simp
  show ?thesis
    using reply [OF assms(2) [unfolded setPrivateMessageReply_def message_updates]]
      reply [OF assms(3) [unfolded setGroupMessageReply_def message_updates]]
    by (simp add: stored_in_def edit_log_def fwd_log_def)
qed

theorem set_message_reply_witness:
  "\<exists>u. setPrivateMessageReply 7 100 7 99 quiet empty_session = (Inr (), u) \<and>
     private_store (disk u) = private_store (disk empty_session)"
proof -
  have "setPrivateMessageReply 7 100 7 99 quiet empty_session =
      (Inr (), snd (setPrivateMessageReply 7 100 7 99 quiet empty_session))"
    by (rule fst_run) (simp add: run_eval sql_defs setPrivateMessageReply_def)
  moreover have "setGroupMessageReply 7 100 7 99 quiet empty_session =
      (Inr (), snd (setGroupMessageReply 7 100 7 99 quiet empty_session))"
    by (rule fst_run) (simp add: run_eval sql_defs setGroupMessageReply_def)
  ultimately show ?thesis using set_message_reply [OF clean_empty] by blast
qed
end
