(* ===== verification/Db_Admins.thy ===== *)
theory Db_Admins
  imports Db_Contract Sql_Keyed
begin

text \<open>
  src/tgloggerd/models/GroupAdmin.{hpp,cpp}: replacing the stored administrators of a group by a
  freshly fetched list, with a history of what changed. The abstract view maps a group and a user
  to status, title, inviter, join date and the 17 privileges.
\<close>

section \<open>Data\<close>

record GroupAdmin =
  a_user_id :: int
  a_is_owner :: bool
  a_custom_title :: string
  a_inviter_user_id :: int
  a_joined_date :: int
  can_manage_chat :: bool
  can_change_info :: bool
  can_post_messages :: bool
  can_edit_messages :: bool
  can_delete_messages :: bool
  can_invite_users :: bool
  can_restrict_members :: bool
  can_pin_messages :: bool
  can_manage_topics :: bool
  can_promote_members :: bool
  can_manage_video_chats :: bool
  can_post_stories :: bool
  can_edit_stories :: bool
  can_delete_stories :: bool
  can_manage_direct_messages :: bool
  can_manage_tags :: bool
  is_anonymous :: bool

record GroupAdminList =
  al_group_id :: int
  al_admins :: "GroupAdmin list"

definition admin_status :: "GroupAdmin \<Rightarrow> string" where
  "admin_status a = (if a_is_owner a then ''creator'' else ''administrator'')"

definition admin_rights :: "GroupAdmin \<Rightarrow> bool list" where
  "admin_rights a =
     [can_manage_chat a, can_change_info a, can_post_messages a, can_edit_messages a,
      can_delete_messages a, can_invite_users a, can_restrict_members a, can_pin_messages a,
      can_manage_topics a, can_promote_members a, can_manage_video_chats a, can_post_stories a,
      can_edit_stories a, can_delete_stories a, can_manage_direct_messages a, can_manage_tags a,
      is_anonymous a]"

definition push_rights :: "sql_val list \<Rightarrow> GroupAdmin \<Rightarrow> sql_val list" where
  "push_rights p a = p @ map b (admin_rights a)"

section \<open>syncGroupAdmins\<close>

text \<open>The columns of the upsert that \<open>ON DUPLICATE KEY\<close> updates, and those of the history.\<close>

definition admin_value_columns :: "string list" where
  "admin_value_columns =
     [''status'', ''custom_title'', ''inviter_user_id'', ''joined_date''] @ admin_right_columns"

definition admin_upsert_sql :: sql_stmt where
  [sql_defs]: "admin_upsert_sql = Insert T_group_admins
     ([''group_id'', ''user_id''] @ admin_value_columns)
     [Arg 0, Arg 1, Arg 2, Arg 3, Arg 4, Arg 5, Arg 6, Arg 7, Arg 8, Arg 9, Arg 10, Arg 11, Arg 12,
      Arg 13, Arg 14, Arg 15, Arg 16, Arg 17, Arg 18, Arg 19, Arg 20, Arg 21, Arg 22]
     (Some admin_value_columns)"

definition admin_hist_sql :: sql_stmt where
  [sql_defs]: "admin_hist_sql = Insert T_group_admin_hist
     ([''group_id'', ''user_id'', ''action'', ''status'', ''custom_title''] @ admin_right_columns)
     [Arg 0, Arg 1, Arg 2, Arg 3, Arg 4, Arg 5, Arg 6, Arg 7, Arg 8, Arg 9, Arg 10, Arg 11, Arg 12,
      Arg 13, Arg 14, Arg 15, Arg 16, Arg 17, Arg 18, Arg 19, Arg 20, Arg 21] None"

definition admin_old_sql :: sql_query where
  [sql_defs]: "admin_old_sql = Select
     (map Col ([''user_id'', ''status'', ''custom_title''] @ admin_right_columns))
     (Some T_group_admins) [(''group_id'', Arg 0)]"

definition admin_delete_sql :: sql_stmt where
  [sql_defs]: "admin_delete_sql = Delete T_group_admins [(''group_id'', Arg 0), (''user_id'', Arg 1)]"

text \<open>\<open>old_map\<close>: user id to row; \<open>emplace\<close> keeps the first.\<close>

type_synonym admin_map = "(int \<times> sql_val list) list"

fun load_admins :: "sql_val list list \<Rightarrow> admin_map \<Rightarrow> admin_map tx" where
  "load_admins [] m = tx_return m"
| "load_admins (r # rs) m =
     (if r ! 0 = Null then load_admins rs m
      else tx_bind (stoll (r ! 0)) (\<lambda>uid.
        load_admins rs (if uid \<in> fst ` set m then m else m @ [(uid, r)])))"

definition admin_changed :: "sql_val list \<Rightarrow> GroupAdmin \<Rightarrow> bool" where
  "admin_changed old a \<longleftrightarrow>
     (if text_or (old ! 1) '''' \<noteq> admin_status a \<or> text_or (old ! 2) '''' \<noteq> a_custom_title a then True
      else list_ex (\<lambda>i. (old ! (3 + i) = IntV 1) \<noteq> admin_rights a ! i) [0..<17])"

definition admin_upsert :: "int \<Rightarrow> admin_map \<Rightarrow> GroupAdmin \<Rightarrow> unit tx" where
  "admin_upsert gid old_map a =
     (let is_new = (map_of old_map (a_user_id a) = None);
          changed = (case map_of old_map (a_user_id a) of None \<Rightarrow> False | Some old \<Rightarrow> admin_changed old a)
      in
      tx_then (do_execute admin_upsert_sql
        (push_rights [IntV gid, IntV (a_user_id a), TextV (admin_status a), TextV (a_custom_title a),
           IntV (a_inviter_user_id a), IntV (a_joined_date a)] a))
      (if is_new \<or> changed then
         do_execute admin_hist_sql
           (push_rights [IntV gid, IntV (a_user_id a),
              TextV (if is_new then ''added'' else ''updated''), TextV (admin_status a),
              TextV (a_custom_title a)] a)
       else tx_return ()))"

definition admin_removal :: "int \<Rightarrow> GroupAdmin list \<Rightarrow> sql_val list \<Rightarrow> unit tx" where
  "admin_removal gid admins r =
     (if r ! 0 = Null then tx_return ()
      else
        tx_bind (stoll (r ! 0)) (\<lambda>uid.
        if uid \<in> a_user_id ` set admins then tx_return ()
        else
          tx_then (do_execute admin_hist_sql
            ([IntV gid, IntV uid, TextV ''removed'', TextV (text_or (r ! 1) ''administrator''),
              TextV (text_or (r ! 2) '''')] @
             map (\<lambda>i. b (r ! (3 + i) = IntV 1)) [0..<17]))
          (do_execute admin_delete_sql [IntV gid, IntV uid])))"

definition syncGroupAdmins_body :: "GroupAdminList \<Rightarrow> unit tx" where
  "syncGroupAdmins_body list =
     tx_bind (do_query admin_old_sql [IntV (al_group_id list)]) (\<lambda>old_rows.
     tx_bind (load_admins old_rows []) (\<lambda>old_map.
     tx_then (tx_for (admin_upsert (al_group_id list) old_map) (al_admins list))
     (tx_for (admin_removal (al_group_id list) (al_admins list)) old_rows)))"

definition syncGroupAdmins :: "GroupAdminList \<Rightarrow> unit tx" where
  "syncGroupAdmins list = transaction (syncGroupAdmins_body list)"

section \<open>Contracts\<close>

context stmt_relation
begin

lemma load_admins_keeps: "keeps R (load_admins rows m)"
  by (induction rows m rule: load_admins.induct) (auto intro!: keeps_rules)

lemma admin_upsert_keeps:
  "allowed admin_upsert_sql \<Longrightarrow> allowed admin_hist_sql \<Longrightarrow> keeps R (admin_upsert gid m a)"
  unfolding admin_upsert_def Let_def by (intro keeps_rules)

lemma admin_removal_keeps:
  "allowed admin_hist_sql \<Longrightarrow> allowed admin_delete_sql \<Longrightarrow> keeps R (admin_removal gid l r)"
  unfolding admin_removal_def by (intro keeps_rules)

lemma syncGroupAdmins_keeps:
  assumes "allowed admin_upsert_sql" and "allowed admin_hist_sql" and "allowed admin_delete_sql"
  shows "keeps R (syncGroupAdmins_body l)"
  unfolding syncGroupAdmins_body_def
  by (intro keeps_rules load_admins_keeps admin_upsert_keeps admin_removal_keeps assms)

end

section \<open>Abstract view\<close>

definition is_admin_row :: "int \<Rightarrow> int \<Rightarrow> row \<Rightarrow> bool" where
  "is_admin_row g u r \<longleftrightarrow> r ''group_id'' = IntV g \<and> r ''user_id'' = IntV u"

definition admin_of :: "db \<Rightarrow> int \<Rightarrow> int \<Rightarrow> sql_val list option" where
  "admin_of d g u = map_option (\<lambda>r. map r admin_value_columns) (find (is_admin_row g u) (d T_group_admins))"

definition admin_values :: "GroupAdmin \<Rightarrow> sql_val list" where
  "admin_values a = push_rights [TextV (admin_status a), TextV (a_custom_title a),
     IntV (a_inviter_user_id a), IntV (a_joined_date a)] a"

text \<open>The last entry of the list for a user.\<close>

definition listed :: "GroupAdmin list \<Rightarrow> int \<Rightarrow> GroupAdmin option" where
  "listed as u = find (\<lambda>a. a_user_id a = u) (rev as)"

definition admin_log :: "db \<Rightarrow> sql_val list list" where
  "admin_log d = map (\<lambda>r. map r ([''group_id'', ''user_id'', ''action'', ''status'', ''custom_title'']
     @ admin_right_columns)) (d T_group_admin_hist)"

text \<open>What one sync records: an event per new or changed listed administrator, then the removals.\<close>

definition admin_event :: "int \<Rightarrow> admin_map \<Rightarrow> GroupAdmin \<Rightarrow> sql_val list list" where
  "admin_event g old a =
     (case map_of old (a_user_id a) of
        None \<Rightarrow> [push_rights [IntV g, IntV (a_user_id a), TextV ''added'', TextV (admin_status a),
          TextV (a_custom_title a)] a]
      | Some r \<Rightarrow>
          if admin_changed r a then [push_rights [IntV g, IntV (a_user_id a), TextV ''updated'',
            TextV (admin_status a), TextV (a_custom_title a)] a]
          else [])"

definition removal_event :: "int \<Rightarrow> GroupAdmin list \<Rightarrow> int \<times> sql_val list \<Rightarrow> sql_val list list" where
  "removal_event g as ur =
     (case ur of (u, r) \<Rightarrow>
        if u \<in> a_user_id ` set as then []
        else [[IntV g, IntV u, TextV ''removed'', TextV (text_or (r ! 1) ''administrator''),
           TextV (text_or (r ! 2) '''')] @ map (\<lambda>i. b (r ! (3 + i) = IntV 1)) [0..<17]])"

definition stored_admins :: "db \<Rightarrow> int \<Rightarrow> admin_map" where
  "stored_admins d g = map (\<lambda>r. (int_or0 (r ''user_id''),
       map r ([''user_id'', ''status'', ''custom_title''] @ admin_right_columns)))
     (filter (\<lambda>r. r ''group_id'' = IntV g \<and> r ''user_id'' \<noteq> Null) (d T_group_admins))"

definition admin_events :: "int \<Rightarrow> admin_map \<Rightarrow> GroupAdmin list \<Rightarrow> sql_val list list" where
  "admin_events g old as = concat (map (admin_event g old) as) @ concat (map (removal_event g as) old)"

section \<open>One statement\<close>

lemma admin_lengths [simp]: "length admin_right_columns = 17" "length (admin_rights a) = 17"
  "length (push_rights p a) = length p + 17" "length admin_value_columns = 21"
  by (simp_all add: admin_right_columns_def admin_rights_def push_rights_def admin_value_columns_def)

lemma admin_keys: "td_auto (schema T_group_admins)"
  "td_uniques (schema T_group_admins) = [[''id''], [''group_id'', ''user_id'']]"
  by (simp_all add: group_admins_def_def)

lemma admin_args:
  "[Arg 0, Arg 1, Arg 2, Arg 3, Arg 4, Arg 5, Arg 6, Arg 7, Arg 8, Arg 9, Arg 10, Arg 11, Arg 12,
    Arg 13, Arg 14, Arg 15, Arg 16, Arg 17, Arg 18, Arg 19, Arg 20, Arg 21, Arg 22] =
     args_from 0 ([''group_id'', ''user_id''] @ admin_value_columns)"
  "[Arg 0, Arg 1, Arg 2, Arg 3, Arg 4, Arg 5, Arg 6, Arg 7, Arg 8, Arg 9, Arg 10, Arg 11, Arg 12,
    Arg 13, Arg 14, Arg 15, Arg 16, Arg 17, Arg 18, Arg 19, Arg 20, Arg 21] =
     args_from 0 ([''group_id'', ''user_id'', ''action'', ''status'', ''custom_title''] @ admin_right_columns)"
  by (simp_all add: admin_value_columns_def admin_right_columns_def)

lemma new_row_values:
  assumes "distinct cols" and "length args = length cols" and "''id'' \<notin> set cols"
  shows "map (new_row w args t cols (args_from 0 cols) au) cols = args"
proof -
  have "new_row w args t cols (args_from 0 cols) au c = the (map_of (zip cols args) c)"
    if c: "c \<in> set cols" for c
  proof -
    have "new_row w args t cols (args_from 0 cols) au c =
        (case map_of (zip cols args) c of None \<Rightarrow> blank_row t c | Some v \<Rightarrow> v)"
      by (rule new_row_args) (use assms c in auto)
    also have "\<dots> = the (map_of (zip cols args) c)"
      by (subst map_of_zip_the [OF c assms(2)]) (simp only: option.case)
    finally show ?thesis .
  qed
  then have "map (new_row w args t cols (args_from 0 cols) au) cols =
      map (\<lambda>c. the (map_of (zip cols args) c)) cols"
    by (intro map_cong) simp_all
  also have "\<dots> = args" by (rule map_of_zip_self) (use assms in simp_all)
  finally show ?thesis .
qed

lemma admin_cols: "distinct ([''group_id'', ''user_id''] @ admin_value_columns)"
  "''id'' \<notin> set ([''group_id'', ''user_id''] @ admin_value_columns)"
  "distinct ([''group_id'', ''user_id'', ''action'', ''status'', ''custom_title''] @ admin_right_columns)"
  "''id'' \<notin> set ([''group_id'', ''user_id'', ''action'', ''status'', ''custom_title''] @ admin_right_columns)"
  by (simp_all add: admin_value_columns_def admin_right_columns_def)

lemma admin_hist_effect:
  assumes "do_execute admin_hist_sql vs sv s = (Inr x, u)" and "length vs = 22"
  shows "admin_log (view u) = admin_log (view s) @ [vs]"
    and "view u T_group_admins = view s T_group_admins"
proof -
  let ?cols = "[''group_id'', ''user_id'', ''action'', ''status'', ''custom_title''] @ admin_right_columns"
  have ex: "exec_stmt (weight sv) vs (Insert T_group_admin_hist ?cols (args_from 0 ?cols) None)
      (view s) (autos s) = Inr (view u, autos u)"
    using assms(1) unfolding admin_hist_sql_def admin_args by (rule do_executeE)
  have "map (new_row (weight sv) vs T_group_admin_hist ?cols (args_from 0 ?cols) (autos s)) ?cols = vs"
    by (rule new_row_values [OF admin_cols(3) _ admin_cols(4)]) (simp add: assms(2))
  with exec_insert_append [OF ex]
  show "admin_log (view u) = admin_log (view s) @ [vs]"
    and "view u T_group_admins = view s T_group_admins"
    by (simp_all add: admin_log_def)
qed

lemma admin_key_single:
  "uniq_rows w T_group_admins (d T_group_admins) \<Longrightarrow>
     length (filter (is_admin_row g u) (d T_group_admins)) \<le> 1"
  by (rule uniq_rows_filter_short [of w T_group_admins])
    (unfold conflict_def admin_keys(2), auto simp: is_admin_row_def)

lemma admin_upsert_effect:
  assumes ok: "db_ok (weight sv) (view s) (autos s)"
    and run: "do_execute admin_upsert_sql (push_rights [IntV g, IntV (a_user_id a),
      TextV (admin_status a), TextV (a_custom_title a), IntV (a_inviter_user_id a),
      IntV (a_joined_date a)] a) sv s = (Inr x, u)"
  shows "admin_of (view u) = (admin_of (view s))
      (g := (admin_of (view s) g)(a_user_id a \<mapsto> admin_values a))"
    and "admin_log (view u) = admin_log (view s)" and "db_ok (weight sv) (view u) (autos u)"
proof -
  let ?t = T_group_admins and ?w = "weight sv" and ?i = "a_user_id a"
  let ?cols = "[''group_id'', ''user_id''] @ admin_value_columns"
  let ?vs = "push_rights [IntV g, IntV ?i, TextV (admin_status a), TextV (a_custom_title a),
      IntV (a_inviter_user_id a), IntV (a_joined_date a)] a"
  have vs: "?vs = [IntV g, IntV ?i] @ admin_values a" by (simp add: admin_values_def push_rights_def)
  define nw where "nw = new_row ?w ?vs ?t ?cols (args_from 0 ?cols) (autos s)"
  have ex: "exec_stmt ?w ?vs (Insert ?t ?cols (args_from 0 ?cols) (Some admin_value_columns))
      (view s) (autos s) = Inr (view u, autos u)"
    using run unfolding admin_upsert_sql_def admin_args by (rule do_executeE)
  have "map nw ?cols = ?vs"
    unfolding nw_def by (rule new_row_values [OF admin_cols(1) _ admin_cols(2)]) simp
  then have new: "nw ''group_id'' = IntV g" "nw ''user_id'' = IntV ?i" "map nw admin_value_columns = admin_values a"
    by (simp_all add: vs)
  have new_id: "nw ''id'' = IntV (autos s ?t)" using admin_keys(1) by (simp add: nw_def new_row_def Let_def)
  have K: "conflict ?w ?t nw r = is_admin_row g ?i r" if r: "r \<in> set (view s ?t)" for r
  proof -
    have "below_counter ?t (view s ?t) (autos s ?t)" using ok by (simp add: db_ok_def)
    then have "r ''id'' \<noteq> IntV (autos s ?t)" using r admin_keys(1) by (auto simp: below_counter_def)
    then show ?thesis unfolding conflict_def admin_keys(2) by (auto simp: new new_id is_admin_row_def)
  qed
  have uniq: "uniq_rows ?w ?t (view s ?t)" using ok by (simp add: db_ok_def)
  have d': "view u = (view s)(?t := upserted (is_admin_row g ?i) admin_value_columns nw (view s ?t))"
    by (rule exec_upsert_rows [OF ex nw_def K admin_key_single [where d = "view s", OF uniq]])
  have upd: "is_admin_row g' u' (copy_cols admin_value_columns nw r) = is_admin_row g' u' r" for g' u' r
    by (simp add: is_admin_row_def copy_cols_apply admin_value_columns_def admin_right_columns_def)
  have upd_vals: "map (copy_cols admin_value_columns nw r) admin_value_columns = admin_values a" for r
    unfolding new(3) [symmetric] by (rule map_cong) (simp_all add: copy_cols_apply)
  have "admin_of (view u) g' u' = ((admin_of (view s))(g := (admin_of (view s) g)(?i \<mapsto> admin_values a))) g' u'"
    for g' u'
  proof (cases "g' = g \<and> u' = ?i")
    case True
    have "find (is_admin_row g ?i) (view u ?t) = Some (case find (is_admin_row g ?i) (view s ?t) of
        None \<Rightarrow> nw | Some old \<Rightarrow> copy_cols admin_value_columns nw old)"
      unfolding d' fun_upd_same by (rule find_upserted_same) (simp_all add: upd, simp add: is_admin_row_def new)
    with True show ?thesis
      by (simp add: admin_of_def new(3) upd_vals split: option.split)
  next
    case False
    have "find (is_admin_row g' u') (view u ?t) = find (is_admin_row g' u') (view s ?t)"
      unfolding d' fun_upd_same
      by (rule find_upserted_other) (use False in \<open>auto simp: upd, auto simp: is_admin_row_def new\<close>)
    with False show ?thesis by (auto simp: admin_of_def)
  qed
  then show "admin_of (view u) = (admin_of (view s))(g := (admin_of (view s) g)(?i \<mapsto> admin_values a))"
    by blast
  show "admin_log (view u) = admin_log (view s)" by (simp add: admin_log_def d')
  show "db_ok ?w (view u) (autos u)" using ok ex by (rule exec_stmt_db_ok)
qed

lemma find_filter_not: "find P (filter (\<lambda>x. \<not> Q x) xs) = find (\<lambda>x. P x \<and> \<not> Q x) xs"
  by (induction xs) auto

lemma admin_delete_effect:
  assumes "do_execute admin_delete_sql [IntV g, IntV i] sv s = (Inr x, u)"
  shows "admin_of (view u) = (admin_of (view s))(g := (admin_of (view s) g)(i := None))"
    and "admin_log (view u) = admin_log (view s)"
proof -
  let ?t = T_group_admins
  have "exec_stmt (weight sv) [IntV g, IntV i] admin_delete_sql (view s) (autos s) = Inr (view u, autos u)"
    using assms by (rule do_executeE)
  then have d': "view u = (view s)(?t := filter (\<lambda>r. \<not> is_admin_row g i r) (view s ?t))"
    by (auto simp: admin_delete_sql_def exec_stmt_def is_admin_row_def split: if_splits)
  have "find (is_admin_row g' u') (view u ?t) = (if g' = g \<and> u' = i then None
      else find (is_admin_row g' u') (view s ?t))" for g' u'
  proof -
    have "(is_admin_row g' u' r \<and> \<not> is_admin_row g i r) = (if g' = g \<and> u' = i then False
        else is_admin_row g' u' r)" for r
      by (auto simp: is_admin_row_def)
    then show ?thesis by (simp add: d' find_filter_not find_None_iff)
  qed
  then show "admin_of (view u) = (admin_of (view s))(g := (admin_of (view s) g)(i := None))"
    by (auto simp: admin_of_def fun_eq_iff)
  show "admin_log (view u) = admin_log (view s)" by (simp add: admin_log_def d')
qed
section \<open>The loops\<close>

definition keyed_rows :: "sql_val list list \<Rightarrow> admin_map" where
  "keyed_rows rows = map (\<lambda>r. (int_or0 (r ! 0), r)) (filter (\<lambda>r. r ! 0 \<noteq> Null) rows)"

lemma load_admins_state: "load_admins rows m sv s = (Inr m', t) \<Longrightarrow> t = s"
  by (induction rows m rule: load_admins.induct)
    (auto simp: stoll_run elim!: tx_bindE tx_returnE split: if_splits)

lemma load_admins_run:
  assumes "load_admins rows m sv s = (Inr m', t)" and "distinct (map fst (m @ keyed_rows rows))"
  shows "m' = m @ keyed_rows rows"
  using assms
proof (induction rows arbitrary: m)
  case (Cons r rs)
  show ?case
  proof (cases "r ! 0 = Null")
    case False
    then obtain i where i: "r ! 0 = IntV i"
      and rest: "load_admins rs (if i \<in> fst ` set m then m else m @ [(i, r)]) sv s = (Inr m', t)"
      using Cons.prems(1) by (auto simp: stoll_run elim!: tx_bindE)
    have keyed: "keyed_rows (r # rs) = (i, r) # keyed_rows rs" by (simp add: keyed_rows_def i)
    with Cons.prems(2) have "i \<notin> fst ` set m" by auto
    with rest have "load_admins rs (m @ [(i, r)]) sv s = (Inr m', t)" by simp
    moreover have "distinct (map fst ((m @ [(i, r)]) @ keyed_rows rs))"
      using Cons.prems(2) unfolding keyed by simp
    ultimately have "m' = (m @ [(i, r)]) @ keyed_rows rs" by (rule Cons.IH)
    then show ?thesis by (simp add: keyed)
  qed (use Cons in \<open>simp add: keyed_rows_def\<close>)
qed (auto simp: keyed_rows_def elim: tx_returnE)

lemma admin_of_frame: "d' T_group_admins = d T_group_admins \<Longrightarrow> admin_of d' = admin_of d"
  by (simp add: admin_of_def fun_eq_iff)

lemma admin_upsert_run:
  assumes ok: "db_ok (weight sv) (view s) (autos s)"
    and run: "admin_upsert g old a sv s = (Inr (), u)"
  shows "admin_of (view u) = (admin_of (view s))
      (g := (admin_of (view s) g)(a_user_id a \<mapsto> admin_values a)) \<and>
    admin_log (view u) = admin_log (view s) @ admin_event g old a \<and>
    db_ok (weight sv) (view u) (autos u)"
proof -
  have "db_ok (weight sv) (view u) (autos u)"
  proof -
    have "keeps (on_view db_ok) (admin_upsert g old a)" by (rule integrity.admin_upsert_keeps) simp_all
    from keepsD [OF this run] ok show ?thesis by (simp add: on_view_def)
  qed
  moreover obtain v where v: "do_execute admin_upsert_sql (push_rights [IntV g, IntV (a_user_id a),
      TextV (admin_status a), TextV (a_custom_title a), IntV (a_inviter_user_id a),
      IntV (a_joined_date a)] a) sv s = (Inr (), v)"
    and rest: "(if map_of old (a_user_id a) = None \<or> (case map_of old (a_user_id a) of None \<Rightarrow> False
        | Some r \<Rightarrow> admin_changed r a) then
       do_execute admin_hist_sql (push_rights [IntV g, IntV (a_user_id a),
         TextV (if map_of old (a_user_id a) = None then ''added'' else ''updated''),
         TextV (admin_status a), TextV (a_custom_title a)] a)
       else tx_return ()) sv v = (Inr (), u)"
    using run unfolding admin_upsert_def Let_def by (rule tx_thenE) (rule that)
  note up = admin_upsert_effect [OF ok v]
  have "admin_of (view u) = admin_of (view v) \<and> admin_log (view u) = admin_log (view v) @ admin_event g old a"
  proof (cases "map_of old (a_user_id a) = None \<or> (case map_of old (a_user_id a) of None \<Rightarrow> False
        | Some r \<Rightarrow> admin_changed r a)")
    case True
    with rest have "do_execute admin_hist_sql (push_rights [IntV g, IntV (a_user_id a),
         TextV (if map_of old (a_user_id a) = None then ''added'' else ''updated''),
         TextV (admin_status a), TextV (a_custom_title a)] a) sv v = (Inr (), u)" by simp
    note h = admin_hist_effect [OF this]
    have len: "length (push_rights [IntV g, IntV (a_user_id a),
         TextV (if map_of old (a_user_id a) = None then ''added'' else ''updated''),
         TextV (admin_status a), TextV (a_custom_title a)] a) = 22" by simp
    show ?thesis
      using True h(1) [OF len] admin_of_frame [where d = "view v" and d' = "view u", OF h(2) [OF len]]
      by (cases "map_of old (a_user_id a)") (simp_all add: admin_event_def)
  next
    case False
    with rest have "u = v" by (auto elim: tx_returnE)
    with False show ?thesis by (cases "map_of old (a_user_id a)") (simp_all add: admin_event_def)
  qed
  ultimately show ?thesis using up by simp
qed

lemma listed_simps [simp]: "listed [] u = None"
  "listed (a # as) u = (case listed as u of None \<Rightarrow> if a_user_id a = u then Some a else None | Some x \<Rightarrow> Some x)"
  by (simp_all add: listed_def find_append split: option.split)

lemma listed_None_iff: "listed as u = None \<longleftrightarrow> u \<notin> a_user_id ` set as"
  by (auto simp: listed_def find_None_iff)

lemma admin_upserts_run:
  assumes "db_ok (weight sv) (view s) (autos s)"
    and "tx_for (admin_upsert g old) as sv s = (Inr (), u)"
  shows "admin_of (view u) = (admin_of (view s))(g := (\<lambda>i. case listed as i of
      None \<Rightarrow> admin_of (view s) g i | Some a \<Rightarrow> Some (admin_values a))) \<and>
    admin_log (view u) = admin_log (view s) @ concat (map (admin_event g old) as)"
  using assms
proof (induction as arbitrary: s)
  case (Cons a as)
  obtain v where v: "admin_upsert g old a sv s = (Inr (), v)"
    and rest: "tx_for (admin_upsert g old) as sv v = (Inr (), u)"
    using Cons.prems(2) unfolding tx_for.simps by (rule tx_thenE) (rule that)
  note one = admin_upsert_run [OF Cons.prems(1) v]
  have u: "admin_of (view u) = (admin_of (view v))(g := (\<lambda>i. case listed as i of
      None \<Rightarrow> admin_of (view v) g i | Some a \<Rightarrow> Some (admin_values a)))"
    "admin_log (view u) = admin_log (view v) @ concat (map (admin_event g old) as)"
    using Cons.IH [OF _ rest] one by blast+
  have v': "admin_of (view v) = (admin_of (view s))
      (g := (admin_of (view s) g)(a_user_id a \<mapsto> admin_values a))"
    "admin_log (view v) = admin_log (view s) @ admin_event g old a" using one by blast+
  have "admin_of (view u) g' i = ((admin_of (view s))(g := (\<lambda>i. case listed (a # as) i of
      None \<Rightarrow> admin_of (view s) g i | Some a \<Rightarrow> Some (admin_values a)))) g' i" for g' i
    unfolding u(1) v'(1) by (cases "listed as i") auto
  then show ?case using u(2) v'(2) by auto
qed (auto elim: tx_returnE)
lemma admin_removal_run:
  assumes run: "admin_removal g as r sv s = (Inr (), u)"
  shows "admin_of (view u) = (if r ! 0 \<noteq> Null \<and> int_or0 (r ! 0) \<notin> a_user_id ` set as
      then (admin_of (view s))(g := (admin_of (view s) g)(int_or0 (r ! 0) := None)) else admin_of (view s))"
    and "admin_log (view u) = admin_log (view s) @ concat (map (removal_event g as) (keyed_rows [r]))"
proof -
  let ?goal1 = "admin_of (view u) = (if r ! 0 \<noteq> Null \<and> int_or0 (r ! 0) \<notin> a_user_id ` set as
      then (admin_of (view s))(g := (admin_of (view s) g)(int_or0 (r ! 0) := None)) else admin_of (view s))"
  let ?goal2 = "admin_log (view u) = admin_log (view s) @ concat (map (removal_event g as) (keyed_rows [r]))"
  have "?goal1 \<and> ?goal2"
  proof (cases "r ! 0 = Null")
    case True
    with run show ?thesis by (auto simp: admin_removal_def keyed_rows_def elim!: tx_returnE)
  next
    case False
    let ?k = "\<lambda>i. [IntV g, IntV i, TextV ''removed'', TextV (text_or (r ! 1) ''administrator''),
      TextV (text_or (r ! 2) '''')] @ map (\<lambda>i. b (r ! (3 + i) = IntV 1)) [0..<17]"
    from False run obtain i where i: "r ! 0 = IntV i"
      and rest: "(if i \<in> a_user_id ` set as then tx_return () else
        tx_then (do_execute admin_hist_sql (?k i)) (do_execute admin_delete_sql [IntV g, IntV i])) sv s
        = (Inr (), u)"
      unfolding admin_removal_def by (auto simp: stoll_run elim!: tx_bindE)
    show ?thesis
    proof (cases "i \<in> a_user_id ` set as")
      case True
      with rest i show ?thesis by (auto simp: keyed_rows_def removal_event_def elim!: tx_returnE)
    next
      case False
      with rest have "tx_then (do_execute admin_hist_sql (?k i))
          (do_execute admin_delete_sql [IntV g, IntV i]) sv s = (Inr (), u)" by simp
      then obtain v where h: "do_execute admin_hist_sql (?k i) sv s = (Inr (), v)"
        and d: "do_execute admin_delete_sql [IntV g, IntV i] sv v = (Inr (), u)"
        by (rule tx_thenE) (rule that)
      have len: "length (?k i) = 22" by simp
      note h = admin_hist_effect [OF h len]
      from admin_delete_effect [OF d] h(1) admin_of_frame [where d = "view s" and d' = "view v", OF h(2)] False i
      show ?thesis by (simp add: keyed_rows_def removal_event_def del: upt.simps)
    qed
  qed
  then show ?goal1 and ?goal2 by blast+
qed

lemma admin_removals_run:
  assumes "tx_for (admin_removal g as) rows sv s = (Inr (), u)"
  shows "admin_of (view u) = (admin_of (view s))(g := (\<lambda>i. if i \<in> fst ` set (keyed_rows rows) \<and>
      i \<notin> a_user_id ` set as then None else admin_of (view s) g i)) \<and>
    admin_log (view u) = admin_log (view s) @ concat (map (removal_event g as) (keyed_rows rows))"
  using assms
proof (induction rows arbitrary: s)
  case (Cons r rows)
  obtain v where v: "admin_removal g as r sv s = (Inr (), v)"
    and rest: "tx_for (admin_removal g as) rows sv v = (Inr (), u)"
    using Cons.prems unfolding tx_for.simps by (rule tx_thenE) (rule that)
  note one = admin_removal_run [OF v] and u = Cons.IH [OF rest]
  have keyed: "keyed_rows (r # rows) = keyed_rows [r] @ keyed_rows rows" by (simp add: keyed_rows_def)
  have "admin_of (view u) g' i = ((admin_of (view s))(g := (\<lambda>i. if i \<in> fst ` set (keyed_rows (r # rows)) \<and>
      i \<notin> a_user_id ` set as then None else admin_of (view s) g i))) g' i" for g' i
    unfolding u [THEN conjunct1] one(1) by (auto simp: keyed_rows_def)
  then show ?case using u [THEN conjunct2] one(2) unfolding keyed by auto
qed (auto simp: keyed_rows_def elim: tx_returnE)
section \<open>The whole sync\<close>

text \<open>What the history keeps of a stored administrator: status, title and privileges.\<close>

definition history_part :: "sql_val list \<Rightarrow> sql_val list" where
  "history_part vs = take 2 vs @ drop 4 vs"

lemma load_admins_ints:
  "load_admins rows m sv s = (Inr m', t) \<Longrightarrow> r \<in> set rows \<Longrightarrow> r ! 0 = Null \<or> (\<exists>i. r ! 0 = IntV i)"
  by (induction rows m rule: load_admins.induct)
    (auto simp: stoll_run elim!: tx_bindE tx_returnE split: if_splits)

lemma stored_admins_distinct:
  assumes "uniq_rows w T_group_admins rs"
    and "\<And>r. r \<in> set rs \<Longrightarrow> r ''group_id'' = IntV g \<Longrightarrow> r ''user_id'' = Null \<or> (\<exists>i. r ''user_id'' = IntV i)"
  shows "distinct (map (\<lambda>r. int_or0 (r ''user_id'')) (filter (\<lambda>r. r ''group_id'' = IntV g \<and> r ''user_id'' \<noteq> Null) rs))"
  using assms
proof (induction rs)
  case (Cons r rs)
  have "\<not> (r' ''group_id'' = IntV g \<and> r' ''user_id'' \<noteq> Null \<and> int_or0 (r' ''user_id'') = i)"
    if r: "r ''group_id'' = IntV g" "r ''user_id'' = IntV i" and r': "r' \<in> set rs" for r' i
  proof
    assume *: "r' ''group_id'' = IntV g \<and> r' ''user_id'' \<noteq> Null \<and> int_or0 (r' ''user_id'') = i"
    with Cons.prems(2) [of r'] r' have "r' ''user_id'' = IntV i" by auto
    with * r have "conflict w T_group_admins r r'" unfolding conflict_def admin_keys(2) by auto
    with Cons.prems(1) r' show False by auto
  qed
  with Cons show ?case by fastforce
qed simp

lemma map_of_stored:
  assumes "\<forall>r\<in>set rs. r ''group_id'' = IntV g \<longrightarrow> r ''user_id'' = Null \<or> (\<exists>i. r ''user_id'' = IntV i)"
  shows "map_of (map (\<lambda>r. (int_or0 (r ''user_id''),
      map r ([''user_id'', ''status'', ''custom_title''] @ admin_right_columns)))
      (filter (\<lambda>r. r ''group_id'' = IntV g \<and> r ''user_id'' \<noteq> Null) rs)) i =
    map_option (\<lambda>vs. IntV i # history_part vs)
      (map_option (\<lambda>r. map r admin_value_columns) (find (is_admin_row g i) rs))"
  using assms
proof (induction rs)
  case (Cons r rs)
  from Cons have IH: "map_of (map (\<lambda>r. (int_or0 (r ''user_id''),
      map r ([''user_id'', ''status'', ''custom_title''] @ admin_right_columns)))
      (filter (\<lambda>r. r ''group_id'' = IntV g \<and> r ''user_id'' \<noteq> Null) rs)) i =
    map_option (\<lambda>vs. IntV i # history_part vs)
      (map_option (\<lambda>r. map r admin_value_columns) (find (is_admin_row g i) rs))"
    by simp
  show ?case
  proof (cases "r ''group_id'' = IntV g")
    case True
    with Cons.prems consider "r ''user_id'' = Null" | j where "r ''user_id'' = IntV j" by auto
    then show ?thesis
      using IH True
      by cases (auto simp: is_admin_row_def [abs_def] history_part_def admin_value_columns_def)
  qed (use IH in \<open>simp add: is_admin_row_def [abs_def]\<close>)
qed simp

lemma syncGroupAdmins_body_run:
  assumes ok: "db_ok (weight sv) (view s) (autos s)"
    and run: "syncGroupAdmins_body l sv s = (Inr (), u)"
  shows "admin_of (view u) = (admin_of (view s))
      (al_group_id l := (\<lambda>i. map_option admin_values (listed (al_admins l) i))) \<and>
    admin_log (view u) = admin_log (view s) @
      admin_events (al_group_id l) (stored_admins (view s) (al_group_id l)) (al_admins l) \<and>
    (\<forall>i. map_of (stored_admins (view s) (al_group_id l)) i =
      map_option (\<lambda>vs. IntV i # history_part vs) (admin_of (view s) (al_group_id l) i))"
proof -
  let ?g = "al_group_id l" and ?cols = "[''user_id'', ''status'', ''custom_title''] @ admin_right_columns"
  from run obtain rows v old v' v2 where q: "do_query admin_old_sql [IntV ?g] sv s = (Inr rows, v)"
    and load: "load_admins rows [] sv v = (Inr old, v')"
    and ups: "tx_for (admin_upsert ?g old) (al_admins l) sv v' = (Inr (), v2)"
    and rem: "tx_for (admin_removal ?g (al_admins l)) rows sv v2 = (Inr (), u)"
    unfolding syncGroupAdmins_body_def by (elim tx_bindE tx_thenE) (rule that)
  from q have view: "view v = view s" "autos v = autos s"
    and "exec_query (weight sv) [IntV ?g] admin_old_sql (view s) = Inr rows" by (auto elim: do_queryE)
  then have rows: "rows = map (\<lambda>r. map r ?cols) (filter (\<lambda>r. r ''group_id'' = IntV ?g) (view s T_group_admins))"
    by (simp add: admin_old_sql_def exec_query_Inr_iff comp_def del: append.simps)
  have stored: "keyed_rows rows = stored_admins (view s) ?g"
    by (simp add: rows keyed_rows_def stored_admins_def filter_map comp_def conj_commute)
  have ints: "r ''user_id'' = Null \<or> (\<exists>i. r ''user_id'' = IntV i)"
    if "r \<in> set (view s T_group_admins)" "r ''group_id'' = IntV ?g" for r
    using load_admins_ints [OF load, of "map r ?cols"] that by (auto simp: rows)
  have "uniq_rows (weight sv) T_group_admins (view s T_group_admins)" using ok by (simp add: db_ok_def)
  then have "distinct (map fst (stored_admins (view s) ?g))"
    using stored_admins_distinct ints by (simp add: stored_admins_def comp_def)
  then have old: "old = stored_admins (view s) ?g"
    using load_admins_run [OF load] by (simp add: stored)
  have v': "v' = v" by (rule load_admins_state [OF load])
  have "db_ok (weight sv) (view v) (autos v)" using ok view by simp
  note up = admin_upserts_run [OF this ups [unfolded v']] and rm = admin_removals_run [OF rem]
  have found: "map_of (stored_admins (view s) ?g) i =
      map_option (\<lambda>vs. IntV i # history_part vs) (admin_of (view s) ?g i)" for i
    unfolding stored_admins_def admin_of_def by (rule map_of_stored) (use ints in blast)
  then have none: "admin_of (view s) ?g i = None" if "i \<notin> fst ` set (stored_admins (view s) ?g)" for i
    using that map_of_eq_None_iff [of "stored_admins (view s) ?g" i] by simp
  have "admin_of (view u) g' i = ((admin_of (view s))
      (?g := (\<lambda>i. map_option admin_values (listed (al_admins l) i)))) g' i" for g' i
    unfolding rm [THEN conjunct1] up [THEN conjunct1] view(1) stored
    using none by (cases "listed (al_admins l) i") (auto simp: listed_None_iff [symmetric])
  then have "admin_of (view u) = (admin_of (view s))
      (?g := (\<lambda>i. map_option admin_values (listed (al_admins l) i)))"
    by (intro ext)
  moreover have "admin_log (view u) = admin_log (view s) @
      admin_events ?g (stored_admins (view s) ?g) (al_admins l)"
    using rm up by (simp add: view stored old admin_events_def)
  ultimately show ?thesis using found by blast
qed
section \<open>Properties\<close>

lemma syncGroupAdmins_run:
  assumes run: "syncGroupAdmins l sv s = (Inr (), t)" and s: "clean s"
    and ok: "db_ok (weight sv) (disk s) (autos s)"
  shows "admin_of (disk t) = (admin_of (disk s))
      (al_group_id l := (\<lambda>i. map_option admin_values (listed (al_admins l) i)))"
    and "admin_log (disk t) = admin_log (disk s) @
      admin_events (al_group_id l) (stored_admins (disk s) (al_group_id l)) (al_admins l)"
    and "map_of (stored_admins (disk s) (al_group_id l)) i =
      map_option (\<lambda>vs. IntV i # history_part vs) (admin_of (disk s) (al_group_id l) i)"
    and "db_ok (weight sv) (disk t) (autos t)" and "disk t T_users = disk s T_users"
proof -
  have kept: "keeps (on_view db_ok) (syncGroupAdmins_body l)"
    by (rule integrity.syncGroupAdmins_keeps) simp_all
  have fr: "keeps (view_rel (untouched {T_users})) (syncGroupAdmins_body l)"
    by (rule frame.syncGroupAdmins_keeps)
      (simp_all add: admin_upsert_sql_def admin_hist_sql_def admin_delete_sql_def)
  have view: "view s = disk s" using s by (rule clean_begun)
  with ok have ok': "db_ok (weight sv) (view s) (autos s)" by simp
  obtain s1 s2 where *: "syncGroupAdmins_body l sv s1 = (Inr (), s2)"
    "db_ok (weight sv) (view s1) (autos s1)" "view s1 = view s" "disk t = view s2" "view t = view s2"
    "db_ok (weight sv) (view t) (autos t)"
    by (rule transaction_run [OF run [unfolded syncGroupAdmins_def] kept ok']) (rule that)
  note r = syncGroupAdmins_body_run [OF *(2,1)]
  show "admin_of (disk t) = (admin_of (disk s))
      (al_group_id l := (\<lambda>i. map_option admin_values (listed (al_admins l) i)))"
    "admin_log (disk t) = admin_log (disk s) @
      admin_events (al_group_id l) (stored_admins (disk s) (al_group_id l)) (al_admins l)"
    "map_of (stored_admins (disk s) (al_group_id l)) i =
      map_option (\<lambda>vs. IntV i # history_part vs) (admin_of (disk s) (al_group_id l) i)"
    using r by (simp_all add: * view)
  show "db_ok (weight sv) (disk t) (autos t)" using * by simp
  show "disk t T_users = disk s T_users"
    using keepsD [OF fr *(1)] * view by (simp add: view_rel_def untouched_def)
qed

text \<open>Replaying the history.\<close>

fun replay_step :: "(int \<Rightarrow> int \<Rightarrow> sql_val list option) \<Rightarrow> sql_val list \<Rightarrow> int \<Rightarrow> int \<Rightarrow> sql_val list option" where
  "replay_step m (IntV g # IntV u # act # vals) =
     m(g := (m g)(u := (if act = TextV ''removed'' then None else Some vals)))"
| "replay_step m _ = m"

definition replay_admins :: "sql_val list list \<Rightarrow> int \<Rightarrow> int \<Rightarrow> sql_val list option" where
  "replay_admins es = foldl replay_step (\<lambda>_ _. None) es"

text \<open>The stored administrators are what the history says, and were written by a sync.\<close>

definition admins_recorded :: "db \<Rightarrow> bool" where
  "admins_recorded d \<longleftrightarrow>
     (\<forall>g u. replay_admins (admin_log d) g u = map_option history_part (admin_of d g u) \<and>
        (\<forall>vs. admin_of d g u = Some vs \<longrightarrow> vs \<in> range admin_values))"
lemma history_part_values: "history_part (admin_values a) =
    [TextV (admin_status a), TextV (a_custom_title a)] @ map b (admin_rights a)"
  by (simp add: history_part_def admin_values_def push_rights_def)

lemma admin_changed_history:
  "admin_changed (IntV i # history_part (admin_values a0)) a \<longleftrightarrow>
     history_part (admin_values a0) \<noteq> history_part (admin_values a)"
proof -
  have "(map b (admin_rights a0) ! i = IntV 1) = admin_rights a0 ! i" if "i < 17" for i
    using that by (simp add: b_def)
  then have "list_ex (\<lambda>i. (map b (admin_rights a0) ! i = IntV 1) \<noteq> admin_rights a ! i) [0..<17] \<longleftrightarrow>
      (\<exists>i<17. admin_rights a0 ! i \<noteq> admin_rights a ! i)"
    by (auto simp: list_ex_iff)
  also have "\<dots> \<longleftrightarrow> admin_rights a0 \<noteq> admin_rights a" by (auto simp: list_eq_iff_nth_eq)
  finally have "list_ex (\<lambda>i. (map b (admin_rights a0) ! i = IntV 1) \<noteq> admin_rights a ! i) [0..<17] \<longleftrightarrow>
      admin_rights a0 \<noteq> admin_rights a" .
  moreover have "map b xs = map b ys \<longleftrightarrow> xs = ys" for xs ys :: "bool list"
    by (rule inj_map_eq_map) (auto simp: inj_def b_def)
  ultimately show ?thesis
    by (auto simp: admin_changed_def history_part_values simp del: upt.simps upt_rec_numeral)
qed

lemma replay_event:
  "foldl replay_step m (admin_event g old a) =
     (if admin_event g old a = [] then m else m(g := (m g)(a_user_id a \<mapsto> history_part (admin_values a))))"
  by (simp add: admin_event_def push_rights_def history_part_values split: option.split)

lemma replay_upserts:
  assumes "distinct (map a_user_id as)"
  shows "foldl replay_step m (concat (map (admin_event g old) as)) =
    m(g := (\<lambda>i. case listed as i of None \<Rightarrow> m g i
       | Some a \<Rightarrow> if admin_event g old a = [] then m g i else Some (history_part (admin_values a))))"
  using assms
proof (induction as arbitrary: m)
  case (Cons a as)
  have "a_user_id a \<notin> a_user_id ` set as" using Cons.prems by simp
  then have none: "listed as (a_user_id a) = None" by (simp add: listed_None_iff)
  show ?case
    using Cons none by (auto simp: replay_event fun_eq_iff split: option.split)
qed simp

lemma replay_removals:
  "foldl replay_step m (concat (map (removal_event g as) old)) =
    m(g := (\<lambda>i. if i \<in> fst ` set old \<and> i \<notin> a_user_id ` set as then None else m g i))"
  by (induction old arbitrary: m) (auto simp: removal_event_def fun_eq_iff simp del: upt.simps upt_rec_numeral)
lemma replay_sync:
  assumes "distinct (map a_user_id as)"
    and "\<And>i. map_of old i = map_option (\<lambda>vs. IntV i # history_part vs) (st i)"
    and "\<And>i. m g i = map_option history_part (st i)" and "\<And>i vs. st i = Some vs \<Longrightarrow> vs \<in> range admin_values"
  shows "foldl replay_step m (admin_events g old as) =
    m(g := (\<lambda>i. map_option (\<lambda>a. history_part (admin_values a)) (listed as i)))"
proof -
  have same: "m g i = Some (history_part (admin_values a))"
    if a: "listed as i = Some a" and none: "admin_event g old a = []" for i a
  proof -
    have i: "a_user_id a = i" using find_Some_mem a by (fastforce simp: listed_def)
    obtain vs where vs: "st i = Some vs" and ch: "\<not> admin_changed (IntV i # history_part vs) a"
      using none by (auto simp: admin_event_def assms(2) i split: option.splits if_splits)
    obtain a0 where "vs = admin_values a0" using assms(4) [OF vs] by auto
    with ch have "history_part vs = history_part (admin_values a)" by (simp add: admin_changed_history)
    with vs show ?thesis by (simp add: assms(3))
  qed
  have gone: "m g i = None" if "i \<notin> fst ` set old" for i
    using that assms(2) [of i] map_of_eq_None_iff [of old i] by (simp add: assms(3))
  have "foldl replay_step m (admin_events g old as) g' i =
      (m(g := (\<lambda>i. map_option (\<lambda>a. history_part (admin_values a)) (listed as i)))) g' i" for g' i
    unfolding admin_events_def foldl_append replay_upserts [OF assms(1)] replay_removals
    using same gone by (cases "listed as i") (auto simp: listed_None_iff [symmetric])
  then show ?thesis by (intro ext)
qed

section \<open>The sync against its specification\<close>

text \<open>
  What a list of administrators means for the database, column by column and independent of the
  statements: the 21 columns of a stored administrator, and what an entry of the history holds.
\<close>

definition flag :: "bool \<Rightarrow> sql_val" where
  "flag v = (if v then IntV 1 else IntV 0)"

definition admin_fields :: "GroupAdmin \<Rightarrow> (string \<times> sql_val) list" where
  "admin_fields a =
     [(''status'', TextV (if a_is_owner a then ''creator'' else ''administrator'')),
      (''custom_title'', TextV (a_custom_title a)),
      (''inviter_user_id'', IntV (a_inviter_user_id a)),
      (''joined_date'', IntV (a_joined_date a)),
      (''can_manage_chat'', flag (can_manage_chat a)),
      (''can_change_info'', flag (can_change_info a)),
      (''can_post_messages'', flag (can_post_messages a)),
      (''can_edit_messages'', flag (can_edit_messages a)),
      (''can_delete_messages'', flag (can_delete_messages a)),
      (''can_invite_users'', flag (can_invite_users a)),
      (''can_restrict_members'', flag (can_restrict_members a)),
      (''can_pin_messages'', flag (can_pin_messages a)),
      (''can_manage_topics'', flag (can_manage_topics a)),
      (''can_promote_members'', flag (can_promote_members a)),
      (''can_manage_video_chats'', flag (can_manage_video_chats a)),
      (''can_post_stories'', flag (can_post_stories a)),
      (''can_edit_stories'', flag (can_edit_stories a)),
      (''can_delete_stories'', flag (can_delete_stories a)),
      (''can_manage_direct_messages'', flag (can_manage_direct_messages a)),
      (''can_manage_tags'', flag (can_manage_tags a)),
      (''is_anonymous'', flag (is_anonymous a))]"

definition privilege_view :: "string list" where
  "privilege_view =
     [''can_manage_chat'', ''can_change_info'', ''can_post_messages'', ''can_edit_messages'',
      ''can_delete_messages'', ''can_invite_users'', ''can_restrict_members'', ''can_pin_messages'',
      ''can_manage_topics'', ''can_promote_members'', ''can_manage_video_chats'', ''can_post_stories'',
      ''can_edit_stories'', ''can_delete_stories'', ''can_manage_direct_messages'', ''can_manage_tags'',
      ''is_anonymous'']"

definition admin_view :: "string list" where
  "admin_view = [''status'', ''custom_title'', ''inviter_user_id'', ''joined_date''] @ privilege_view"

definition history_view :: "string list" where
  "history_view = [''status'', ''custom_title''] @ privilege_view"

definition columns_of :: "string list \<Rightarrow> row \<Rightarrow> (string \<times> sql_val) list" where
  "columns_of cs r = map (\<lambda>c. (c, r c)) cs"

definition stored_admin :: "db \<Rightarrow> int \<Rightarrow> int \<Rightarrow> (string \<times> sql_val) list option" where
  "stored_admin d g u = map_option (columns_of admin_view) (find (is_admin_row g u) (d T_group_admins))"

text \<open>The stored administrators of a group with what the history is interested in, in stored order.\<close>

definition admin_roll :: "db \<Rightarrow> int \<Rightarrow> (int \<times> (string \<times> sql_val) list) list" where
  "admin_roll d g = map (\<lambda>r. (int_or0 (r ''user_id''), columns_of history_view r))
     (filter (\<lambda>r. r ''group_id'' = IntV g \<and> r ''user_id'' \<noteq> Null) (d T_group_admins))"

type_synonym history_entry = "sql_val \<times> sql_val \<times> sql_val \<times> (string \<times> sql_val) list"

definition admin_history :: "db \<Rightarrow> history_entry list" where
  "admin_history d =
     map (\<lambda>r. (r ''group_id'', r ''user_id'', r ''action'', columns_of history_view r)) (d T_group_admin_hist)"

text \<open>
  A stored column as text or as a privilege; a missing text counts as the given default, and a
  privilege is held if the column is 1.
\<close>

definition read_column :: "string \<Rightarrow> string \<times> sql_val \<Rightarrow> string \<times> sql_val" where
  "read_column status cv =
     (case cv of (c, v) \<Rightarrow> (c,
        if c = ''status'' then (case v of TextV x \<Rightarrow> v | _ \<Rightarrow> TextV status)
        else if c = ''custom_title'' then (case v of TextV x \<Rightarrow> v | _ \<Rightarrow> TextV '''')
        else flag (v = IntV 1)))"

definition history_fields :: "GroupAdmin \<Rightarrow> (string \<times> sql_val) list" where
  "history_fields a = filter (\<lambda>(c, v). c \<noteq> ''inviter_user_id'' \<and> c \<noteq> ''joined_date'') (admin_fields a)"

text \<open>
  The history of one sync: \<open>added\<close> for a listed administrator that was not stored, \<open>updated\<close> for one
  whose status, title or any privilege is another than the stored one, and then \<open>removed\<close>, with what
  was stored, for every stored administrator that is not listed.
\<close>

definition sync_history :: "int \<Rightarrow> (int \<times> (string \<times> sql_val) list) list \<Rightarrow> GroupAdmin list \<Rightarrow> history_entry list" where
  "sync_history g roll as =
     concat (map (\<lambda>a.
       (case map_of roll (a_user_id a) of
          None \<Rightarrow> [(IntV g, IntV (a_user_id a), TextV ''added'', history_fields a)]
        | Some old \<Rightarrow>
            if map (read_column '''') old = history_fields a then []
            else [(IntV g, IntV (a_user_id a), TextV ''updated'', history_fields a)])) as) @
     concat (map (\<lambda>(u, old).
       if \<exists>a\<in>set as. a_user_id a = u then []
       else [(IntV g, IntV u, TextV ''removed'', map (read_column ''administrator'') old)]) roll)"

lemma views: "admin_view = admin_value_columns" "history_view = [''status'', ''custom_title''] @ admin_right_columns"
  by (simp_all add: admin_view_def history_view_def privilege_view_def admin_value_columns_def admin_right_columns_def)

lemma columns_of_zip: "columns_of cs r = zip cs (map r cs)"
  by (induction cs) (simp_all add: columns_of_def)

lemma admin_fields_values: "zip admin_view (admin_values a) = admin_fields a"
  by (simp add: admin_fields_def admin_view_def privilege_view_def admin_values_def push_rights_def admin_rights_def
      admin_status_def flag_def b_def)

lemma history_fields_eq:
  "history_fields a = zip history_view ([TextV (admin_status a), TextV (a_custom_title a)] @ map b (admin_rights a))"
  by (simp add: history_fields_def admin_fields_def history_view_def privilege_view_def admin_rights_def admin_status_def
      flag_def b_def)

lemma stored_admin_of: "stored_admin d = (\<lambda>g u. map_option (zip admin_view) (admin_of d g u))"
  by (simp add: fun_eq_iff stored_admin_def admin_of_def option.map_comp comp_def columns_of_zip [abs_def] views(1))

text \<open>A row of the history, and a stored administrator, in the form the code reads and writes them.\<close>

definition entry_of :: "sql_val list \<Rightarrow> history_entry" where
  "entry_of vs = (vs ! 0, vs ! 1, vs ! 2, zip history_view (drop 3 vs))"

lemma admin_history_log: "admin_history d = map entry_of (admin_log d)"
  by (simp add: admin_history_def admin_log_def entry_of_def columns_of_zip views(2))

lemma entry_of_written:
  "entry_of (push_rights [g, u, act, TextV (admin_status a), TextV (a_custom_title a)] a) = (g, u, act, history_fields a)"
  by (simp add: entry_of_def push_rights_def history_fields_eq)

lemma admin_roll_stored: "admin_roll d g = map (\<lambda>(u, vs). (u, zip history_view (tl vs))) (stored_admins d g)"
  by (simp add: admin_roll_def stored_admins_def columns_of_zip views(2) comp_def)

lemma map_of_roll: "map_of (admin_roll d g) u = map_option (\<lambda>vs. zip history_view (tl vs)) (map_of (stored_admins d g) u)"
  by (simp add: admin_roll_stored map_of_map)


lemma length_admin_privileges: "length privilege_view = 17"
  by (simp add: privilege_view_def)

lemma read_privilege: "c \<in> set privilege_view \<Longrightarrow> read_column d (c, v) = (c, flag (v = IntV 1))"
  by (auto simp: privilege_view_def read_column_def)

lemma read_privileges:
  "length rs = 17 \<Longrightarrow> map (read_column d) (zip privilege_view rs) = zip privilege_view (map (\<lambda>v. flag (v = IntV 1)) rs)"
  by (rule nth_equalityI) (simp_all add: read_privilege length_admin_privileges)

lemma zip_privileges: "length xs = 17 \<Longrightarrow> length ys = 17 \<Longrightarrow> zip privilege_view xs = zip privilege_view ys \<longleftrightarrow> xs = ys"
  by (metis length_admin_privileges map_snd_zip)

lemma admin_changed_iff:
  assumes "length vs = 20"
  shows "admin_changed vs a \<longleftrightarrow> map (read_column '''') (zip history_view (tl vs)) \<noteq> history_fields a"
proof -
  from assms obtain u s c rs where vs: "vs = u # s # c # rs" and len: "length rs = 17"
    by (auto simp: numeral_eq_Suc length_Suc_conv)
  have flagged: "flag (v = IntV 1) \<noteq> b r \<longleftrightarrow> (v = IntV 1) \<noteq> r" for v r by (simp add: flag_def b_def)
  have "list_ex (\<lambda>i. (rs ! i = IntV 1) \<noteq> admin_rights a ! i) [0..<17] \<longleftrightarrow>
      (\<exists>i<17. flag (rs ! i = IntV 1) \<noteq> b (admin_rights a ! i))"
    by (simp only: list_ex_iff set_upt flagged atLeast0LessThan lessThan_iff Bex_def)
  also have "\<dots> \<longleftrightarrow> map (\<lambda>v. flag (v = IntV 1)) rs \<noteq> map b (admin_rights a)"
    unfolding list_eq_iff_nth_eq by (auto simp: len)
  finally have "list_ex (\<lambda>i. (rs ! i = IntV 1) \<noteq> admin_rights a ! i) [0..<17] \<longleftrightarrow>
      map (\<lambda>v. flag (v = IntV 1)) rs \<noteq> map b (admin_rights a)" .
  moreover have "text_or s '''' = admin_status a \<longleftrightarrow> snd (read_column '''' (''status'', s)) = TextV (admin_status a)"
    by (cases s) (auto simp: read_column_def)
  moreover have "text_or c '''' = a_custom_title a \<longleftrightarrow> snd (read_column '''' (''custom_title'', c)) = TextV (a_custom_title a)"
    by (cases c) (auto simp: read_column_def)
  ultimately show ?thesis
    by (auto simp: vs admin_changed_def history_fields_eq history_view_def read_privileges zip_privileges len
        read_column_def simp del: upt_rec_numeral)
qed

lemma removal_entry:
  assumes "length vs = 20"
  shows "map entry_of (removal_event g as (u, vs)) =
    (if \<exists>a\<in>set as. a_user_id a = u then []
     else [(IntV g, IntV u, TextV ''removed'', map (read_column ''administrator'') (zip history_view (tl vs)))])"
proof -
  from assms obtain w s c rs where vs: "vs = w # s # c # rs" and len: "length rs = 17"
    by (auto simp: numeral_eq_Suc length_Suc_conv)
  have "map (\<lambda>i. b (vs ! (3 + i) = IntV 1)) [0..<17] = map (\<lambda>v. flag (v = IntV 1)) rs"
    by (rule nth_equalityI) (simp_all add: vs len b_def flag_def del: upt_rec_numeral)
  moreover have "TextV (text_or s d) = snd (read_column d (''status'', s))"
    "TextV (text_or c '''') = snd (read_column d (''custom_title'', c))" for d
    by (cases s; cases c; simp add: read_column_def)+
  ultimately show ?thesis
    by (auto simp: removal_event_def entry_of_def vs history_view_def read_privileges len read_column_def
        simp del: upt_rec_numeral)
qed

lemma sync_history_events:
  "map entry_of (admin_events g (stored_admins d g) as) = sync_history g (admin_roll d g) as"
proof -
  have len: "length vs = 20" if "(u, vs) \<in> set (stored_admins d g)" for u vs
    using that by (auto simp: stored_admins_def)
  have "map entry_of (admin_event g (stored_admins d g) a) =
      (case map_of (admin_roll d g) (a_user_id a) of
         None \<Rightarrow> [(IntV g, IntV (a_user_id a), TextV ''added'', history_fields a)]
       | Some old \<Rightarrow> if map (read_column '''') old = history_fields a then []
           else [(IntV g, IntV (a_user_id a), TextV ''updated'', history_fields a)])" for a
  proof (cases "map_of (stored_admins d g) (a_user_id a)")
    case (Some vs)
    from len [OF map_of_SomeD [OF Some]] have "length vs = 20" .
    with Some show ?thesis by (simp add: admin_event_def map_of_roll entry_of_written admin_changed_iff)
  qed (simp add: admin_event_def map_of_roll entry_of_written)
  then have "map entry_of (concat (map (admin_event g (stored_admins d g)) as)) = concat (map (\<lambda>a.
      (case map_of (admin_roll d g) (a_user_id a) of
         None \<Rightarrow> [(IntV g, IntV (a_user_id a), TextV ''added'', history_fields a)]
       | Some old \<Rightarrow> if map (read_column '''') old = history_fields a then []
           else [(IntV g, IntV (a_user_id a), TextV ''updated'', history_fields a)])) as)"
    by (simp add: map_concat comp_def)
  moreover have "map entry_of (concat (map (removal_event g as) (stored_admins d g))) =
      concat (map (\<lambda>(u, old). if \<exists>a\<in>set as. a_user_id a = u then []
         else [(IntV g, IntV u, TextV ''removed'', map (read_column ''administrator'') old)]) (admin_roll d g))"
    unfolding map_concat admin_roll_stored map_map
    by (rule arg_cong [of _ _ concat], rule map_cong [OF refl])
      (clarify, simp only: comp_apply case_prod_conv removal_entry [OF len])
  ultimately show ?thesis by (simp only: admin_events_def sync_history_def map_append)
qed

text \<open>C12: a sync that returns leaves exactly the fetched list as the stored administrators of its group:
  read column by column, status, title, inviter, join date and each of the 17 privileges are those of
  the last entry per user, nobody else is stored, and every other group is untouched. The history grows
  by \<open>added\<close> for every listed user that was not stored, by \<open>updated\<close> for every one whose status, title
  or any privilege differs from the stored one, in list order, and by \<open>removed\<close> with what was stored for
  every stored administrator that is no longer listed; by nothing else.\<close>

theorem syncGroupAdmins_refines:
  assumes "syncGroupAdmins l sv s = (Inr (), t)" and "clean s"
    and "db_ok (weight sv) (disk s) (autos s)"
  shows "stored_admin (disk t) = (stored_admin (disk s))
      (al_group_id l := (\<lambda>u. map_option admin_fields (listed (al_admins l) u))) \<and>
    admin_history (disk t) = admin_history (disk s) @
      sync_history (al_group_id l) (admin_roll (disk s) (al_group_id l)) (al_admins l)"
proof
  show "stored_admin (disk t) = (stored_admin (disk s))
      (al_group_id l := (\<lambda>u. map_option admin_fields (listed (al_admins l) u)))"
    unfolding stored_admin_of syncGroupAdmins_run(1) [OF assms]
    by (auto simp: fun_eq_iff option.map_comp comp_def admin_fields_values)
  show "admin_history (disk t) = admin_history (disk s) @
      sync_history (al_group_id l) (admin_roll (disk s) (al_group_id l)) (al_admins l)"
    by (simp add: admin_history_log syncGroupAdmins_run(2) [OF assms] sync_history_events)
qed

definition member_row :: row where
  "member_row = (\<lambda>c. if c = ''id'' then IntV 7 else Null)"

definition admin_session :: session where
  "admin_session = empty_session
     \<lparr>view := (\<lambda>_. [])(T_users := [member_row], T_groups := [member_row]),
      disk := (\<lambda>_. [])(T_users := [member_row], T_groups := [member_row])\<rparr>"

lemma clean_admin [simp]: "clean admin_session"
  by (simp add: clean_def admin_session_def empty_session_def)

lemma db_ok_admin [simp]: "db_ok w (disk admin_session) (autos admin_session)"
  by (simp add: db_ok_def admin_session_def empty_session_def below_counter_def fk_row_def
      member_row_def users_def_def groups_def_def)

definition sample_admin :: GroupAdmin where
  "sample_admin = \<lparr>a_user_id = 7, a_is_owner = True, a_custom_title = ''T'', a_inviter_user_id = 0,
     a_joined_date = 0, can_manage_chat = True, can_change_info = True, can_post_messages = False,
     can_edit_messages = False, can_delete_messages = True, can_invite_users = True,
     can_restrict_members = True, can_pin_messages = True, can_manage_topics = False,
     can_promote_members = True, can_manage_video_chats = True, can_post_stories = False,
     can_edit_stories = False, can_delete_stories = False, can_manage_direct_messages = False,
     can_manage_tags = False, is_anonymous = False\<rparr>"

definition sample_admins :: GroupAdminList where
  "sample_admins = \<lparr>al_group_id = 7, al_admins = [sample_admin]\<rparr>"

lemma sample_admins_run: "fst (syncGroupAdmins sample_admins quiet admin_session) = Inr ()"
  by (simp add: run_eval sql_defs syncGroupAdmins_def syncGroupAdmins_body_def admin_upsert_def
      push_rights_def admin_rights_def admin_status_def admin_value_columns_def admin_right_columns_def
      admin_session_def sample_admins_def sample_admin_def member_row_def)

theorem syncGroupAdmins_refines_witness:
  "stored_admin (disk (snd (syncGroupAdmins sample_admins quiet admin_session))) 7 7 =
     Some (admin_fields sample_admin)"
  using syncGroupAdmins_refines [OF fst_run [OF sample_admins_run] clean_admin db_ok_admin]
  by (simp add: sample_admins_def sample_admin_def)

text \<open>C13: the administrator history is complete: if replaying it gives the stored administrators
  (status, title and privileges of every user in every group), it still does after a sync of a list
  without repeated users.\<close>

theorem admin_history_replays:
  assumes run: "syncGroupAdmins l sv s = (Inr (), t)" and "clean s"
    and "db_ok (weight sv) (disk s) (autos s)" and dist: "distinct (map a_user_id (al_admins l))"
    and rec: "admins_recorded (disk s)"
  shows "admins_recorded (disk t)"
proof -
  let ?g = "al_group_id l"
  note r = syncGroupAdmins_run [OF assms(1-3)]
  have "replay_admins (admin_log (disk t)) = (replay_admins (admin_log (disk s)))
      (?g := (\<lambda>i. map_option (\<lambda>a. history_part (admin_values a)) (listed (al_admins l) i)))"
    unfolding r(2) replay_admins_def foldl_append
    by (rule replay_sync [OF dist r(3)]) (use rec in \<open>auto simp: admins_recorded_def replay_admins_def\<close>)
  with rec show ?thesis
    by (auto simp: admins_recorded_def r(1) option.map_comp comp_def)
qed

theorem admin_history_replays_witness:
  "admins_recorded (disk (snd (syncGroupAdmins sample_admins quiet admin_session)))"
  by (rule admin_history_replays [OF fst_run [OF sample_admins_run] clean_admin db_ok_admin])
    (simp_all add: sample_admins_def admins_recorded_def replay_admins_def admin_log_def admin_of_def
      admin_session_def)

text \<open>C32: a list naming a user the database does not know cannot be stored: the call throws, whatever the
  server does, and the committed rows stay as they were, those of the known administrators included.\<close>

theorem syncGroupAdmins_unknown_user:
  assumes s: "clean s" and ok: "db_ok (weight sv) (disk s) (autos s)"
    and a: "a \<in> set (al_admins l)" and unknown: "\<not> has_id (disk s) T_users (IntV (a_user_id a))"
  shows "(\<exists>e. fst (syncGroupAdmins l sv s) = Inl e) \<and> disk (snd (syncGroupAdmins l sv s)) = disk s"
proof -
  have never: False if begun: "begun s s1" and body: "syncGroupAdmins_body l sv s1 = (Inr (), s2)" for s1 s2
  proof -
    have view: "view s1 = disk s" "db_ok (weight sv) (view s1) (autos s1)"
      using begun clean_begun [OF s] ok by (simp_all add: begun_def)
    have kept: "keeps (on_view db_ok) (syncGroupAdmins_body l)"
      by (rule integrity.syncGroupAdmins_keeps) simp_all
    have fr: "keeps (view_rel (untouched {T_users})) (syncGroupAdmins_body l)"
      by (rule frame.syncGroupAdmins_keeps)
        (simp_all add: admin_upsert_sql_def admin_hist_sql_def admin_delete_sql_def)
    have "listed (al_admins l) (a_user_id a) \<noteq> None" using a by (auto simp: listed_None_iff)
    with syncGroupAdmins_body_run [OF view(2) body]
    have "admin_of (view s2) (al_group_id l) (a_user_id a) \<noteq> None" by auto
    then obtain r' where r': "r' \<in> set (view s2 T_group_admins)" and u: "r' ''user_id'' = IntV (a_user_id a)"
      by (auto simp: admin_of_def is_admin_row_def dest: find_Some_mem)
    have "db_ok (weight sv) (view s2) (autos s2)"
      using keepsD [OF kept body] view by (simp add: on_view_def)
    then have "list_all (fk_row (view s2) T_group_admins) (view s2 T_group_admins)"
      unfolding db_ok_def by blast
    with r' have "fk_row (view s2) T_group_admins r'" by (simp add: list_all_iff)
    then have "has_id (view s2) T_users (IntV (a_user_id a))"
      using u by (simp add: fk_row_def group_admins_def_def)
    moreover have "view s2 T_users = disk s T_users"
      using keepsD [OF fr body] view by (simp add: view_rel_def untouched_def)
    ultimately show False using unknown by (simp add: has_id_def)
  qed
  have iso: "keeps isolation (syncGroupAdmins_body l)"
    by (rule iso.syncGroupAdmins_keeps) simp_all
  obtain r t where rt: "syncGroupAdmins l sv s = (r, t)" by (cases "syncGroupAdmins l sv s")
  have "disk t = disk s \<and> (\<exists>e. r = Inl e)"
    using transaction_atomic [OF iso rt [unfolded syncGroupAdmins_def]] never by auto
  with rt show ?thesis by simp
qed
theorem syncGroupAdmins_unknown_user_witness:
  "\<exists>e. fst (syncGroupAdmins sample_admins quiet empty_session) = Inl e"
proof -
  have "sample_admin \<in> set (al_admins sample_admins)" by (simp add: sample_admins_def)
  moreover have "db_ok (weight quiet) (disk empty_session) (autos empty_session)"
    using db_ok_empty [of "weight quiet"] by (simp add: empty_session_def)
  ultimately show ?thesis
    using syncGroupAdmins_unknown_user [where l = sample_admins and sv = quiet, OF clean_empty]
    by (simp add: has_id_def empty_session_def)
qed
end
