(* ===== verification/Db_Users.thy ===== *)
theory Db_Users
  imports Db_Contract Sql_Keyed
begin

text \<open>
  src/tgloggerd/models/User.{hpp,cpp}: the users table, its name, phone, photo and bio histories,
  and the usernames a user owns. An \<open>unordered_map\<close> from usernames is an association list with
  distinct keys; the one loop that iterates over such a map visits the keys in the order the
  environment chooses.
\<close>

section \<open>Data\<close>

datatype UserType = Ut_Regular | Ut_Deleted | Ut_Bot | Ut_Unknown

record User =
  u_id :: int
  u_first_name :: string
  u_last_name :: string
  u_phone_number :: string
  u_type :: UserType
  u_profile_photo_file_id :: "int option"
  u_accent_color_id :: int
  u_background_custom_emoji_id :: int
  u_profile_accent_color_id :: int
  u_profile_background_custom_emoji_id :: int
  u_emoji_status_custom_emoji_id :: "int option"
  u_emoji_status_expiration_date :: "int option"
  u_is_verified :: bool
  u_is_scam :: bool
  u_is_fake :: bool
  u_is_premium :: bool
  u_is_support :: bool
  u_restriction_reason :: string
  u_has_sensitive_content :: bool
  u_restricts_new_chats :: bool
  u_paid_message_star_count :: int
  u_is_contact :: bool
  u_is_mutual_contact :: bool
  u_is_close_friend :: bool
  u_have_access :: bool
  u_language_code :: string
  u_active_usernames :: "string list"
  u_disabled_usernames :: "string list"
  u_collectible_usernames :: "string list"

record UserFullInfo =
  fi_user_id :: int
  fi_bio :: string
  fi_birthday_day :: "int option"
  fi_birthday_month :: "int option"
  fi_birthday_year :: "int option"
  fi_personal_chat_id :: int

fun user_type_to_string :: "UserType \<Rightarrow> string" where
  "user_type_to_string Ut_Regular = ''regular''"
| "user_type_to_string Ut_Deleted = ''deleted''"
| "user_type_to_string Ut_Bot = ''bot''"
| "user_type_to_string Ut_Unknown = ''unknown''"

section \<open>Usernames\<close>

text \<open>\<open>Entry\<close> of syncUsernames: the list a username is in and its position there.\<close>

type_synonym entry = "string \<times> int"
type_synonym name_map = "(string \<times> entry) list"

text \<open>\<open>unordered_map::emplace\<close> keeps an existing entry.\<close>

definition emplace :: "string \<Rightarrow> entry \<Rightarrow> name_map \<Rightarrow> name_map" where
  "emplace k e m = (if k \<in> fst ` set m then m else m @ [(k, e)])"

fun load_usernames :: "sql_val list list \<Rightarrow> name_map \<Rightarrow> name_map tx" where
  "load_usernames [] m = tx_return m"
| "load_usernames (r # rs) m =
     (if r ! 0 = Null then load_usernames rs m
      else
        tx_bind (if r ! 2 \<noteq> Null then stoll (r ! 2) else tx_return 0) (\<lambda>p.
          load_usernames rs (emplace (text_or (r ! 0) '''') (text_or (r ! 1) '''', p) m)))"

definition collect :: "string list \<Rightarrow> string \<Rightarrow> name_map" where
  "collect names kind = map (\<lambda>(i, n). (n, (kind, int i))) (enumerate 0 names)"

definition new_usernames :: "string list \<Rightarrow> string list \<Rightarrow> string list \<Rightarrow> name_map" where
  "new_usernames active disabled collectible =
     collect active ''active'' @ collect disabled ''disabled'' @ collect collectible ''collectible''"

definition user_names_sql :: sql_query where
  [sql_defs]: "user_names_sql = Select [Col ''username'', Col ''kind'', Col ''position'']
     (Some T_user_usernames) [(''user_id'', Arg 0)]"

definition user_event_sql :: sql_stmt where
  [sql_defs]: "user_event_sql = Insert T_user_hist_usernames_events
     [''user_id'', ''username'', ''action'', ''kind'', ''position'']
     [Arg 0, Arg 1, Arg 2, Arg 3, Arg 4] None"

definition user_release_sql :: sql_stmt where
  [sql_defs]: "user_release_sql = Update T_user_usernames None [(''user_id'', Lit Null)]
     [(''user_id'', Arg 0), (''username'', Arg 1)]"

definition user_claim_sql :: sql_stmt where
  [sql_defs]: "user_claim_sql = Insert T_user_usernames
     [''user_id'', ''username'', ''kind'', ''position''] [Arg 0, Arg 1, Arg 2, Arg 3]
     (Some [''user_id'', ''kind'', ''position''])"

definition user_event :: "int \<Rightarrow> name_map \<Rightarrow> string \<times> entry \<Rightarrow> unit tx" where
  "user_event uid old_map n =
     (case n of (uname, kind, position) \<Rightarrow>
        (case map_of old_map uname of
           None \<Rightarrow> do_execute user_event_sql
             [IntV uid, TextV uname, TextV ''added'', TextV kind, IntV position]
         | Some (okind, oposition) \<Rightarrow>
             (if okind \<noteq> kind then do_execute user_event_sql
                [IntV uid, TextV uname, TextV ''kind_changed'', TextV kind, IntV position]
              else if oposition \<noteq> position then do_execute user_event_sql
                [IntV uid, TextV uname, TextV ''reordered'', TextV kind, IntV position]
              else tx_return ())))"

definition user_removal :: "int \<Rightarrow> name_map \<Rightarrow> string \<Rightarrow> unit tx" where
  "user_removal uid new_list oname =
     (if oname \<in> fst ` set new_list then tx_return ()
      else
        tx_then (do_execute user_event_sql [IntV uid, TextV oname, TextV ''removed'', Null, Null])
          (do_execute user_release_sql [IntV uid, TextV oname]))"

definition user_claim :: "int \<Rightarrow> string \<times> entry \<Rightarrow> unit tx" where
  "user_claim uid n =
     (case n of (uname, kind, position) \<Rightarrow>
        do_execute user_claim_sql [IntV uid, TextV uname, TextV kind, IntV position])"

definition syncUsernames :: "User \<Rightarrow> unit tx" where
  "syncUsernames u =
     tx_bind (do_query user_names_sql [IntV (u_id u)]) (\<lambda>old_rows.
     tx_bind (load_usernames old_rows []) (\<lambda>old_map.
     let new_list = new_usernames (u_active_usernames u) (u_disabled_usernames u)
           (u_collectible_usernames u) in
     tx_then (tx_for (user_event (u_id u) old_map) new_list)
     (tx_bind (tx_iterate (map fst old_map)) (\<lambda>old_names.
     tx_then (tx_for (user_removal (u_id u) new_list) old_names)
     (tx_for (user_claim (u_id u)) new_list)))))"

section \<open>upsertUser\<close>

definition user_columns :: "string list" where
  "user_columns = [''first_name'', ''last_name'', ''phone_number'', ''type'', ''accent_color_id'',
     ''background_custom_emoji_id'', ''profile_accent_color_id'',
     ''profile_background_custom_emoji_id'', ''emoji_status_custom_emoji_id'',
     ''emoji_status_expiration_date'', ''is_verified'', ''is_scam'', ''is_fake'', ''is_premium'',
     ''is_support'', ''restriction_reason'', ''has_sensitive_content'', ''restricts_new_chats'',
     ''paid_message_star_count'', ''is_contact'', ''is_mutual_contact'', ''is_close_friend'',
     ''have_access'', ''language_code'']"

text \<open>The columns after \<open>ON DUPLICATE KEY UPDATE\<close>, each set to its \<open>new\<close> value.\<close>

definition user_update_columns :: "string list" where
  "user_update_columns = [''first_name'', ''last_name'', ''phone_number'', ''type'', ''accent_color_id'',
     ''background_custom_emoji_id'', ''profile_accent_color_id'',
     ''profile_background_custom_emoji_id'', ''emoji_status_custom_emoji_id'',
     ''emoji_status_expiration_date'', ''is_verified'', ''is_scam'', ''is_fake'', ''is_premium'',
     ''is_support'', ''restriction_reason'', ''has_sensitive_content'', ''restricts_new_chats'',
     ''paid_message_star_count'', ''is_contact'', ''is_mutual_contact'', ''is_close_friend'',
     ''have_access'', ''language_code'']"

definition user_upsert_sql :: sql_stmt where
  [sql_defs]: "user_upsert_sql = Insert T_users (''id'' # user_columns)
     [Arg 0, Arg 1, Arg 2, Arg 3, Arg 4, Arg 5, Arg 6, Arg 7, Arg 8, Arg 9, Arg 10, Arg 11, Arg 12,
      Arg 13, Arg 14, Arg 15, Arg 16, Arg 17, Arg 18, Arg 19, Arg 20, Arg 21, Arg 22, Arg 23, Arg 24]
     (Some user_update_columns)"

lemma updates_all [simp]: "user_update_columns = user_columns"
  by (simp add: user_update_columns_def user_columns_def)

definition user_params :: "User \<Rightarrow> sql_val list" where
  "user_params u =
     [IntV (u_id u), TextV (u_first_name u), TextV (u_last_name u), TextV (u_phone_number u),
      TextV (user_type_to_string (u_type u)), IntV (u_accent_color_id u),
      IntV (u_background_custom_emoji_id u), IntV (u_profile_accent_color_id u),
      IntV (u_profile_background_custom_emoji_id u), opt_int (u_emoji_status_custom_emoji_id u),
      opt_int (u_emoji_status_expiration_date u), b (u_is_verified u), b (u_is_scam u),
      b (u_is_fake u), b (u_is_premium u), b (u_is_support u), TextV (u_restriction_reason u),
      b (u_has_sensitive_content u), b (u_restricts_new_chats u), IntV (u_paid_message_star_count u),
      b (u_is_contact u), b (u_is_mutual_contact u), b (u_is_close_friend u), b (u_have_access u),
      TextV (u_language_code u)]"

definition user_old_sql :: sql_query where
  [sql_defs]: "user_old_sql = Select [Col ''first_name'', Col ''last_name'', Col ''phone_number'']
     (Some T_users) [(''id'', Arg 0)]"

definition user_name_sql :: sql_stmt where
  [sql_defs]: "user_name_sql = Insert T_user_hist_name [''user_id'', ''first_name'', ''last_name'']
     [Arg 0, Arg 1, Arg 2] None"

definition user_phone_sql :: sql_stmt where
  [sql_defs]: "user_phone_sql = Insert T_user_hist_phone_num [''user_id'', ''phone_number'']
     [Arg 0, Arg 1] None"

definition user_history :: "User \<Rightarrow> sql_val list list \<Rightarrow> unit tx" where
  "user_history u old =
     (if old = [] then
        tx_bind (do_insert user_name_sql
          [IntV (u_id u), TextV (u_first_name u), TextV (u_last_name u)]) (\<lambda>_.
        tx_bind (do_insert user_phone_sql [IntV (u_id u), TextV (u_phone_number u)]) (\<lambda>_.
        tx_return ()))
      else
        (let r = hd old; old_f = text_or (r ! 0) ''''; old_l = text_or (r ! 1) '''';
             old_p = text_or (r ! 2) '''' in
         tx_then
           (if old_f \<noteq> u_first_name u \<or> old_l \<noteq> u_last_name u
            then tx_bind (do_insert user_name_sql [IntV (u_id u), TextV old_f, TextV old_l])
              (\<lambda>_. tx_return ())
            else tx_return ())
           (if old_p \<noteq> u_phone_number u
            then tx_bind (do_insert user_phone_sql [IntV (u_id u), TextV old_p]) (\<lambda>_. tx_return ())
            else tx_return ())))"

definition upsertUser_body :: "User \<Rightarrow> unit tx" where
  "upsertUser_body u =
     tx_bind (do_query user_old_sql [IntV (u_id u)]) (\<lambda>old.
     tx_then (do_execute user_upsert_sql (user_params u))
     (tx_then (user_history u old) (syncUsernames u)))"

definition upsertUser :: "User \<Rightarrow> unit tx" where
  "upsertUser u = transaction (upsertUser_body u)"

section \<open>Profile photo\<close>

definition user_photo_old_sql :: sql_query where
  [sql_defs]: "user_photo_old_sql = Select [Col ''profile_photo_file_id''] (Some T_users) [(''id'', Arg 0)]"

definition user_photo_hist_sql :: sql_stmt where
  [sql_defs]: "user_photo_hist_sql = Insert T_user_hist_profile_photo [''user_id'', ''file_id'']
     [Arg 0, Arg 1] None"

definition trackProfilePhotoChange :: "int \<Rightarrow> int \<Rightarrow> unit tx" where
  "trackProfilePhotoChange user_id file_id =
     tx_bind (do_query user_photo_old_sql [IntV user_id]) (\<lambda>rows.
     if rows = [] then tx_return ()
     else if first_value rows = Null then
       tx_bind (do_insert user_photo_hist_sql [IntV user_id, IntV file_id]) (\<lambda>_. tx_return ())
     else
       tx_bind (stoll (first_value rows)) (\<lambda>old_id.
       if old_id = file_id then tx_return ()
       else tx_bind (do_insert user_photo_hist_sql [IntV user_id, IntV old_id])
         (\<lambda>_. tx_return ())))"

definition user_photo_sql :: sql_stmt where
  [sql_defs]: "user_photo_sql = Update T_users None [(''profile_photo_file_id'', Arg 0)] [(''id'', Arg 1)]"

definition setUserProfilePhoto_body :: "int \<Rightarrow> int \<Rightarrow> unit tx" where
  "setUserProfilePhoto_body user_id file_id =
     tx_then (trackProfilePhotoChange user_id file_id)
       (do_execute user_photo_sql [IntV file_id, IntV user_id])"

definition setUserProfilePhoto :: "int \<Rightarrow> int \<Rightarrow> unit tx" where
  "setUserProfilePhoto user_id file_id = transaction (setUserProfilePhoto_body user_id file_id)"

section \<open>Full info\<close>

definition user_bio_old_sql :: sql_query where
  [sql_defs]: "user_bio_old_sql = Select [Col ''bio''] (Some T_users) [(''id'', Arg 0)]"

definition user_bio_hist_sql :: sql_stmt where
  [sql_defs]: "user_bio_hist_sql = Insert T_user_hist_bio [''user_id'', ''bio''] [Arg 0, Arg 1] None"

definition user_full_sql :: sql_stmt where
  [sql_defs]: "user_full_sql = Update T_users None
     [(''bio'', Arg 0), (''personal_chat_id'', Arg 1), (''birthday_day'', Arg 2),
      (''birthday_month'', Arg 3), (''birthday_year'', Arg 4)] [(''id'', Arg 5)]"

definition upsertUserFullInfo_body :: "UserFullInfo \<Rightarrow> unit tx" where
  "upsertUserFullInfo_body fi =
     tx_bind (do_query user_bio_old_sql [IntV (fi_user_id fi)]) (\<lambda>old.
     if old = [] then tx_return ()
     else
       (let old_bio = text_or (first_value old) '''' in
        tx_then
          (if old_bio \<noteq> fi_bio fi
           then tx_bind (do_insert user_bio_hist_sql [IntV (fi_user_id fi), TextV old_bio])
             (\<lambda>_. tx_return ())
           else tx_return ())
          (do_execute user_full_sql
             [TextV (fi_bio fi), IntV (fi_personal_chat_id fi), opt_int (fi_birthday_day fi),
              opt_int (fi_birthday_month fi), opt_int (fi_birthday_year fi),
              IntV (fi_user_id fi)])))"

definition upsertUserFullInfo :: "UserFullInfo \<Rightarrow> unit tx" where
  "upsertUserFullInfo fi = transaction (upsertUserFullInfo_body fi)"

end
