(* ===== verification/Db_Groups.thy ===== *)
theory Db_Groups
  imports Db_Users
begin

text \<open>
  src/tgloggerd/models/Group.{hpp,cpp}: the groups table, its title, description and photo
  histories, and the usernames a group owns.
\<close>

datatype GroupType = Gt_BasicGroup | Gt_Supergroup | Gt_Channel

record Group =
  g_id :: int
  g_type :: GroupType
  g_title :: string
  g_description :: string
  g_photo_file_id :: "int option"
  g_active_usernames :: "string list"
  g_disabled_usernames :: "string list"
  g_collectible_usernames :: "string list"

fun group_type_to_string :: "GroupType \<Rightarrow> string" where
  "group_type_to_string Gt_BasicGroup = ''basic_group''"
| "group_type_to_string Gt_Supergroup = ''supergroup''"
| "group_type_to_string Gt_Channel = ''channel''"

section \<open>Usernames\<close>

definition group_names_sql :: sql_query where
  [sql_defs]: "group_names_sql = Select [Col ''username'', Col ''kind'', Col ''position'']
     (Some T_group_usernames) [(''group_id'', Arg 0)]"

definition group_event_sql :: sql_stmt where
  [sql_defs]: "group_event_sql = Insert T_group_hist_usernames_events
     [''group_id'', ''username'', ''action'', ''kind'', ''position'']
     [Arg 0, Arg 1, Arg 2, Arg 3, Arg 4] None"

definition group_release_sql :: sql_stmt where
  [sql_defs]: "group_release_sql = Update T_group_usernames None [(''group_id'', Lit Null)]
     [(''group_id'', Arg 0), (''username'', Arg 1)]"

definition group_claim_sql :: sql_stmt where
  [sql_defs]: "group_claim_sql = Insert T_group_usernames
     [''group_id'', ''username'', ''kind'', ''position''] [Arg 0, Arg 1, Arg 2, Arg 3]
     (Some [''group_id'', ''kind'', ''position''])"

definition group_event :: "int \<Rightarrow> name_map \<Rightarrow> string \<times> entry \<Rightarrow> unit tx" where
  "group_event gid old_map n =
     (case n of (uname, kind, position) \<Rightarrow>
        (case map_of old_map uname of
           None \<Rightarrow> do_execute group_event_sql
             [IntV gid, TextV uname, TextV ''added'', TextV kind, IntV position]
         | Some (okind, oposition) \<Rightarrow>
             (if okind \<noteq> kind then do_execute group_event_sql
                [IntV gid, TextV uname, TextV ''kind_changed'', TextV kind, IntV position]
              else if oposition \<noteq> position then do_execute group_event_sql
                [IntV gid, TextV uname, TextV ''reordered'', TextV kind, IntV position]
              else tx_return ())))"

definition group_removal :: "int \<Rightarrow> name_map \<Rightarrow> string \<Rightarrow> unit tx" where
  "group_removal gid new_list oname =
     (if oname \<in> fst ` set new_list then tx_return ()
      else
        tx_then (do_execute group_event_sql [IntV gid, TextV oname, TextV ''removed'', Null, Null])
          (do_execute group_release_sql [IntV gid, TextV oname]))"

definition group_claim :: "int \<Rightarrow> string \<times> entry \<Rightarrow> unit tx" where
  "group_claim gid n =
     (case n of (uname, kind, position) \<Rightarrow>
        do_execute group_claim_sql [IntV gid, TextV uname, TextV kind, IntV position])"

definition syncGroupUsernames :: "Group \<Rightarrow> unit tx" where
  "syncGroupUsernames g =
     tx_bind (do_query group_names_sql [IntV (g_id g)]) (\<lambda>old_rows.
     tx_bind (load_usernames old_rows []) (\<lambda>old_map.
     let new_list = new_usernames (g_active_usernames g) (g_disabled_usernames g)
           (g_collectible_usernames g) in
     tx_then (tx_for (group_event (g_id g) old_map) new_list)
     (tx_bind (tx_iterate (map fst old_map)) (\<lambda>old_names.
     tx_then (tx_for (group_removal (g_id g) new_list) old_names)
     (tx_for (group_claim (g_id g)) new_list)))))"

section \<open>upsertGroup\<close>

definition group_upsert_sql :: sql_stmt where
  [sql_defs]: "group_upsert_sql = Insert T_groups [''id'', ''type'', ''title'', ''description'']
     [Arg 0, Arg 1, Arg 2, Arg 3] (Some [''type'', ''title'', ''description''])"

definition group_old_sql :: sql_query where
  [sql_defs]: "group_old_sql = Select [Col ''title'', Col ''description''] (Some T_groups) [(''id'', Arg 0)]"

definition group_title_sql :: sql_stmt where
  [sql_defs]: "group_title_sql = Insert T_group_hist_title [''group_id'', ''title''] [Arg 0, Arg 1] None"

definition group_description_sql :: sql_stmt where
  [sql_defs]: "group_description_sql = Insert T_group_hist_description
     [''group_id'', ''description''] [Arg 0, Arg 1] None"

definition group_params :: "Group \<Rightarrow> sql_val list" where
  "group_params g =
     [IntV (g_id g), TextV (group_type_to_string (g_type g)), TextV (g_title g),
      TextV (g_description g)]"

definition group_history :: "Group \<Rightarrow> sql_val list list \<Rightarrow> unit tx" where
  "group_history g old =
     (if old = [] then
        tx_bind (do_insert group_title_sql [IntV (g_id g), TextV (g_title g)]) (\<lambda>_.
        tx_bind (do_insert group_description_sql [IntV (g_id g), TextV (g_description g)]) (\<lambda>_.
        tx_return ()))
      else
        (let old_t = text_or (hd old ! 0) ''''; old_d = text_or (hd old ! 1) '''' in
         tx_then
           (if old_t \<noteq> g_title g
            then tx_bind (do_insert group_title_sql [IntV (g_id g), TextV old_t]) (\<lambda>_. tx_return ())
            else tx_return ())
           (if old_d \<noteq> g_description g
            then tx_bind (do_insert group_description_sql [IntV (g_id g), TextV old_d])
              (\<lambda>_. tx_return ())
            else tx_return ())))"

definition upsertGroup_body :: "Group \<Rightarrow> unit tx" where
  "upsertGroup_body g =
     tx_bind (do_query group_old_sql [IntV (g_id g)]) (\<lambda>old.
     tx_then (do_execute group_upsert_sql (group_params g))
     (tx_then (group_history g old) (syncGroupUsernames g)))"

definition upsertGroup :: "Group \<Rightarrow> unit tx" where
  "upsertGroup g = transaction (upsertGroup_body g)"

section \<open>Photo\<close>

definition group_photo_old_sql :: sql_query where
  [sql_defs]: "group_photo_old_sql = Select [Col ''photo_file_id''] (Some T_groups) [(''id'', Arg 0)]"

definition group_photo_hist_sql :: sql_stmt where
  [sql_defs]: "group_photo_hist_sql = Insert T_group_hist_photo [''group_id'', ''file_id'']
     [Arg 0, Arg 1] None"

definition trackGroupPhotoChange :: "int \<Rightarrow> int \<Rightarrow> unit tx" where
  "trackGroupPhotoChange group_id file_id =
     tx_bind (do_query group_photo_old_sql [IntV group_id]) (\<lambda>rows.
     if rows = [] then tx_return ()
     else if first_value rows = Null then
       tx_bind (do_insert group_photo_hist_sql [IntV group_id, IntV file_id]) (\<lambda>_. tx_return ())
     else
       tx_bind (stoll (first_value rows)) (\<lambda>old_id.
       if old_id = file_id then tx_return ()
       else tx_bind (do_insert group_photo_hist_sql [IntV group_id, IntV old_id])
         (\<lambda>_. tx_return ())))"

definition group_photo_sql :: sql_stmt where
  [sql_defs]: "group_photo_sql = Update T_groups None [(''photo_file_id'', Arg 0)] [(''id'', Arg 1)]"

definition setGroupPhoto_body :: "int \<Rightarrow> int \<Rightarrow> unit tx" where
  "setGroupPhoto_body group_id file_id =
     tx_then (trackGroupPhotoChange group_id file_id)
       (do_execute group_photo_sql [IntV file_id, IntV group_id])"

definition setGroupPhoto :: "int \<Rightarrow> int \<Rightarrow> unit tx" where
  "setGroupPhoto group_id file_id = transaction (setGroupPhoto_body group_id file_id)"

end
