(* ===== verification/Db_Profiles.thy ===== *)
theory Db_Profiles
  imports Db_Groups
begin

text \<open>
  What users and groups have in common: a row per id that an upsert rewrites, and attributes whose
  changes are recorded in history tables. A \<open>tracked\<close> attribute's history receives its first value
  when the row is first seen, and the previous value whenever it changes. The locale
  \<open>profile_family\<close> (two tracked attributes and the upsert) is interpreted on \<open>upsertUser\<close> and
  \<open>upsertGroup\<close>, the locale \<open>photo_family\<close> on the two photo operations.
\<close>

section \<open>Tracked attributes\<close>

definition texts :: "string list \<Rightarrow> row \<Rightarrow> string list" where
  "texts cols r = map (\<lambda>c. text_or (r c) '''') cols"

definition current :: "tname \<Rightarrow> string list \<Rightarrow> db \<Rightarrow> int \<Rightarrow> string list option" where
  "current t cols d i = map_option (texts cols) (find (has_key i) (d t))"

definition past :: "tname \<Rightarrow> string \<Rightarrow> string list \<Rightarrow> db \<Rightarrow> int \<Rightarrow> string list list" where
  "past h fk cols d i = map (texts cols) (filter (\<lambda>r. r fk = IntV i) (d h))"

fun tracked_step :: "'a option \<Rightarrow> 'a \<Rightarrow> 'a list" where
  "tracked_step None v = [v]"
| "tracked_step (Some o1) v = (if o1 \<noteq> v then [o1] else [])"

text \<open>
  Versions \<open>v # vs\<close> of an attribute, in order: the history ends up holding the first version and
  then each version that was replaced by a different one.
\<close>

lemma tracked_rest:
  "foldl (\<lambda>(c, h) v. (Some v, h @ tracked_step c v)) (Some c, h) vs = (Some c', h') \<Longrightarrow>
     h' @ [c'] = h @ remdups_adj (c # vs)"
  by (induction vs arbitrary: c h) (auto split: if_splits)

lemma tracked_all:
  assumes "foldl (\<lambda>(c, h) v. (Some v, h @ tracked_step c v)) (None, h) (v # vs) = (Some c', h')"
  shows "h' @ [c'] = h @ v # remdups_adj (v # vs)"
  using tracked_rest [of v "h @ [v]" vs c' h'] assms by simp

definition hist_sql :: "tname \<Rightarrow> string \<Rightarrow> string list \<Rightarrow> sql_stmt" where
  "hist_sql h fk cols = Insert h (fk # cols) (args_from 0 (fk # cols)) None"

lemma hist_effect:
  assumes "exec_stmt w (IntV i # map TextV v) (hist_sql h fk cols) d au = Inr (d', au')"
    and "distinct (fk # cols)" and "''id'' \<notin> set (fk # cols)" and "length v = length cols"
  shows "past h fk cols d' = (past h fk cols d)(i := past h fk cols d i @ [v])"
    and "\<And>t. t \<noteq> h \<Longrightarrow> d' t = d t"
proof -
  let ?new = "new_row w (IntV i # map TextV v) h (fk # cols) (args_from 0 (fk # cols)) au"
  have d': "d' = d(h := d h @ [?new])"
    using exec_insert_append [OF assms(1) [unfolded hist_sql_def]] by simp
  then show "d' t = d t" if "t \<noteq> h" for t using that by simp
  have val: "?new c = (case map_of (zip (fk # cols) (IntV i # map TextV v)) c of
      None \<Rightarrow> blank_row h c | Some x \<Rightarrow> x)" if "c \<in> set (fk # cols)" for c
    by (rule new_row_args) (use assms that in auto)
  have "?new c = the (map_of (zip cols (map TextV v)) c)" if "c \<in> set cols" for c
  proof -
    have "c \<noteq> fk" using that assms(2) by auto
    moreover have "map_of (zip cols (map TextV v)) c = Some (the (map_of (zip cols (map TextV v)) c))"
      by (rule map_of_zip_the) (use that assms(4) in simp_all)
    ultimately show ?thesis using val [of c] that by (auto split: option.splits)
  qed
  then have "texts cols ?new = map (\<lambda>x. text_or x '''') (map (\<lambda>c. the (map_of (zip cols (map TextV v)) c)) cols)"
    by (simp add: texts_def)
  also have "\<dots> = v"
    using assms(2,4) by (subst map_of_zip_self) (simp_all add: comp_def)
  finally have "texts cols ?new = v" .
  moreover have "?new fk = IntV i" using val [of fk] by simp
  ultimately show "past h fk cols d' = (past h fk cols d)(i := past h fk cols d i @ [v])"
    by (auto simp: past_def d' fun_eq_iff)
qed

lemma past_frame: "d' h = d h \<Longrightarrow> past h fk cols d' = past h fk cols d"
  by (simp add: past_def fun_eq_iff)

lemma current_frame: "d' t = d t \<Longrightarrow> current t cols d' = current t cols d"
  by (simp add: current_def fun_eq_iff)

section \<open>Contracts\<close>

context stmt_relation
begin

lemma load_keeps: "keeps R (load_usernames rows m)"
  by (induction rows m rule: load_usernames.induct) (auto intro!: keeps_rules)

lemma syncUsernames_keeps:
  assumes "allowed user_event_sql" and "allowed user_release_sql" and "allowed user_claim_sql"
  shows "keeps R (syncUsernames u)"
  unfolding syncUsernames_def user_event_def user_removal_def user_claim_def Let_def
  by (intro keeps_rules load_keeps assms) (auto intro!: keeps_rules assms split: prod.split)

lemma syncGroupUsernames_keeps:
  assumes "allowed group_event_sql" and "allowed group_release_sql" and "allowed group_claim_sql"
  shows "keeps R (syncGroupUsernames g)"
  unfolding syncGroupUsernames_def group_event_def group_removal_def group_claim_def Let_def
  by (intro keeps_rules load_keeps assms) (auto intro!: keeps_rules assms split: prod.split)

end

section \<open>The shape of the upserts\<close>

definition profile_history :: "tname \<Rightarrow> tname \<Rightarrow> string \<Rightarrow> string list \<Rightarrow> string list \<Rightarrow> int \<Rightarrow>
    string list \<Rightarrow> string list \<Rightarrow> sql_val list list \<Rightarrow> unit tx" where
  "profile_history h1 h2 fk c1 c2 i v1 v2 old =
     (if old = [] then
        tx_bind (do_insert (hist_sql h1 fk c1) (IntV i # map TextV v1)) (\<lambda>_.
        tx_bind (do_insert (hist_sql h2 fk c2) (IntV i # map TextV v2)) (\<lambda>_. tx_return ()))
      else
        (let o1 = map (\<lambda>k. text_or (hd old ! k) '''') [0..<length c1];
             o2 = map (\<lambda>k. text_or (hd old ! k) '''') [length c1..<length c1 + length c2] in
         tx_then
           (if o1 \<noteq> v1 then tx_bind (do_insert (hist_sql h1 fk c1) (IntV i # map TextV o1))
              (\<lambda>_. tx_return ()) else tx_return ())
           (if o2 \<noteq> v2 then tx_bind (do_insert (hist_sql h2 fk c2) (IntV i # map TextV o2))
              (\<lambda>_. tx_return ()) else tx_return ())))"

definition by_id_sql :: "tname \<Rightarrow> string list \<Rightarrow> sql_query" where
  "by_id_sql t cols = Select (map Col cols) (Some t) [(''id'', Arg 0)]"

lemma by_id_rows:
  assumes "exec_query w [IntV i] (by_id_sql t cols) d = Inr rows" and "uniq_rows w t (d t)"
  shows "rows = (case find (has_key i) (d t) of None \<Rightarrow> [] | Some r \<Rightarrow> [map r cols])"
proof -
  have "rows = map (\<lambda>r. map r cols) (filter (has_key i) (d t))"
    using assms(1) by (simp add: by_id_sql_def exec_query_Inr_iff has_key_def [abs_def] comp_def)
  also have "filter (has_key i) (d t) = (case find (has_key i) (d t) of None \<Rightarrow> [] | Some r \<Rightarrow> [r])"
    by (rule filter_single) (rule has_key_single [where d = d, OF assms(2)])
  finally show ?thesis by (auto split: option.splits)
qed

locale profile_family =
  fixes t h1 h2 :: tname and fk :: string and c1 c2 ucols :: "string list"
    and ident :: "'m \<Rightarrow> int" and v1 v2 :: "'m \<Rightarrow> string list" and params :: "'m \<Rightarrow> sql_val list"
    and sync body :: "'m \<Rightarrow> unit tx"
  assumes body_eq: "body x =
      tx_bind (do_query (by_id_sql t (c1 @ c2)) [IntV (ident x)]) (\<lambda>old.
      tx_then (do_execute (Insert t (''id'' # ucols) (args_from 0 (''id'' # ucols)) (Some ucols)) (params x))
      (tx_then (profile_history h1 h2 fk c1 c2 (ident x) (v1 x) (v2 x) old) (sync x)))"
    and tables: "t \<noteq> h1" "t \<noteq> h2" "h1 \<noteq> h2"
    and keys: "td_uniques (schema t) = [[''id'']]" "\<not> td_auto (schema t)"
    and cols: "distinct (''id'' # ucols)" "distinct (fk # c1)" "distinct (fk # c2)"
      "''id'' \<notin> set (fk # c1 @ c2)" "set (c1 @ c2) \<subseteq> set ucols"
    and lengths: "length (v1 x) = length c1" "length (v2 x) = length c2"
      "length (params x) = Suc (length ucols)"
    and written: "hd (params x) = IntV (ident x)"
      "map (\<lambda>c. text_or (the (map_of (zip (''id'' # ucols) (params x)) c)) '''') c1 = v1 x"
      "map (\<lambda>c. text_or (the (map_of (zip (''id'' # ucols) (params x)) c)) '''') c2 = v2 x"
    and sync_frame: "keeps (view_rel (untouched {t, h1, h2})) (sync x)"
    and sync_ok: "keeps (on_view db_ok) (sync x)" "keeps isolation (sync x)"
begin

text \<open>What the upsert statement writes.\<close>

lemma new_value:
  assumes "c \<in> set (''id'' # ucols)"
  shows "new_row w (params x) t (''id'' # ucols) (args_from 0 (''id'' # ucols)) au c =
    the (map_of (zip (''id'' # ucols) (params x)) c)"
proof -
  have "new_row w (params x) t (''id'' # ucols) (args_from 0 (''id'' # ucols)) au c =
    (case map_of (zip (''id'' # ucols) (params x)) c of None \<Rightarrow> blank_row t c | Some v \<Rightarrow> v)"
    using cols(1) lengths(3) [of x] keys(2) by (intro new_row_args) simp_all
  moreover obtain v where "map_of (zip (''id'' # ucols) (params x)) c = Some v"
    using map_of_zip_the [OF assms, of "params x"] lengths(3) [of x] by auto
  ultimately show ?thesis by (simp only: option.case option.sel)
qed

lemma upsert_effect:
  assumes uniq: "uniq_rows w t (d t)"
    and ex: "exec_stmt w (params x) (Insert t (''id'' # ucols) (args_from 0 (''id'' # ucols)) (Some ucols))
      d au = Inr (d', au')"
  shows "current t c1 d' = (current t c1 d)(ident x \<mapsto> v1 x)"
    and "current t c2 d' = (current t c2 d)(ident x \<mapsto> v2 x)"
    and "\<exists>r. find (has_key (ident x)) (d' t) = Some r \<and> map r (''id'' # ucols) = params x \<and>
      (\<forall>c. c \<notin> set (''id'' # ucols) \<longrightarrow> r c = (case find (has_key (ident x)) (d t) of
         None \<Rightarrow> blank_row t c | Some old \<Rightarrow> old c))"
    and "\<And>j. j \<noteq> ident x \<Longrightarrow> find (has_key j) (d' t) = find (has_key j) (d t)"
    and "\<And>t'. t' \<noteq> t \<Longrightarrow> d' t' = d t'"
proof -
  let ?new = "new_row w (params x) t (''id'' # ucols) (args_from 0 (''id'' # ucols)) au"
  have id: "?new ''id'' = IntV (ident x)"
    using new_value [of "''id''" w x au] written(1) [of x] lengths(3) [of x]
    by (cases "params x") simp_all
  note up = upsert_by_id [where d = d, OF uniq keys(1) id _ ex]
  show frame: "d' t' = d t'" if "t' \<noteq> t" for t' using up(1) cols(1) that by simp
  show other: "find (has_key j) (d' t) = find (has_key j) (d t)" if "j \<noteq> ident x" for j
    using up(3) cols(1) that by simp
  let ?r = "case find (has_key (ident x)) (d t) of None \<Rightarrow> ?new | Some old \<Rightarrow> copy_cols ucols ?new old"
  have r: "find (has_key (ident x)) (d' t) = Some ?r" using up(2) cols(1) by simp
  have old_id: "old ''id'' = IntV (ident x)" if "find (has_key (ident x)) (d t) = Some old" for old
    using find_Some_mem [OF that] by (simp add: has_key_def)
  have vals: "?r c = the (map_of (zip (''id'' # ucols) (params x)) c)" if "c \<in> set (''id'' # ucols)" for c
    using new_value [OF that] that old_id id cols(1)
    by (auto simp: copy_cols_apply split: option.split)
  have "map ?r (''id'' # ucols) = map (\<lambda>c. the (map_of (zip (''id'' # ucols) (params x)) c)) (''id'' # ucols)"
    using vals by (intro map_cong) simp_all
  also have "\<dots> = params x"
    using cols(1) lengths(3) by (intro map_of_zip_self) simp_all
  finally have "map ?r (''id'' # ucols) = params x" .
  moreover have "?r c = (case find (has_key (ident x)) (d t) of None \<Rightarrow> blank_row t c | Some old \<Rightarrow> old c)"
    if "c \<notin> set (''id'' # ucols)" for c
  proof -
    have "?new c = blank_row t c"
      using that keys(2) by (simp add: new_row_def Let_def)
    with that show ?thesis by (simp add: copy_cols_apply split: option.split)
  qed
  ultimately show "\<exists>r. find (has_key (ident x)) (d' t) = Some r \<and> map r (''id'' # ucols) = params x \<and>
      (\<forall>c. c \<notin> set (''id'' # ucols) \<longrightarrow> r c = (case find (has_key (ident x)) (d t) of
         None \<Rightarrow> blank_row t c | Some old \<Rightarrow> old c))"
    using r by blast
  have t1: "texts c1 ?r = v1 x" and t2: "texts c2 ?r = v2 x"
    unfolding written(2,3) [symmetric] texts_def using cols(5) by (auto intro!: map_cong simp: vals)
  show "current t c1 d' = (current t c1 d)(ident x \<mapsto> v1 x)"
  proof
    fix j show "current t c1 d' j = ((current t c1 d)(ident x \<mapsto> v1 x)) j"
      using r t1 other [of j] by (cases "j = ident x") (simp_all add: current_def)
  qed
  show "current t c2 d' = (current t c2 d)(ident x \<mapsto> v2 x)"
  proof
    fix j show "current t c2 d' j = ((current t c2 d)(ident x \<mapsto> v2 x)) j"
      using r t2 other [of j] by (cases "j = ident x") (simp_all add: current_def)
  qed
qed

text \<open>The history part.\<close>

lemma hist_insert:
  assumes "(h, c) \<in> {(h1, c1), (h2, c2)}" and "length v = length c"
    and "do_insert (hist_sql h fk c) (IntV i # map TextV v) sv s = (Inr a, u)"
  shows "past h fk c (view u) = (past h fk c (view s))(i := past h fk c (view s) i @ [v]) \<and>
    (\<forall>t. t \<noteq> h \<longrightarrow> view u t = view s t)"
proof -
  have ok: "distinct (fk # c)" "''id'' \<notin> set (fk # c)" using assms(1) cols(2,3,4) by auto
  from assms(3) have "exec_stmt (weight sv) (IntV i # map TextV v) (hist_sql h fk c) (view s) (autos s) =
      Inr (view u, autos u)" by (rule do_insertE)
  from hist_effect [OF this ok assms(2)] show ?thesis by blast
qed

lemma hist_insert_if:
  assumes hc: "(h, c) \<in> {(h1, c1), (h2, c2)}" and "length old = length c"
    and run: "(if old \<noteq> v then tx_bind (do_insert (hist_sql h fk c) (IntV i # map TextV old)) (\<lambda>_. tx_return ())
      else tx_return ()) sv s = (Inr (), u)"
  shows "past h fk c (view u) = (past h fk c (view s))(i := past h fk c (view s) i @ tracked_step (Some old) v) \<and>
    (\<forall>t. t \<noteq> h \<longrightarrow> view u t = view s t)"
  using run hist_insert [OF hc assms(2), of i sv s _ u]
  by (auto simp: tx_bind_run tx_return_run split: if_splits)

lemma history_steps:
  assumes run: "profile_history h1 h2 fk c1 c2 (ident x) (v1 x) (v2 x)
      (case old of None \<Rightarrow> [] | Some r \<Rightarrow> [map r (c1 @ c2)]) sv s = (Inr (), u)"
  obtains s1 :: session where "past h1 fk c1 (view s1) = (past h1 fk c1 (view s))(ident x := past h1 fk c1 (view s) (ident x) @
      tracked_step (map_option (texts c1) old) (v1 x)) \<and> (\<forall>t. t \<noteq> h1 \<longrightarrow> view s1 t = view s t)"
    and "past h2 fk c2 (view u) = (past h2 fk c2 (view s1))(ident x := past h2 fk c2 (view s1) (ident x) @
      tracked_step (map_option (texts c2) old) (v2 x)) \<and> (\<forall>t. t \<noteq> h2 \<longrightarrow> view u t = view s1 t)"
proof (cases old)
  case None
  with run obtain a1 a2 s1 where
    i: "do_insert (hist_sql h1 fk c1) (IntV (ident x) # map TextV (v1 x)) sv s = (Inr a1, s1)"
    "do_insert (hist_sql h2 fk c2) (IntV (ident x) # map TextV (v2 x)) sv s1 = (Inr a2, u)"
    by (auto simp: profile_history_def elim!: tx_bindE tx_returnE)
  show thesis
    by (rule that [of s1]) (use hist_insert [OF _ lengths(1) i(1)] hist_insert [OF _ lengths(2) i(2)] None in simp_all)
next
  case (Some r)
  have o1: "map (\<lambda>k. text_or (map r (c1 @ c2) ! k) '''') [0..<length c1] = texts c1 r"
    by (rule nth_equalityI) (simp_all add: texts_def nth_append)
  have o2: "map (\<lambda>k. text_or (map r (c1 @ c2) ! k) '''') [length c1..<length c1 + length c2] = texts c2 r"
    by (rule nth_equalityI) (simp_all add: texts_def nth_append)
  have len: "length (texts c1 r) = length c1" "length (texts c2 r) = length c2" by (simp_all add: texts_def)
  have "profile_history h1 h2 fk c1 c2 (ident x) (v1 x) (v2 x) [map r (c1 @ c2)] =
    tx_then
      (if texts c1 r \<noteq> v1 x then tx_bind (do_insert (hist_sql h1 fk c1)
        (IntV (ident x) # map TextV (texts c1 r))) (\<lambda>_. tx_return ()) else tx_return ())
      (if texts c2 r \<noteq> v2 x then tx_bind (do_insert (hist_sql h2 fk c2)
        (IntV (ident x) # map TextV (texts c2 r))) (\<lambda>_. tx_return ()) else tx_return ())"
    unfolding profile_history_def Let_def list.sel(1) o1 o2 by simp
  with run Some obtain s1 where
    "(if texts c1 r \<noteq> v1 x then tx_bind (do_insert (hist_sql h1 fk c1)
      (IntV (ident x) # map TextV (texts c1 r))) (\<lambda>_. tx_return ()) else tx_return ()) sv s = (Inr (), s1)"
    "(if texts c2 r \<noteq> v2 x then tx_bind (do_insert (hist_sql h2 fk c2)
      (IntV (ident x) # map TextV (texts c2 r))) (\<lambda>_. tx_return ()) else tx_return ()) sv s1 = (Inr (), u)"
    by (auto elim: tx_thenE simp del: map_append)
  note i = hist_insert_if [OF _ len(1) this(1)] hist_insert_if [OF _ len(2) this(2)]
  show thesis by (rule that [of s1]) (use i Some in simp_all)
qed

lemma history_run:
  assumes run: "profile_history h1 h2 fk c1 c2 (ident x) (v1 x) (v2 x)
      (case old of None \<Rightarrow> [] | Some r \<Rightarrow> [map r (c1 @ c2)]) sv s = (Inr (), u)"
  shows "past h1 fk c1 (view u) = (past h1 fk c1 (view s))(ident x := past h1 fk c1 (view s) (ident x) @
      tracked_step (map_option (texts c1) old) (v1 x))"
    and "past h2 fk c2 (view u) = (past h2 fk c2 (view s))(ident x := past h2 fk c2 (view s) (ident x) @
      tracked_step (map_option (texts c2) old) (v2 x))"
    and "\<And>t'. t' \<noteq> h1 \<Longrightarrow> t' \<noteq> h2 \<Longrightarrow> view u t' = view s t'"
proof -
  obtain s1 :: session where r: "past h1 fk c1 (view s1) = (past h1 fk c1 (view s))(ident x := past h1 fk c1 (view s) (ident x) @
      tracked_step (map_option (texts c1) old) (v1 x)) \<and> (\<forall>t. t \<noteq> h1 \<longrightarrow> view s1 t = view s t)"
    "past h2 fk c2 (view u) = (past h2 fk c2 (view s1))(ident x := past h2 fk c2 (view s1) (ident x) @
      tracked_step (map_option (texts c2) old) (v2 x)) \<and> (\<forall>t. t \<noteq> h2 \<longrightarrow> view u t = view s1 t)"
    by (rule history_steps [OF run])
  have "past h1 fk c1 (view u) = past h1 fk c1 (view s1)" "past h2 fk c2 (view s1) = past h2 fk c2 (view s)"
    using r tables by (intro past_frame; simp)+
  with r show "past h1 fk c1 (view u) = (past h1 fk c1 (view s))(ident x := past h1 fk c1 (view s) (ident x) @
      tracked_step (map_option (texts c1) old) (v1 x))"
    and "past h2 fk c2 (view u) = (past h2 fk c2 (view s))(ident x := past h2 fk c2 (view s) (ident x) @
      tracked_step (map_option (texts c2) old) (v2 x))"
    and "\<And>t'. t' \<noteq> h1 \<Longrightarrow> t' \<noteq> h2 \<Longrightarrow> view u t' = view s t'" by simp_all
qed

end

context profile_family
begin

lemma body_keeps: "keeps (on_view db_ok) (body x)" "keeps isolation (body x)"
  unfolding body_eq profile_history_def Let_def
  by (intro integrity.keeps_rules sync_ok; simp)
    (intro iso.keeps_rules sync_ok; simp)

lemma body_run:
  assumes uniq: "uniq_rows (weight sv) t (view s t)" and run: "body x sv s = (Inr (), u)"
  shows "current t c1 (view u) = (current t c1 (view s))(ident x \<mapsto> v1 x)"
    and "current t c2 (view u) = (current t c2 (view s))(ident x \<mapsto> v2 x)"
    and "past h1 fk c1 (view u) = (past h1 fk c1 (view s))(ident x := past h1 fk c1 (view s) (ident x) @
      tracked_step (current t c1 (view s) (ident x)) (v1 x))"
    and "past h2 fk c2 (view u) = (past h2 fk c2 (view s))(ident x := past h2 fk c2 (view s) (ident x) @
      tracked_step (current t c2 (view s) (ident x)) (v2 x))"
    and "\<exists>r. find (has_key (ident x)) (view u t) = Some r \<and> map r (''id'' # ucols) = params x \<and>
      (\<forall>c. c \<notin> set (''id'' # ucols) \<longrightarrow> r c = (case find (has_key (ident x)) (view s t) of
         None \<Rightarrow> blank_row t c | Some old \<Rightarrow> old c))"
    and "\<And>j. j \<noteq> ident x \<Longrightarrow> find (has_key j) (view u t) = find (has_key j) (view s t)"
proof -
  let ?i = "ident x"
  from run obtain old and s1 s2 s3 :: session where
    look: "exec_query (weight sv) [IntV ?i] (by_id_sql t (c1 @ c2)) (view s) = Inr old"
    and s1: "view s1 = view s"
    and up: "exec_stmt (weight sv) (params x)
      (Insert t (''id'' # ucols) (args_from 0 (''id'' # ucols)) (Some ucols)) (view s1) (autos s1)
      = Inr (view s2, autos s2)"
    and hist: "profile_history h1 h2 fk c1 c2 ?i (v1 x) (v2 x) old sv s2 = (Inr (), s3)"
    and sync: "sync x sv s3 = (Inr (), u)"
    unfolding body_eq by (elim tx_bindE tx_thenE do_queryE do_executeE) (rule that)
  let ?o = "find (has_key ?i) (view s t)"
  have old: "old = (case ?o of None \<Rightarrow> [] | Some r \<Rightarrow> [map r (c1 @ c2)])"
    using look uniq by (rule by_id_rows)
  have uniq1: "uniq_rows (weight sv) t (view s1 t)" using uniq s1 by simp
  note up' = upsert_effect [where d = "view s1", OF uniq1 up, unfolded s1]
  note hist' = history_run [OF hist [unfolded old]]
  have sync': "view u t' = view s3 t'" if "t' \<in> {t, h1, h2}" for t'
    using keepsD [OF sync_frame sync] that by (auto simp: view_rel_def untouched_def)
  have ut: "view u t = view s2 t" using sync' [of t] hist'(3) [of t] tables by simp
  have h1: "past h1 fk c1 (view s2) = past h1 fk c1 (view s)"
    "past h2 fk c2 (view s2) = past h2 fk c2 (view s)"
    using up'(5) tables by (intro past_frame; simp)+
  have h2: "past h1 fk c1 (view u) = past h1 fk c1 (view s3)"
    "past h2 fk c2 (view u) = past h2 fk c2 (view s3)"
    using sync' by (intro past_frame; simp)+
  have cur: "current t c (view u) = current t c (view s2)" for c
    using ut by (rule current_frame)
  show "current t c1 (view u) = (current t c1 (view s))(?i \<mapsto> v1 x)"
    "current t c2 (view u) = (current t c2 (view s))(?i \<mapsto> v2 x)"
    using up'(1,2) by (simp_all add: cur)
  show "past h1 fk c1 (view u) = (past h1 fk c1 (view s))(?i := past h1 fk c1 (view s) ?i @
      tracked_step (current t c1 (view s) ?i) (v1 x))"
    "past h2 fk c2 (view u) = (past h2 fk c2 (view s))(?i := past h2 fk c2 (view s) ?i @
      tracked_step (current t c2 (view s) ?i) (v2 x))"
    using hist'(1,2) by (simp_all add: h1 h2 current_def)
  show "\<exists>r. find (has_key ?i) (view u t) = Some r \<and> map r (''id'' # ucols) = params x \<and>
      (\<forall>c. c \<notin> set (''id'' # ucols) \<longrightarrow> r c = (case ?o of None \<Rightarrow> blank_row t c | Some old \<Rightarrow> old c))"
    using up'(3) by (simp add: ut)
  show "find (has_key j) (view u t) = find (has_key j) (view s t)" if "j \<noteq> ?i" for j
    using up'(4) that by (simp add: ut)
qed

text \<open>The sync runs last, on rows of other tables as they were.\<close>

lemma body_sync:
  assumes ok: "db_ok (weight sv) (view s) (autos s)" and run: "body x sv s = (Inr (), u)"
  obtains v where "sync x sv v = (Inr (), u)" and "db_ok (weight sv) (view v) (autos v)"
    and "\<And>t'. t' \<notin> {t, h1, h2} \<Longrightarrow> view v t' = view s t'"
proof -
  let ?pre = "tx_bind (do_query (by_id_sql t (c1 @ c2)) [IntV (ident x)]) (\<lambda>old.
      tx_then (do_execute (Insert t (''id'' # ucols) (args_from 0 (''id'' # ucols)) (Some ucols)) (params x))
      (profile_history h1 h2 fk c1 c2 (ident x) (v1 x) (v2 x) old))"
  from run obtain v where pre: "?pre sv s = (Inr (), v)" and sync: "sync x sv v = (Inr (), u)"
    unfolding body_eq by (auto simp: tx_bind_run tx_then_run)
  have "keeps (on_view db_ok) ?pre"
    unfolding profile_history_def Let_def by (intro integrity.keeps_rules; simp)
  from keepsD [OF this pre] ok have ok': "db_ok (weight sv) (view v) (autos v)" by (simp add: on_view_def)
  have "keeps (view_rel (untouched (- {t, h1, h2}))) ?pre"
    unfolding profile_history_def Let_def by (intro frame.keeps_rules; simp add: hist_sql_def)
  from keepsD [OF this pre] have "view v t' = view s t'" if "t' \<notin> {t, h1, h2}" for t'
    using that by (simp add: view_rel_def untouched_def)
  with sync ok' show thesis by (rule that)
qed

lemma upsert_returns:
  assumes run: "transaction (body x) sv s = (Inr (), u)" and s: "clean s"
    and ok: "db_ok (weight sv) (view s) (autos s)"
  shows "current t c1 (disk u) = (current t c1 (disk s))(ident x \<mapsto> v1 x)"
    and "current t c2 (disk u) = (current t c2 (disk s))(ident x \<mapsto> v2 x)"
    and "past h1 fk c1 (disk u) = (past h1 fk c1 (disk s))(ident x := past h1 fk c1 (disk s) (ident x) @
      tracked_step (current t c1 (disk s) (ident x)) (v1 x))"
    and "past h2 fk c2 (disk u) = (past h2 fk c2 (disk s))(ident x := past h2 fk c2 (disk s) (ident x) @
      tracked_step (current t c2 (disk s) (ident x)) (v2 x))"
    and "\<exists>r. find (has_key (ident x)) (disk u t) = Some r \<and> map r (''id'' # ucols) = params x \<and>
      (\<forall>c. c \<notin> set (''id'' # ucols) \<longrightarrow> r c = (case find (has_key (ident x)) (disk s t) of
         None \<Rightarrow> blank_row t c | Some old \<Rightarrow> old c))"
    and "\<And>j. j \<noteq> ident x \<Longrightarrow> find (has_key j) (disk u t) = find (has_key j) (disk s t)"
    and "clean u" and "db_ok (weight sv) (view u) (autos u)"
proof -
  obtain s1 s2 where *: "body x sv s1 = (Inr (), s2)" "db_ok (weight sv) (view s1) (autos s1)"
    "view s1 = view s" "disk u = view s2" "clean u" "db_ok (weight sv) (view u) (autos u)"
    by (rule transaction_run [OF run body_keeps(1) ok]) (rule that)
  have "uniq_rows (weight sv) t (view s1 t)" using *(2) by (simp add: db_ok_def)
  note b = body_run [OF this *(1), unfolded *(3) clean_begun [OF s], folded *(4)]
  show "current t c1 (disk u) = (current t c1 (disk s))(ident x \<mapsto> v1 x)"
    and "current t c2 (disk u) = (current t c2 (disk s))(ident x \<mapsto> v2 x)"
    and "past h1 fk c1 (disk u) = (past h1 fk c1 (disk s))(ident x := past h1 fk c1 (disk s) (ident x) @
      tracked_step (current t c1 (disk s) (ident x)) (v1 x))"
    and "past h2 fk c2 (disk u) = (past h2 fk c2 (disk s))(ident x := past h2 fk c2 (disk s) (ident x) @
      tracked_step (current t c2 (disk s) (ident x)) (v2 x))"
    and "\<exists>r. find (has_key (ident x)) (disk u t) = Some r \<and> map r (''id'' # ucols) = params x \<and>
      (\<forall>c. c \<notin> set (''id'' # ucols) \<longrightarrow> r c = (case find (has_key (ident x)) (disk s t) of
         None \<Rightarrow> blank_row t c | Some old \<Rightarrow> old c))"
    and "\<And>j. j \<noteq> ident x \<Longrightarrow> find (has_key j) (disk u t) = find (has_key j) (disk s t)"
    and "clean u" and "db_ok (weight sv) (view u) (autos u)"
    by (fact b *)+
qed

text \<open>A sequence of upserts of one id records every version.\<close>

lemma versions_rest:
  assumes "tx_for (\<lambda>x. transaction (body x)) xs sv s = (Inr (), u)"
    and "clean s" and "db_ok (weight sv) (view s) (autos s)" and "\<And>x. x \<in> set xs \<Longrightarrow> ident x = i"
    and "current t c1 (disk s) i = Some a1" and "current t c2 (disk s) i = Some a2"
  shows "past h1 fk c1 (disk u) i @ [the (current t c1 (disk u) i)] =
      past h1 fk c1 (disk s) i @ remdups_adj (a1 # map v1 xs) \<and>
    past h2 fk c2 (disk u) i @ [the (current t c2 (disk u) i)] =
      past h2 fk c2 (disk s) i @ remdups_adj (a2 # map v2 xs)"
  using assms
proof (induction xs arbitrary: s a1 a2)
  case Nil
  then show ?case by (simp add: tx_return_run)
next
  case (Cons x xs)
  from Cons.prems(1) obtain v where one: "transaction (body x) sv s = (Inr (), v)"
    and rest: "tx_for (\<lambda>x. transaction (body x)) xs sv v = (Inr (), u)"
    by (auto simp: tx_then_run)
  note ret = upsert_returns [OF one Cons.prems(2,3)]
  have x: "ident x = i" using Cons.prems(4) by simp
  have "current t c1 (disk v) i = Some (v1 x)" and "current t c2 (disk v) i = Some (v2 x)"
    using ret(1,2) x by simp_all
  with Cons.IH [OF rest ret(7,8)] Cons.prems(4) ret(3,4) Cons.prems(5,6) x
  show ?case by auto
qed

lemma versions:
  assumes run: "tx_for (\<lambda>x. transaction (body x)) (x # xs) sv s = (Inr (), u)"
    and s: "clean s" "db_ok (weight sv) (view s) (autos s)"
    and xs: "\<And>y. y \<in> set (x # xs) \<Longrightarrow> ident y = i"
    and none: "find (has_key i) (disk s t) = None"
  shows "past h1 fk c1 (disk u) i @ [the (current t c1 (disk u) i)] =
      past h1 fk c1 (disk s) i @ v1 x # remdups_adj (map v1 (x # xs)) \<and>
    past h2 fk c2 (disk u) i @ [the (current t c2 (disk u) i)] =
      past h2 fk c2 (disk s) i @ v2 x # remdups_adj (map v2 (x # xs))"
proof -
  from run obtain v where one: "transaction (body x) sv s = (Inr (), v)"
    and rest: "tx_for (\<lambda>x. transaction (body x)) xs sv v = (Inr (), u)"
    by (auto simp: tx_then_run)
  note ret = upsert_returns [OF one s]
  have x: "ident x = i" using xs by simp
  have "current t c1 (disk v) i = Some (v1 x)" and "current t c2 (disk v) i = Some (v2 x)"
    using ret(1,2) x by simp_all
  from versions_rest [OF rest ret(7,8) _ this] xs ret(3,4) x none show ?thesis
    by (simp add: current_def)
qed

end
section \<open>Users and groups\<close>

lemma user_columns_args: "args_from 0 (''id'' # user_columns) =
    [Arg 0, Arg 1, Arg 2, Arg 3, Arg 4, Arg 5, Arg 6, Arg 7, Arg 8, Arg 9, Arg 10, Arg 11, Arg 12,
     Arg 13, Arg 14, Arg 15, Arg 16, Arg 17, Arg 18, Arg 19, Arg 20, Arg 21, Arg 22, Arg 23, Arg 24]"
  by (simp add: user_columns_def)

interpretation user: profile_family T_users T_user_hist_name T_user_hist_phone_num "''user_id''"
  "[''first_name'', ''last_name'']" "[''phone_number'']" user_columns
  u_id "\<lambda>u. [u_first_name u, u_last_name u]" "\<lambda>u. [u_phone_number u]" user_params
  syncUsernames upsertUser_body
proof unfold_locales
  fix u
  show "upsertUser_body u =
    tx_bind (do_query (by_id_sql T_users ([''first_name'', ''last_name''] @ [''phone_number'']))
      [IntV (u_id u)]) (\<lambda>old.
    tx_then (do_execute (Insert T_users (''id'' # user_columns) (args_from 0 (''id'' # user_columns))
        (Some user_columns)) (user_params u))
    (tx_then (profile_history T_user_hist_name T_user_hist_phone_num ''user_id''
        [''first_name'', ''last_name''] [''phone_number''] (u_id u)
        [u_first_name u, u_last_name u] [u_phone_number u] old)
      (syncUsernames u)))"
  proof -
    have hist: "user_history u old = profile_history T_user_hist_name T_user_hist_phone_num ''user_id''
        [''first_name'', ''last_name''] [''phone_number''] (u_id u)
        [u_first_name u, u_last_name u] [u_phone_number u] old" for old
      by (simp add: user_history_def profile_history_def hist_sql_def user_name_sql_def
          user_phone_sql_def numeral_eq_Suc Let_def)
    show ?thesis
      by (simp only: upsertUser_body_def hist user_old_sql_def user_upsert_sql_def updates_all by_id_sql_def
          user_columns_args append.simps list.map)
  qed
  show "keeps (view_rel (untouched {T_users, T_user_hist_name, T_user_hist_phone_num})) (syncUsernames u)"
    by (rule frame.syncUsernames_keeps)
      (simp_all add: user_event_sql_def user_release_sql_def user_claim_sql_def)
  show "keeps (on_view db_ok) (syncUsernames u)" and "keeps isolation (syncUsernames u)"
    by (simp_all add: integrity.syncUsernames_keeps iso.syncUsernames_keeps)
qed (simp_all add: users_def_def user_columns_def user_params_def)

interpretation group: profile_family T_groups T_group_hist_title T_group_hist_description "''group_id''"
  "[''title'']" "[''description'']" "[''type'', ''title'', ''description'']"
  g_id "\<lambda>g. [g_title g]" "\<lambda>g. [g_description g]" group_params
  syncGroupUsernames upsertGroup_body
proof unfold_locales
  fix g
  show "upsertGroup_body g =
    tx_bind (do_query (by_id_sql T_groups ([''title''] @ [''description''])) [IntV (g_id g)]) (\<lambda>old.
    tx_then (do_execute (Insert T_groups (''id'' # [''type'', ''title'', ''description''])
        (args_from 0 (''id'' # [''type'', ''title'', ''description'']))
        (Some [''type'', ''title'', ''description''])) (group_params g))
    (tx_then (profile_history T_group_hist_title T_group_hist_description ''group_id''
        [''title''] [''description''] (g_id g) [g_title g] [g_description g] old)
      (syncGroupUsernames g)))"
  proof -
    have hist: "group_history g old = profile_history T_group_hist_title T_group_hist_description
        ''group_id'' [''title''] [''description''] (g_id g) [g_title g] [g_description g] old" for old
      by (simp add: group_history_def profile_history_def hist_sql_def group_title_sql_def
          group_description_sql_def Let_def)
    have "group_upsert_sql = Insert T_groups (''id'' # [''type'', ''title'', ''description''])
        (args_from 0 (''id'' # [''type'', ''title'', ''description'']))
        (Some [''type'', ''title'', ''description''])"
      by (simp add: group_upsert_sql_def numeral_eq_Suc)
    then show ?thesis
      by (simp only: upsertGroup_body_def hist group_old_sql_def by_id_sql_def append.simps list.map)
  qed
  show "keeps (view_rel (untouched {T_groups, T_group_hist_title, T_group_hist_description}))
      (syncGroupUsernames g)"
    by (rule frame.syncGroupUsernames_keeps)
      (simp_all add: group_event_sql_def group_release_sql_def group_claim_sql_def)
  show "keeps (on_view db_ok) (syncGroupUsernames g)" and "keeps isolation (syncGroupUsernames g)"
    by (simp_all add: integrity.syncGroupUsernames_keeps iso.syncGroupUsernames_keeps)
qed (simp_all add: groups_def_def group_params_def)
section \<open>Photos\<close>

definition cur_photo :: "tname \<Rightarrow> string \<Rightarrow> db \<Rightarrow> int \<Rightarrow> sql_val option" where
  "cur_photo t col d i = map_option (\<lambda>r. r col) (find (has_key i) (d t))"

definition past_photos :: "tname \<Rightarrow> string \<Rightarrow> db \<Rightarrow> int \<Rightarrow> sql_val list" where
  "past_photos h fk d i = map (\<lambda>r. r ''file_id'') (filter (\<lambda>r. r fk = IntV i) (d h))"

text \<open>NULL means no photo yet.\<close>

definition photo_of :: "sql_val \<Rightarrow> sql_val option" where
  "photo_of v = (if v = Null then None else Some v)"

definition photo_hist_sql :: "tname \<Rightarrow> string \<Rightarrow> sql_stmt" where
  "photo_hist_sql h fk = Insert h [fk, ''file_id''] [Arg 0, Arg 1] None"

definition photo_set_sql :: "tname \<Rightarrow> string \<Rightarrow> sql_stmt" where
  "photo_set_sql t col = Update t None [(col, Arg 0)] [(''id'', Arg 1)]"

definition photo_track :: "tname \<Rightarrow> tname \<Rightarrow> string \<Rightarrow> string \<Rightarrow> int \<Rightarrow> int \<Rightarrow> unit tx" where
  "photo_track t h fk col i f =
     tx_bind (do_query (by_id_sql t [col]) [IntV i]) (\<lambda>rows.
     if rows = [] then tx_return ()
     else if first_value rows = Null then
       tx_bind (do_insert (photo_hist_sql h fk) [IntV i, IntV f]) (\<lambda>_. tx_return ())
     else
       tx_bind (stoll (first_value rows)) (\<lambda>old_id.
       if old_id = f then tx_return ()
       else tx_bind (do_insert (photo_hist_sql h fk) [IntV i, IntV old_id]) (\<lambda>_. tx_return ())))"

locale photo_family =
  fixes t h :: tname and fk col :: string and body :: "int \<Rightarrow> int \<Rightarrow> unit tx"
  assumes body_eq: "body i f = tx_then (photo_track t h fk col i f)
      (do_execute (photo_set_sql t col) [IntV f, IntV i])"
    and tables: "t \<noteq> h"
    and cols: "fk \<noteq> ''id''" "fk \<noteq> ''file_id''" "col \<noteq> ''id''"
begin

lemma body_keeps: "keeps (on_view db_ok) (body i f)" "keeps isolation (body i f)"
  unfolding body_eq photo_track_def
  by (intro integrity.keeps_rules; simp) (intro iso.keeps_rules; simp)

lemma photo_hist_effect:
  assumes "do_insert (photo_hist_sql h fk) [IntV i, IntV f] sv s = (Inr a, u)"
  shows "past_photos h fk (view u) = (past_photos h fk (view s))(i := past_photos h fk (view s) i @ [IntV f])"
    and "view u t = view s t"
proof -
  have ex: "exec_stmt (weight sv) [IntV i, IntV f] (photo_hist_sql h fk) (view s) (autos s)
      = Inr (view u, autos u)"
    using assms by (rule do_insertE)
  have "view u = (view s)(h := view s h @ [new_row (weight sv) [IntV i, IntV f] h [fk, ''file_id'']
      [Arg 0, Arg 1] (autos s)])"
    using exec_insert_append [OF ex [unfolded photo_hist_sql_def]] by simp
  moreover have "new_row (weight sv) [IntV i, IntV f] h [fk, ''file_id''] [Arg 0, Arg 1] (autos s) fk
      = IntV i"
    "new_row (weight sv) [IntV i, IntV f] h [fk, ''file_id''] [Arg 0, Arg 1] (autos s) ''file_id''
      = IntV f"
    using cols by (simp_all add: new_row_def Let_def)
  ultimately show "past_photos h fk (view u) =
      (past_photos h fk (view s))(i := past_photos h fk (view s) i @ [IntV f])"
    and "view u t = view s t"
    using tables by (auto simp: past_photos_def fun_eq_iff)
qed

lemma set_effect:
  assumes "do_execute (photo_set_sql t col) [IntV f, IntV i] sv s = (Inr (), u)"
  shows "cur_photo t col (view u) = (cur_photo t col (view s))(i := map_option (\<lambda>_. IntV f)
      (cur_photo t col (view s) i))"
    and "view u h = view s h"
proof -
  have ex: "exec_stmt (weight sv) [IntV f, IntV i] (photo_set_sql t col) (view s) (autos s)
      = Inr (view u, autos u)"
    using assms by (rule do_executeE)
  have d': "view u = (view s)(t := map (\<lambda>r. if has_key i r then r(col := IntV f) else r) (view s t))"
    using exec_update_rows(1) [OF ex [unfolded photo_set_sql_def]]
    by (simp add: has_key_def cong: if_cong)
  then show "view u h = view s h" using tables by simp
  have same: "find (has_key i) (view u t) = map_option (\<lambda>r. r(col := IntV f)) (find (has_key i) (view s t))"
    unfolding d' fun_upd_same by (rule find_updated) (use cols in \<open>simp add: has_key_def\<close>)
  have other: "find (has_key j) (view u t) = find (has_key j) (view s t)" if "j \<noteq> i" for j
    unfolding d' fun_upd_same
    by (rule find_updated_other) (use cols that in \<open>auto simp: has_key_def\<close>)
  show "cur_photo t col (view u) = (cur_photo t col (view s))(i := map_option (\<lambda>_. IntV f)
      (cur_photo t col (view s) i))"
  proof
    fix j
    show "cur_photo t col (view u) j = ((cur_photo t col (view s))(i := map_option (\<lambda>_. IntV f)
        (cur_photo t col (view s) i))) j"
      using same other [of j] by (cases "j = i") (simp_all add: cur_photo_def option.map_comp comp_def)
  qed
qed

lemma cur_photo_frame: "d' t = d t \<Longrightarrow> cur_photo t col d' = cur_photo t col d"
  by (simp add: cur_photo_def fun_eq_iff)

lemma past_photos_frame: "d' h = d h \<Longrightarrow> past_photos h fk d' = past_photos h fk d"
  by (simp add: past_photos_def fun_eq_iff)

lemma body_run:
  assumes uniq: "uniq_rows (weight sv) t (view s t)" and run: "body i f sv s = (Inr (), u)"
  shows "cur_photo t col (view u) = (cur_photo t col (view s))(i := map_option (\<lambda>_. IntV f)
      (cur_photo t col (view s) i))"
    and "past_photos h fk (view u) = (past_photos h fk (view s))(i := past_photos h fk (view s) i @
      (case cur_photo t col (view s) i of None \<Rightarrow> [] | Some v \<Rightarrow> tracked_step (photo_of v) (IntV f)))"
proof -
  from run obtain s1 s2 :: session and rows where
    look: "exec_query (weight sv) [IntV i] (by_id_sql t [col]) (view s) = Inr rows"
    and s1: "view s1 = view s"
    and act: "(if rows = [] then tx_return ()
       else if first_value rows = Null then
         tx_bind (do_insert (photo_hist_sql h fk) [IntV i, IntV f]) (\<lambda>_. tx_return ())
       else
         tx_bind (stoll (first_value rows)) (\<lambda>old_id.
         if old_id = f then tx_return ()
         else tx_bind (do_insert (photo_hist_sql h fk) [IntV i, IntV old_id]) (\<lambda>_. tx_return ())))
      sv s1 = (Inr (), s2)"
    and set: "do_execute (photo_set_sql t col) [IntV f, IntV i] sv s2 = (Inr (), u)"
    unfolding body_eq photo_track_def by (elim tx_thenE tx_bindE do_queryE) (rule that)
  have rows: "rows = (case cur_photo t col (view s) i of None \<Rightarrow> [] | Some v \<Rightarrow> [[v]])"
    using by_id_rows [OF look uniq] by (auto simp: cur_photo_def split: option.splits)
  have s2: "past_photos h fk (view s2) = (past_photos h fk (view s))(i := past_photos h fk (view s) i @
      (case cur_photo t col (view s) i of None \<Rightarrow> [] | Some v \<Rightarrow> tracked_step (photo_of v) (IntV f)))
    \<and> view s2 t = view s t"
  proof (cases "cur_photo t col (view s) i")
    case None
    with act rows s1 show ?thesis by (simp add: tx_return_run)
  next
    case (Some v)
    show ?thesis
    proof (cases v)
      case Null
      with Some act rows obtain a where
        "do_insert (photo_hist_sql h fk) [IntV i, IntV f] sv s1 = (Inr a, s2)"
        by (auto simp: first_value_def tx_bind_run tx_return_run)
      from photo_hist_effect [OF this] Some Null s1 show ?thesis
        by (simp add: photo_of_def)
    next
      case (IntV o1)
      show ?thesis
      proof (cases "o1 = f")
        case True
        with Some act rows IntV s1 show ?thesis
          by (simp add: first_value_def tx_bind_run stoll_run tx_return_run photo_of_def)
      next
        case False
        with Some act rows IntV obtain a where
          "do_insert (photo_hist_sql h fk) [IntV i, IntV o1] sv s1 = (Inr a, s2)"
          by (auto simp: first_value_def tx_bind_run stoll_run tx_return_run)
        from photo_hist_effect [OF this] Some IntV False s1 show ?thesis
          by (simp add: photo_of_def)
      qed
    qed (use Some act rows in \<open>auto simp: first_value_def tx_bind_run stoll_run\<close>)
  qed
  note set' = set_effect [OF set]
  have "cur_photo t col (view s2) = cur_photo t col (view s)"
    using s2 by (intro cur_photo_frame) simp
  with set'(1) show "cur_photo t col (view u) = (cur_photo t col (view s))(i := map_option (\<lambda>_. IntV f)
      (cur_photo t col (view s) i))" by simp
  have "past_photos h fk (view u) = past_photos h fk (view s2)"
    using set'(2) by (rule past_photos_frame)
  with s2 show "past_photos h fk (view u) = (past_photos h fk (view s))(i := past_photos h fk (view s) i @
      (case cur_photo t col (view s) i of None \<Rightarrow> [] | Some v \<Rightarrow> tracked_step (photo_of v) (IntV f)))"
    by simp
qed

lemma photo_returns:
  assumes run: "transaction (body i f) sv s = (Inr (), u)" and s: "clean s"
    and ok: "db_ok (weight sv) (view s) (autos s)"
  shows "cur_photo t col (disk u) = (cur_photo t col (disk s))(i := map_option (\<lambda>_. IntV f)
      (cur_photo t col (disk s) i))"
    and "past_photos h fk (disk u) = (past_photos h fk (disk s))(i := past_photos h fk (disk s) i @
      (case cur_photo t col (disk s) i of None \<Rightarrow> [] | Some v \<Rightarrow> tracked_step (photo_of v) (IntV f)))"
    and "clean u" and "db_ok (weight sv) (view u) (autos u)"
proof -
  obtain s1 s2 where *: "body i f sv s1 = (Inr (), s2)" "db_ok (weight sv) (view s1) (autos s1)"
    "view s1 = view s" "disk u = view s2" "clean u" "db_ok (weight sv) (view u) (autos u)"
    by (rule transaction_run [OF run body_keeps(1) ok]) (rule that)
  have "uniq_rows (weight sv) t (view s1 t)" using *(2) by (simp add: db_ok_def)
  note b = body_run [OF this *(1), unfolded *(3) clean_begun [OF s], folded *(4)]
  show "cur_photo t col (disk u) = (cur_photo t col (disk s))(i := map_option (\<lambda>_. IntV f)
      (cur_photo t col (disk s) i))"
    and "past_photos h fk (disk u) = (past_photos h fk (disk s))(i := past_photos h fk (disk s) i @
      (case cur_photo t col (disk s) i of None \<Rightarrow> [] | Some v \<Rightarrow> tracked_step (photo_of v) (IntV f)))"
    and "clean u" and "db_ok (weight sv) (view u) (autos u)"
    by (fact b *)+
qed

end

interpretation user_photo: photo_family T_users T_user_hist_profile_photo "''user_id''"
  "''profile_photo_file_id''" setUserProfilePhoto_body
  by unfold_locales
    (simp_all add: setUserProfilePhoto_body_def trackProfilePhotoChange_def photo_track_def
      user_photo_old_sql_def by_id_sql_def user_photo_hist_sql_def photo_hist_sql_def
      user_photo_sql_def photo_set_sql_def cong: if_cong)

interpretation group_photo: photo_family T_groups T_group_hist_photo "''group_id''"
  "''photo_file_id''" setGroupPhoto_body
  by unfold_locales
    (simp_all add: setGroupPhoto_body_def trackGroupPhotoChange_def photo_track_def
      group_photo_old_sql_def by_id_sql_def group_photo_hist_sql_def photo_hist_sql_def
      group_photo_sql_def photo_set_sql_def cong: if_cong)
end
