(* ===== verification/Db_Names.thy ===== *)
theory Db_Names
  imports Db_Profiles
begin

text \<open>
  What the username sync of users and groups have in common. The abstract state maps a username, up
  to the collation of its column, to its holder, kind and position; the event log lists what each
  sync recorded. The locale \<open>name_family\<close> states one sync on both, and is interpreted on
  \<open>syncUsernames\<close> and \<open>syncGroupUsernames\<close>.
\<close>

section \<open>Abstract view\<close>

definition named :: "collation \<Rightarrow> string \<Rightarrow> row \<Rightarrow> bool" where
  "named w k r \<longleftrightarrow> val_eq w (r ''username'') (TextV k)"

type_synonym holding = "sql_val \<times> sql_val \<times> sql_val"

definition holding_of :: "string \<Rightarrow> row \<Rightarrow> holding" where
  "holding_of fk r = (r fk, r ''kind'', r ''position'')"

definition holder :: "collation \<Rightarrow> tname \<Rightarrow> string \<Rightarrow> db \<Rightarrow> string \<Rightarrow> holding option" where
  "holder w t fk d k = map_option (holding_of fk) (find (named w k) (d t))"

text \<open>How a username is written in the table: an upsert keeps the spelling of the existing row.\<close>

definition spelling :: "collation \<Rightarrow> tname \<Rightarrow> db \<Rightarrow> string \<Rightarrow> sql_val option" where
  "spelling w t d k = map_option (\<lambda>r. r ''username'') (find (named w k) (d t))"

definition spelled_after :: "collation \<Rightarrow> name_map \<Rightarrow> (string \<Rightarrow> sql_val option) \<Rightarrow> string \<Rightarrow> sql_val option" where
  "spelled_after w new sp k =
     (case sp k of Some v \<Rightarrow> Some v | None \<Rightarrow> map_option (TextV \<circ> fst) (find (\<lambda>n. w (fst n) = w k) new))"

text \<open>The usernames a user or group holds, as the sync loads them.\<close>

definition entry_of :: "row \<Rightarrow> string \<times> entry" where
  "entry_of r = (text_or (r ''username'') '''',
     (text_or (r ''kind'') '''', int_or0 (r ''position'')))"

definition owned :: "tname \<Rightarrow> string \<Rightarrow> db \<Rightarrow> int \<Rightarrow> name_map" where
  "owned t fk d i = foldl (\<lambda>m r. emplace (fst (entry_of r)) (snd (entry_of r)) m) []
     (filter (\<lambda>r. r fk = IntV i \<and> r ''username'' \<noteq> Null) (d t))"

type_synonym name_event = "sql_val \<times> sql_val \<times> sql_val \<times> sql_val \<times> sql_val"

definition name_log :: "tname \<Rightarrow> string \<Rightarrow> db \<Rightarrow> name_event list" where
  "name_log e fk d = map (\<lambda>r. (r fk, r ''username'', r ''action'', r ''kind'', r ''position'')) (d e)"

text \<open>The specification: what changes of the map are recorded, in which order.\<close>

definition change_event :: "int \<Rightarrow> name_map \<Rightarrow> string \<times> entry \<Rightarrow> name_event list" where
  "change_event i old n =
     (case n of (k, kind, p) \<Rightarrow>
        (case map_of old k of
           None \<Rightarrow> [(IntV i, TextV k, TextV ''added'', TextV kind, IntV p)]
         | Some (okind, op1) \<Rightarrow>
             if okind \<noteq> kind then [(IntV i, TextV k, TextV ''kind_changed'', TextV kind, IntV p)]
             else if op1 \<noteq> p then [(IntV i, TextV k, TextV ''reordered'', TextV kind, IntV p)]
             else []))"

definition removal_events :: "int \<Rightarrow> name_map \<Rightarrow> string list \<Rightarrow> name_event list" where
  "removal_events i new ks =
     map (\<lambda>k. (IntV i, TextV k, TextV ''removed'', Null, Null)) (filter (\<lambda>k. k \<notin> fst ` set new) ks)"

definition sync_events :: "int \<Rightarrow> name_map \<Rightarrow> name_map \<Rightarrow> string list \<Rightarrow> name_event list" where
  "sync_events i old new ks = concat (map (change_event i old) new) @ removal_events i new ks"

text \<open>The last entry of the new list for a username decides; otherwise a held name is released.\<close>

definition last_entry :: "collation \<Rightarrow> name_map \<Rightarrow> string \<Rightarrow> entry option" where
  "last_entry w new k = map_option snd (find (\<lambda>(n, e). w n = w k) (rev new))"

definition held_after :: "collation \<Rightarrow> int \<Rightarrow> name_map \<Rightarrow> (string \<Rightarrow> holding option) \<Rightarrow> string \<Rightarrow>
    holding option" where
  "held_after w i new h k =
     (case last_entry w new k of
        Some (kind, p) \<Rightarrow> Some (IntV i, TextV kind, IntV p)
      | None \<Rightarrow> map_option (\<lambda>(own, kp). (if own = IntV i then Null else own, kp)) (h k))"

section \<open>The shape of the two syncs\<close>

definition names_sql :: "tname \<Rightarrow> string \<Rightarrow> sql_query" where
  "names_sql t fk = Select [Col ''username'', Col ''kind'', Col ''position''] (Some t) [(fk, Arg 0)]"

definition event_sql :: "tname \<Rightarrow> string \<Rightarrow> sql_stmt" where
  "event_sql e fk = Insert e [fk, ''username'', ''action'', ''kind'', ''position'']
     [Arg 0, Arg 1, Arg 2, Arg 3, Arg 4] None"

definition release_sql :: "tname \<Rightarrow> string \<Rightarrow> sql_stmt" where
  "release_sql t fk = Update t None [(fk, Lit Null)] [(fk, Arg 0), (''username'', Arg 1)]"

definition claim_sql :: "tname \<Rightarrow> string \<Rightarrow> sql_stmt" where
  "claim_sql t fk = Insert t [fk, ''username'', ''kind'', ''position''] [Arg 0, Arg 1, Arg 2, Arg 3]
     (Some [fk, ''kind'', ''position''])"

definition change_tx :: "tname \<Rightarrow> string \<Rightarrow> int \<Rightarrow> name_map \<Rightarrow> string \<times> entry \<Rightarrow> unit tx" where
  "change_tx e fk i old n =
     (case n of (k, kind, p) \<Rightarrow>
        (case map_of old k of
           None \<Rightarrow> do_execute (event_sql e fk) [IntV i, TextV k, TextV ''added'', TextV kind, IntV p]
         | Some (okind, op1) \<Rightarrow>
             (if okind \<noteq> kind then
                do_execute (event_sql e fk) [IntV i, TextV k, TextV ''kind_changed'', TextV kind, IntV p]
              else if op1 \<noteq> p then
                do_execute (event_sql e fk) [IntV i, TextV k, TextV ''reordered'', TextV kind, IntV p]
              else tx_return ())))"

definition removal_tx :: "tname \<Rightarrow> tname \<Rightarrow> string \<Rightarrow> int \<Rightarrow> name_map \<Rightarrow> string \<Rightarrow> unit tx" where
  "removal_tx t e fk i new k =
     (if k \<in> fst ` set new then tx_return ()
      else
        tx_then (do_execute (event_sql e fk) [IntV i, TextV k, TextV ''removed'', Null, Null])
          (do_execute (release_sql t fk) [IntV i, TextV k]))"

definition claim_tx :: "tname \<Rightarrow> string \<Rightarrow> int \<Rightarrow> string \<times> entry \<Rightarrow> unit tx" where
  "claim_tx t fk i n =
     (case n of (k, kind, p) \<Rightarrow> do_execute (claim_sql t fk) [IntV i, TextV k, TextV kind, IntV p])"

definition names_sync :: "tname \<Rightarrow> tname \<Rightarrow> string \<Rightarrow> int \<Rightarrow> name_map \<Rightarrow> unit tx" where
  "names_sync t e fk i new =
     tx_bind (do_query (names_sql t fk) [IntV i]) (\<lambda>rows.
     tx_bind (load_usernames rows []) (\<lambda>old.
     tx_then (tx_for (change_tx e fk i old) new)
     (tx_bind (tx_iterate (map fst old)) (\<lambda>ks.
     tx_then (tx_for (removal_tx t e fk i new) ks)
     (tx_for (claim_tx t fk i) new)))))"

lemma load_run:
  assumes "load_usernames (map (\<lambda>r. [r ''username'', r ''kind'', r ''position'']) rs) m sv s = (Inr m', u)"
  shows "m' = foldl (\<lambda>m r. emplace (fst (entry_of r)) (snd (entry_of r)) m) m
      (filter (\<lambda>r. r ''username'' \<noteq> Null) rs) \<and> u = s"
  using assms
proof (induction rs arbitrary: m)
  case (Cons r rs)
  then show ?case
    by (cases "r ''username'' = Null"; cases "r ''position'' = Null")
      (auto simp: tx_bind_run tx_return_run stoll_run entry_of_def)
qed (simp add: tx_return_run)

lemma emplace_keys: "fst ` set (emplace k e m) = insert k (fst ` set m)"
  by (auto simp: emplace_def)

lemma emplace_distinct: "distinct (map fst m) \<Longrightarrow> distinct (map fst (emplace k e m))"
  by (auto simp: emplace_def)

lemma fold_emplace_keys:
  "fst ` set (foldl (\<lambda>m r. emplace (fst (entry_of r)) (snd (entry_of r)) m) m rs) =
     fst ` set m \<union> (fst \<circ> entry_of) ` set rs"
  by (induction rs arbitrary: m) (auto simp: emplace_keys)

lemma fold_emplace_distinct:
  "distinct (map fst m) \<Longrightarrow>
     distinct (map fst (foldl (\<lambda>m r. emplace (fst (entry_of r)) (snd (entry_of r)) m) m rs))"
  by (induction rs arbitrary: m) (auto simp: emplace_distinct)

lemma owned_distinct: "distinct (map fst (owned t fk d i))"
  by (simp add: owned_def fold_emplace_distinct)

lemma owned_names:
  assumes "r \<in> set (d t)" and "r fk = IntV i" and "r ''username'' = TextV k"
  shows "k \<in> fst ` set (owned t fk d i)"
proof -
  have "k = (fst \<circ> entry_of) r" using assms(3) by (simp add: entry_of_def)
  then show ?thesis unfolding owned_def fold_emplace_keys using assms by auto
qed

lemma last_entry_simps:
  "last_entry w [] k = None"
  "last_entry w (n # ns) k = (case last_entry w ns k of
     Some e \<Rightarrow> Some e | None \<Rightarrow> if w (fst n) = w k then Some (snd n) else None)"
  by (auto simp: last_entry_def find_append split: option.split prod.splits)

lemma last_entry_None: "last_entry w new k = None \<longleftrightarrow> (\<forall>n\<in>set new. w (fst n) \<noteq> w k)"
  by (induction new) (auto simp: last_entry_simps split: option.split)
section \<open>One sync\<close>

locale name_family =
  fixes t e :: tname and fk :: string and ident :: "'m \<Rightarrow> int" and names :: "'m \<Rightarrow> name_map"
    and sync :: "'m \<Rightarrow> unit tx"
  assumes sync_eq: "sync x = names_sync t e fk (ident x) (names x)"
    and tables: "t \<noteq> e"
    and keys: "td_auto (schema t)" "set (td_uniques (schema t)) = {[''id''], [''username'']}"
    and fk_new: "fk \<notin> {''id'', ''username'', ''kind'', ''position'', ''action''}"
begin

lemma fk_neq: "fk \<noteq> ''id''" "fk \<noteq> ''username''" "fk \<noteq> ''kind''" "fk \<noteq> ''position''" "fk \<noteq> ''action''"
  using fk_new by simp_all

text \<open>Events.\<close>

lemma event_effect:
  assumes "do_execute (event_sql e fk) [IntV i, k, a, kd, p] sv s = (Inr x, u)"
  shows "name_log e fk (view u) = name_log e fk (view s) @ [(IntV i, k, a, kd, p)] \<and> view u t = view s t"
proof -
  have ex: "exec_stmt (weight sv) [IntV i, k, a, kd, p] (event_sql e fk) (view s) (autos s)
      = Inr (view u, autos u)"
    using assms by (rule do_executeE)
  note ins = exec_insert_append [OF ex [unfolded event_sql_def]]
  show ?thesis
    using ins fk_neq tables by (simp add: name_log_def new_row_def Let_def)
qed

lemma change_run:
  assumes "tx_for (change_tx e fk i old) ns sv s = (Inr (), u)"
  shows "name_log e fk (view u) = name_log e fk (view s) @ concat (map (change_event i old) ns) \<and>
    view u t = view s t"
  using assms
proof (induction ns arbitrary: s)
  case (Cons n ns)
  obtain k kind p where n: "n = (k, kind, p)" by (cases n)
  from Cons.prems obtain v where one: "change_tx e fk i old n sv s = (Inr (), v)"
    and rest: "tx_for (change_tx e fk i old) ns sv v = (Inr (), u)"
    by (auto simp: tx_then_run)
  have "name_log e fk (view v) = name_log e fk (view s) @ change_event i old n \<and> view v t = view s t"
    using one
    by (auto simp: n change_tx_def change_event_def tx_return_run dest: event_effect
        split: option.splits prod.splits if_splits)
  with Cons.IH [OF rest] show ?case by simp
qed (simp add: tx_return_run)

text \<open>Releases.\<close>

lemma release_effect:
  assumes "do_execute (release_sql t fk) [IntV i, TextV o1] sv s = (Inr x, u)"
  shows "holder (weight sv) t fk (view u) = (\<lambda>k. map_option (\<lambda>(own, kp).
      (if own = IntV i \<and> weight sv o1 = weight sv k then Null else own, kp))
      (holder (weight sv) t fk (view s) k)) \<and> view u e = view s e \<and>
    spelling (weight sv) t (view u) = spelling (weight sv) t (view s)"
proof -
  have ex: "exec_stmt (weight sv) [IntV i, TextV o1] (release_sql t fk) (view s) (autos s)
      = Inr (view u, autos u)"
    using assms by (rule do_executeE)
  let ?K = "\<lambda>r. r fk = IntV i \<and> named (weight sv) o1 r" and ?f = "\<lambda>r. r(fk := Null)"
  have d': "view u = (view s)(t := map (\<lambda>r. if ?K r then ?f r else r) (view s t))"
    using exec_update_rows(1) [OF ex [unfolded release_sql_def]]
    by (simp add: named_def cong: if_cong)
  have same: "named (weight sv) k (?f r) = named (weight sv) k r" for k r
    using fk_neq by (simp add: named_def)
  have eq: "named (weight sv) o1 r \<longleftrightarrow> weight sv o1 = weight sv k" if "named (weight sv) k r" for k r
    using that by (cases "r ''username''") (auto simp: named_def)
  have fnd: "find (named (weight sv) k) (view u t) =
      map_option (\<lambda>r. if ?K r then ?f r else r) (find (named (weight sv) k) (view s t))" for k
    unfolding d' fun_upd_same by (rule find_map_if) (simp add: same)
  have "holder (weight sv) t fk (view u) k = map_option (\<lambda>(own, kp).
      (if own = IntV i \<and> weight sv o1 = weight sv k then Null else own, kp))
      (holder (weight sv) t fk (view s) k)" for k
    using fnd [of k] find_Some_mem [of "named (weight sv) k" "view s t"] eq [of k] fk_neq
    by (cases "find (named (weight sv) k) (view s t)") (auto simp: holder_def holding_of_def)
  moreover have "spelling (weight sv) t (view u) = spelling (weight sv) t (view s)"
    using fk_neq by (auto simp: spelling_def fnd option.map_comp comp_def fun_eq_iff intro!: option.map_cong)
  ultimately show ?thesis using tables by (auto simp: d')
qed

definition release_all :: "collation \<Rightarrow> int \<Rightarrow> name_map \<Rightarrow> string list \<Rightarrow> (string \<Rightarrow> holding option) \<Rightarrow>
    string \<Rightarrow> holding option" where
  "release_all w i new ks h = (\<lambda>k. map_option (\<lambda>(own, kp).
     (if own = IntV i \<and> (\<exists>o1\<in>set ks. o1 \<notin> fst ` set new \<and> w o1 = w k) then Null else own, kp)) (h k))"

lemma removal_run:
  assumes "tx_for (removal_tx t e fk i new) ks sv s = (Inr (), u)"
  shows "name_log e fk (view u) = name_log e fk (view s) @ removal_events i new ks \<and>
    holder (weight sv) t fk (view u) =
      release_all (weight sv) i new ks (holder (weight sv) t fk (view s)) \<and>
    spelling (weight sv) t (view u) = spelling (weight sv) t (view s)"
  using assms
proof (induction ks arbitrary: s)
  case Nil
  then show ?case
    by (simp add: tx_return_run removal_events_def release_all_def option.map_id0 fun_eq_iff flip: id_def)
next
  case (Cons k ks)
  from Cons.prems obtain v where one: "removal_tx t e fk i new k sv s = (Inr (), v)"
    and rest: "tx_for (removal_tx t e fk i new) ks sv v = (Inr (), u)"
    by (auto simp: tx_then_run)
  show ?case
  proof (cases "k \<in> fst ` set new")
    case True
    with one have "v = s" by (simp add: removal_tx_def tx_return_run)
    with True Cons.IH [OF rest] show ?thesis
      by (auto simp: removal_events_def release_all_def)
  next
    case False
    with one obtain v1 where ev: "do_execute (event_sql e fk) [IntV i, TextV k, TextV ''removed'', Null, Null]
        sv s = (Inr (), v1)"
      and re: "do_execute (release_sql t fk) [IntV i, TextV k] sv v1 = (Inr (), v)"
      by (auto simp: removal_tx_def elim: tx_thenE)
    have log: "name_log e fk (view v) = name_log e fk (view s) @ [(IntV i, TextV k, TextV ''removed'', Null, Null)]"
      using event_effect [OF ev] release_effect [OF re] by (simp add: name_log_def)
    have "holder (weight sv) t fk (view v1) = holder (weight sv) t fk (view s)"
      using event_effect [OF ev] by (simp add: holder_def fun_eq_iff)
    with release_effect [OF re] have h: "holder (weight sv) t fk (view v) = (\<lambda>j. map_option (\<lambda>(own, kp).
        (if own = IntV i \<and> weight sv k = weight sv j then Null else own, kp))
        (holder (weight sv) t fk (view s) j))"
      by simp
    have "release_all (weight sv) i new ks (holder (weight sv) t fk (view v)) =
        release_all (weight sv) i new (k # ks) (holder (weight sv) t fk (view s))"
      using False
      by (auto simp: h release_all_def fun_eq_iff option.map_comp intro!: option.map_cong)
    moreover have "spelling (weight sv) t (view v) = spelling (weight sv) t (view s)"
      using event_effect [OF ev] release_effect [OF re] by (simp add: spelling_def fun_eq_iff)
    ultimately show ?thesis using Cons.IH [OF rest] log False by (simp add: removal_events_def)
  qed
qed

text \<open>Claims.\<close>

lemma claim_rows:
  assumes ok: "db_ok (weight sv) (view s) (autos s)"
    and run: "claim_tx t fk i (n, kind, p) sv s = (Inr (), u)"
  obtains nw where "nw ''username'' = TextV n" and "nw fk = IntV i" and "nw ''kind'' = TextV kind"
    and "nw ''position'' = IntV p"
    and "view u = (view s)(t := upserted (named (weight sv) n) [fk, ''kind'', ''position''] nw (view s t))"
    and "db_ok (weight sv) (view u) (autos u)"
proof -
  let ?w = "weight sv" and ?ups = "[fk, ''kind'', ''position'']"
  define nw where "nw = new_row ?w [IntV i, TextV n, TextV kind, IntV p] t [fk, ''username'', ''kind'', ''position'']
      [Arg 0, Arg 1, Arg 2, Arg 3] (autos s)"
  have ex: "exec_stmt ?w [IntV i, TextV n, TextV kind, IntV p] (claim_sql t fk) (view s) (autos s)
      = Inr (view u, autos u)"
    using run unfolding claim_tx_def by (auto elim: do_executeE)
  have new: "nw ''id'' = IntV (autos s t)" "nw ''username'' = TextV n" "nw fk = IntV i"
    "nw ''kind'' = TextV kind" "nw ''position'' = IntV p"
    using keys(1) fk_neq by (simp_all add: nw_def new_row_def Let_def)
  have K: "conflict ?w t nw r = named ?w n r" if r: "r \<in> set (view s t)" for r
  proof -
    have "below_counter t (view s t) (autos s t)" using ok by (simp add: db_ok_def)
    then have "r ''id'' \<noteq> IntV (autos s t)" using r keys(1) by (auto simp: below_counter_def)
    then show ?thesis
      by (simp add: conflict_def keys(2) new named_def val_eq_sym [of ?w "TextV n"])
  qed
  have one: "length (filter (named ?w n) (view s t)) \<le> 1"
    by (rule uniq_rows_filter_short [of ?w t])
      (use ok in \<open>auto simp: db_ok_def conflict_def keys(2) named_def intro: val_eq_trans val_eq_sym [THEN iffD1]\<close>)
  have "view u = (view s)(t := upserted (named ?w n) ?ups nw (view s t))"
    by (rule exec_upsert_rows [OF ex [unfolded claim_sql_def] nw_def K one])
  moreover have "db_ok ?w (view u) (autos u)" using ok ex by (rule exec_stmt_db_ok)
  ultimately show thesis using new by (intro that)
qed

lemma claim_effect:
  assumes ok: "db_ok (weight sv) (view s) (autos s)"
    and run: "claim_tx t fk i (n, kind, p) sv s = (Inr (), u)"
  shows "holder (weight sv) t fk (view u) = (\<lambda>k. if weight sv n = weight sv k
      then Some (IntV i, TextV kind, IntV p) else holder (weight sv) t fk (view s) k)"
    and "view u e = view s e" and "db_ok (weight sv) (view u) (autos u)"
    and "spelling (weight sv) t (view u) = spelled_after (weight sv) [(n, kind, p)] (spelling (weight sv) t (view s))"
proof -
  let ?w = "weight sv" and ?ups = "[fk, ''kind'', ''position'']"
  obtain nw where new: "nw ''username'' = TextV n" "nw fk = IntV i" "nw ''kind'' = TextV kind"
    "nw ''position'' = IntV p" and d': "view u = (view s)(t := upserted (named ?w n) ?ups nw (view s t))"
    and ok': "db_ok ?w (view u) (autos u)"
    by (rule claim_rows [OF ok run])
  have named_new: "named ?w k nw \<longleftrightarrow> ?w n = ?w k" for k by (simp add: named_def new)
  have named_upd: "named ?w k (copy_cols ?ups nw r) = named ?w k r" for k r
    using fk_neq by (simp add: named_def copy_cols_apply)
  have eq: "named ?w k r \<longleftrightarrow> ?w n = ?w k" if "named ?w n r" for k r
    using that by (cases "r ''username''") (auto simp: named_def)
  have hold: "holding_of fk nw = (IntV i, TextV kind, IntV p)"
    "holding_of fk (copy_cols ?ups nw r) = (IntV i, TextV kind, IntV p)" for r
    by (simp_all add: holding_of_def new copy_cols_apply)
  have uname: "copy_cols ?ups nw r ''username'' = r ''username''" for r
    using fk_neq by (simp add: copy_cols_apply)
  have both: "holder ?w t fk (view u) k = (if ?w n = ?w k then Some (IntV i, TextV kind, IntV p)
      else holder ?w t fk (view s) k) \<and>
    spelling ?w t (view u) k = spelled_after ?w [(n, kind, p)] (spelling ?w t (view s)) k" for k
  proof (cases "?w n = ?w k")
    case True
    have same: "named ?w k = named ?w n"
    proof
      fix r show "named ?w k r = named ?w n r"
        using True by (cases "r ''username''") (simp_all add: named_def)
    qed
    have "find (named ?w n) (view u t) = Some (case find (named ?w n) (view s t) of
        None \<Rightarrow> nw | Some old \<Rightarrow> copy_cols ?ups nw old)"
      unfolding d' fun_upd_same by (rule find_upserted_same) (simp_all add: named_new named_upd)
    with True hold uname show ?thesis
      by (auto simp: holder_def spelling_def spelled_after_def same new split: option.split)
  next
    case False
    have "find (named ?w k) (view u t) = find (named ?w k) (view s t)"
      unfolding d' fun_upd_same
      by (rule find_upserted_other) (use False eq in \<open>auto simp: named_new named_upd\<close>)
    with False show ?thesis
      by (auto simp: holder_def spelling_def spelled_after_def split: option.split)
  qed
  then show "holder ?w t fk (view u) = (\<lambda>k. if ?w n = ?w k
      then Some (IntV i, TextV kind, IntV p) else holder ?w t fk (view s) k)" by blast
  show "spelling ?w t (view u) = spelled_after ?w [(n, kind, p)] (spelling ?w t (view s))"
    using both by blast
  show "view u e = view s e" using tables by (simp add: d')
  show "db_ok ?w (view u) (autos u)" by (rule ok')
qed

lemma claim_run:
  assumes "tx_for (claim_tx t fk i) ns sv s = (Inr (), u)" and "db_ok (weight sv) (view s) (autos s)"
  shows "holder (weight sv) t fk (view u) = (\<lambda>k. case last_entry (weight sv) ns k of
      Some (kind, p) \<Rightarrow> Some (IntV i, TextV kind, IntV p) | None \<Rightarrow> holder (weight sv) t fk (view s) k) \<and>
    view u e = view s e \<and>
    spelling (weight sv) t (view u) = spelled_after (weight sv) ns (spelling (weight sv) t (view s))"
  using assms
proof (induction ns arbitrary: s)
  case (Cons n ns)
  obtain k kind p where n: "n = (k, kind, p)" by (cases n)
  from Cons.prems(1) obtain v where one: "claim_tx t fk i (k, kind, p) sv s = (Inr (), v)"
    and rest: "tx_for (claim_tx t fk i) ns sv v = (Inr (), u)"
    by (auto simp: tx_then_run n)
  note eff = claim_effect [OF Cons.prems(2) one]
  have sp: "spelled_after (weight sv) ns (spelled_after (weight sv) [(k, kind, p)] f) =
      spelled_after (weight sv) ((k, kind, p) # ns) f" for f
    by (auto simp: spelled_after_def fun_eq_iff split: option.split)
  from Cons.IH [OF rest eff(3)] eff(1,2,4) sp show ?case
    by (auto simp: n last_entry_simps fun_eq_iff split: option.split)
qed (auto simp: tx_return_run last_entry_simps spelled_after_def fun_eq_iff split: option.split)

text \<open>The whole sync.\<close>

lemma owned_loaded:
  assumes "load_usernames rows [] sv u = (Inr m, v)"
    and "exec_query w [IntV i] (names_sql t fk) d = Inr rows"
  shows "m = owned t fk d i" and "v = u"
proof -
  have "rows = map (\<lambda>r. [r ''username'', r ''kind'', r ''position'']) (filter (\<lambda>r. r fk = IntV i) (d t))"
    using assms(2) by (simp add: names_sql_def exec_query_Inr_iff)
  with load_run [of "filter (\<lambda>r. r fk = IntV i) (d t)" "[]" sv u m v] assms(1)
  show "m = owned t fk d i" and "v = u" by (simp_all add: owned_def)
qed

text \<open>Releasing every name the owner held and no longer lists.\<close>

lemma release_owned:
  assumes ks: "set ks = fst ` set (owned t fk d i)" and none: "last_entry w ns k = None"
  shows "release_all w i ns ks (holder w t fk d) k =
    map_option (\<lambda>(own, kp). (if own = IntV i then Null else own, kp)) (holder w t fk d k)"
proof (cases "find (named w k) (d t)")
  case (Some r)
  then have r: "r \<in> set (d t)" "named w k r" by (simp_all add: find_Some_mem)
  then obtain k' where k': "r ''username'' = TextV k'" "w k' = w k"
    by (cases "r ''username''") (auto simp: named_def)
  have "k' \<notin> fst ` set ns" using none k'(2) by (auto simp: last_entry_None)
  moreover have "k' \<in> set ks" if "r fk = IntV i"
    unfolding ks using r(1) that k'(1) by (rule owned_names)
  ultimately show ?thesis
    using Some k'(2) by (auto simp: release_all_def holder_def holding_of_def)
qed (simp add: release_all_def holder_def)

lemma sync_run:
  assumes ok: "db_ok (weight sv) (view s) (autos s)" and hash: "hash_ok sv"
    and run: "sync x sv s = (Inr (), u)"
  shows "holder (weight sv) t fk (view u) =
      held_after (weight sv) (ident x) (names x) (holder (weight sv) t fk (view s))"
    and "name_log e fk (view u) = name_log e fk (view s) @
      sync_events (ident x) (owned t fk (view s) (ident x)) (names x)
        (hash_order sv (map fst (owned t fk (view s) (ident x))))"
    and "spelling (weight sv) t (view u) = spelled_after (weight sv) (names x) (spelling (weight sv) t (view s))"
proof -
  let ?w = "weight sv" and ?i = "ident x" and ?n = "names x"
  let ?old = "owned t fk (view s) (ident x)"
  let ?ks = "hash_order sv (map fst ?old)"
  from run obtain rows m ks and v0 v1 v2 v3 v4 :: session where
    look: "exec_query ?w [IntV ?i] (names_sql t fk) (view s) = Inr rows" and v0: "view v0 = view s"
    "autos v0 = autos s"
    and load: "load_usernames rows [] sv v0 = (Inr m, v1)"
    and chg: "tx_for (change_tx e fk ?i m) ?n sv v1 = (Inr (), v2)"
    and iter: "tx_iterate (map fst m) sv v2 = (Inr ks, v3)"
    and rem: "tx_for (removal_tx t e fk ?i ?n) ks sv v3 = (Inr (), v4)"
    and clm: "tx_for (claim_tx t fk ?i) ?n sv v4 = (Inr (), u)"
    unfolding sync_eq names_sync_def by (elim tx_bindE tx_thenE do_queryE) (rule that)
  have m: "m = ?old" and v1: "view v1 = view s" "autos v1 = autos s"
    using owned_loaded [OF load look] v0 by simp_all
  have ks: "ks = ?ks" and v3: "v3 = v2" using iter by (simp_all add: tx_iterate_run m)
  have "keeps (on_view db_ok) (tx_for (change_tx e fk ?i m) ?n)"
    and "keeps (on_view db_ok) (tx_for (removal_tx t e fk ?i ?n) ks)"
    unfolding change_tx_def removal_tx_def
    by (intro integrity.keeps_for; auto intro!: integrity.keeps_rules split: prod.split)+
  from keepsD [OF this(1) chg] keepsD [OF this(2) rem] ok v1 v3
  have ok4: "db_ok ?w (view v4) (autos v4)" by (simp add: on_view_def)
  have hs: "holder ?w t fk (view v3) = holder ?w t fk (view s)"
    using change_run [OF chg] v1(1) v3 by (simp add: holder_def fun_eq_iff)
  have sp: "spelling ?w t (view v3) = spelling ?w t (view s)"
    using change_run [OF chg] v1(1) v3 by (simp add: spelling_def fun_eq_iff)
  note r = removal_run [OF rem, unfolded hs sp] and c = claim_run [OF clm ok4]
  show "spelling ?w t (view u) = spelled_after ?w ?n (spelling ?w t (view s))" using r c by simp
  show "name_log e fk (view u) = name_log e fk (view s) @ sync_events ?i ?old ?n ?ks"
    using change_run [OF chg] r c v1(1) v3
    by (simp add: m ks sync_events_def name_log_def)
  have "set ks = fst ` set ?old"
    using hash unfolding ks hash_ok_def by (metis set_map set_mset_mset)
  note rel = release_owned [OF this]
  show "holder ?w t fk (view u) = held_after ?w ?i ?n (holder ?w t fk (view s))"
    using c r rel by (auto simp: held_after_def fun_eq_iff split: option.split)
qed

end
section \<open>A sync repeated\<close>

text \<open>The column is a text column.\<close>

definition names_typed :: "tname \<Rightarrow> db \<Rightarrow> bool" where
  "names_typed t d \<longleftrightarrow> (\<forall>r\<in>set (d t). r ''username'' = Null \<or> (\<exists>k. r ''username'' = TextV k))"

lemma map_of_fold_emplace:
  "map_of (foldl (\<lambda>m r. emplace (fst (entry_of r)) (snd (entry_of r)) m) m rs) k =
     (case map_of m k of Some e \<Rightarrow> Some e
      | None \<Rightarrow> map_option (snd \<circ> entry_of) (find (\<lambda>r. fst (entry_of r) = k) rs))"
proof (induction rs arbitrary: m)
  case (Cons r rs)
  have "map_of (emplace (fst (entry_of r)) (snd (entry_of r)) m) k =
      (case map_of m k of Some e \<Rightarrow> Some e
       | None \<Rightarrow> if fst (entry_of r) = k then Some (snd (entry_of r)) else None)"
    using map_of_eq_None_iff [of m "fst (entry_of r)"]
    by (auto simp: emplace_def map_add_def split: option.split)
  with Cons show ?case by (auto simp: comp_def split: option.split)
qed (simp split: option.split)

lemma owned_lookup:
  assumes typed: "names_typed t d" and one: "length (filter (named w k) (d t)) \<le> 1"
  shows "map_of (owned t fk d i) k = (case find (named w k) (d t) of None \<Rightarrow> None
    | Some r \<Rightarrow> if r fk = IntV i \<and> r ''username'' = TextV k then Some (snd (entry_of r)) else None)"
proof -
  let ?P = "\<lambda>r. r fk = IntV i \<and> r ''username'' \<noteq> Null" and ?Q = "\<lambda>r. fst (entry_of r) = k"
  have lookup: "map_of (owned t fk d i) k = map_option (snd \<circ> entry_of) (find ?Q (filter ?P (d t)))"
    by (simp add: owned_def map_of_fold_emplace)
  have PQ: "?Q r \<longleftrightarrow> r ''username'' = TextV k" if "r \<in> set (filter ?P (d t))" for r
    using that typed by (auto simp: names_typed_def entry_of_def)
  have named: "named w k r" if "r ''username'' = TextV k" for r using that by (simp add: named_def)
  show ?thesis
  proof (cases "find (named w k) (d t)")
    case None
    then have "find ?Q (filter ?P (d t)) = None"
      using PQ named by (auto simp: find_None_iff)
    with None lookup show ?thesis by simp
  next
    case (Some r)
    have set: "set (filter (named w k) (d t)) = {r}"
      using one Some by (simp add: filter_single)
    then have only: "r' = r" if "r' \<in> set (d t)" "named w k r'" for r' using that by auto
    have r: "r \<in> set (d t)" using set by auto
    show ?thesis
    proof (cases "r fk = IntV i \<and> r ''username'' = TextV k")
      case True
      then have "r \<in> set (filter ?P (d t))" "?Q r" using r by (auto simp: entry_of_def)
      then obtain r' where r': "find ?Q (filter ?P (d t)) = Some r'" by (cases "find ?Q (filter ?P (d t))") (auto simp: find_None_iff)
      then have "r' \<in> set (filter ?P (d t))" "?Q r'" using find_Some_mem [OF r'] by auto
      then have "r' = r" using only [of r'] named [of r'] PQ by auto
      with lookup r' Some True show ?thesis by simp
    next
      case False
      have "\<not> ?Q r'" if r': "r' \<in> set (filter ?P (d t))" for r'
      proof
        assume "?Q r'"
        with PQ [OF r'] have "r' ''username'' = TextV k" by simp
        moreover from this have "r' = r" using only [of r'] named r' by simp
        ultimately show False using False r' by simp
      qed
      then have "find ?Q (filter ?P (d t)) = None" by (auto simp: find_None_iff)
      with lookup Some False show ?thesis by auto
    qed
  qed
qed

lemma last_entry_mem:
  assumes "distinct (map (\<lambda>n. w (fst n)) ns)" and "(k, e) \<in> set ns"
  shows "last_entry w ns k = Some e"
  using assms
proof (induction ns)
  case (Cons n ns)
  show ?case
  proof (cases "n = (k, e)")
    case True
    with Cons.prems have "last_entry w ns k = None" by (force simp: last_entry_None)
    with True show ?thesis by (simp add: last_entry_simps)
  qed (use Cons in \<open>auto simp: last_entry_simps\<close>)
qed simp

context name_family
begin

lemma one_named:
  "uniq_rows w t (d t) \<Longrightarrow> length (filter (named w k) (d t)) \<le> 1"
  by (rule uniq_rows_filter_short [of w t])
    (auto simp: conflict_def keys(2) named_def intro: val_eq_trans val_eq_sym [THEN iffD1])

text \<open>
  Once a sync has stored names that differ up to the collation, under the spelling they have in
  the list, the next sync of the same list finds nothing to record.
\<close>

lemma settled:
  assumes uniq: "uniq_rows w t (d t)" and typed: "names_typed t d"
    and held: "holder w t fk d = held_after w i new h"
    and spelled: "\<And>n. n \<in> fst ` set new \<Longrightarrow> spelling w t d n = Some (TextV n)"
    and dist: "distinct (map (\<lambda>n. w (fst n)) new)" and ks: "set ks = fst ` set (owned t fk d i)"
  shows "sync_events i (owned t fk d i) new ks = []"
proof -
  note lookup = owned_lookup [OF typed one_named [where d = d, OF uniq], of fk i]
  have "change_event i (owned t fk d i) (k, kind, p) = []" if n: "(k, kind, p) \<in> set new" for k kind p
  proof -
    have "holder w t fk d k = Some (IntV i, TextV kind, IntV p)"
      using last_entry_mem [OF dist n] by (simp add: held held_after_def)
    moreover have "spelling w t d k = Some (TextV k)" using spelled n by force
    ultimately have "map_of (owned t fk d i) k = Some (kind, p)"
      by (auto simp: lookup holder_def holding_of_def spelling_def entry_of_def)
    then show ?thesis by (simp add: change_event_def)
  qed
  moreover have "k \<in> fst ` set new" if "k \<in> set ks" for k
  proof -
    from that ks obtain en where "map_of (owned t fk d i) k = Some en"
      using map_of_eq_None_iff [of "owned t fk d i" k] by auto
    then obtain r where r: "find (named w k) (d t) = Some r" "r fk = IntV i" "r ''username'' = TextV k"
      by (auto simp: lookup split: option.splits if_splits)
    then have "fst (the (held_after w i new h k)) = IntV i"
      by (simp flip: held add: holder_def holding_of_def)
    moreover have "held_after w i new h k \<noteq> None"
      using r by (simp flip: held add: holder_def)
    ultimately obtain n where n: "n \<in> set new" "w (fst n) = w k"
      using last_entry_None [of w new k]
      by (cases "last_entry w new k") (auto simp: held_after_def split: if_splits)
    have "named w (fst n) = named w k"
    proof
      fix r' show "named w (fst n) r' = named w k r'"
        using n(2) by (cases "r' ''username''") (simp_all add: named_def)
    qed
    then have "spelling w t d (fst n) = Some (TextV k)" using r by (simp add: spelling_def)
    moreover have "spelling w t d (fst n) = Some (TextV (fst n))" using n(1) by (intro spelled) simp
    ultimately have "fst n = k" by simp
    with n(1) show ?thesis by auto
  qed
  ultimately show ?thesis by (auto simp: sync_events_def removal_events_def filter_empty_conv)
qed

text \<open>A listed name that is stored under another spelling is recorded again by every sync.\<close>

lemma respelled:
  assumes uniq: "uniq_rows w t (d t)" and typed: "names_typed t d"
    and held: "holder w t fk d k = Some (IntV i, kp)" and sp: "spelling w t d k = Some (TextV k)"
    and n: "(n, kind, p) \<in> set new" and same: "w n = w k" and k: "k \<notin> fst ` set new"
    and ks: "set ks = fst ` set (owned t fk d i)"
  shows "{(IntV i, TextV n, TextV ''added'', TextV kind, IntV p),
      (IntV i, TextV k, TextV ''removed'', Null, Null)} \<subseteq> set (sync_events i (owned t fk d i) new ks)"
proof -
  note lookup = owned_lookup [OF typed one_named [where d = d, OF uniq], of fk i]
  have "n \<noteq> k" using n k by force
  obtain r where r: "find (named w k) (d t) = Some r" "r fk = IntV i" "r ''username'' = TextV k"
    using held sp by (auto simp: holder_def holding_of_def spelling_def)
  have "named w n = named w k"
  proof
    fix r' show "named w n r' = named w k r'"
      using same by (cases "r' ''username''") (simp_all add: named_def)
  qed
  then have "map_of (owned t fk d i) n = None" using r \<open>n \<noteq> k\<close> by (simp add: lookup)
  then have "(IntV i, TextV n, TextV ''added'', TextV kind, IntV p) \<in> set (change_event i (owned t fk d i) (n, kind, p))"
    by (simp add: change_event_def)
  moreover have "map_of (owned t fk d i) k \<noteq> None" using r by (simp add: lookup)
  then have "k \<in> set ks" using ks map_of_eq_None_iff [of "owned t fk d i" k] by auto
  ultimately show ?thesis using n k by (auto simp: sync_events_def removal_events_def)
qed

end

section \<open>Users and groups\<close>

interpretation user_names: name_family T_user_usernames T_user_hist_usernames_events "''user_id''"
  u_id "\<lambda>u. new_usernames (u_active_usernames u) (u_disabled_usernames u) (u_collectible_usernames u)"
  syncUsernames
proof unfold_locales
  fix u
  have "user_event = change_tx T_user_hist_usernames_events ''user_id''"
    "user_removal = removal_tx T_user_usernames T_user_hist_usernames_events ''user_id''"
    "user_claim = claim_tx T_user_usernames ''user_id''"
    by (auto simp: fun_eq_iff user_event_def change_tx_def user_removal_def removal_tx_def
        user_claim_def claim_tx_def user_event_sql_def event_sql_def user_release_sql_def
        release_sql_def user_claim_sql_def claim_sql_def split: prod.split option.split)
  then show "syncUsernames u = names_sync T_user_usernames T_user_hist_usernames_events ''user_id''
      (u_id u) (new_usernames (u_active_usernames u) (u_disabled_usernames u) (u_collectible_usernames u))"
    by (simp add: syncUsernames_def names_sync_def user_names_sql_def names_sql_def Let_def)
qed (simp_all add: user_usernames_def_def)

interpretation group_names: name_family T_group_usernames T_group_hist_usernames_events "''group_id''"
  g_id "\<lambda>g. new_usernames (g_active_usernames g) (g_disabled_usernames g) (g_collectible_usernames g)"
  syncGroupUsernames
proof unfold_locales
  fix g
  have "group_event = change_tx T_group_hist_usernames_events ''group_id''"
    "group_removal = removal_tx T_group_usernames T_group_hist_usernames_events ''group_id''"
    "group_claim = claim_tx T_group_usernames ''group_id''"
    by (auto simp: fun_eq_iff group_event_def change_tx_def group_removal_def removal_tx_def
        group_claim_def claim_tx_def group_event_sql_def event_sql_def group_release_sql_def
        release_sql_def group_claim_sql_def claim_sql_def split: prod.split option.split)
  then show "syncGroupUsernames g = names_sync T_group_usernames T_group_hist_usernames_events ''group_id''
      (g_id g) (new_usernames (g_active_usernames g) (g_disabled_usernames g) (g_collectible_usernames g))"
    by (simp add: syncGroupUsernames_def names_sync_def group_names_sql_def names_sql_def Let_def)
qed (simp_all add: group_usernames_def_def)

text \<open>The sync as the last part of a whole upsert.\<close>

lemma upsertUser_names:
  assumes run: "upsertUser x sv s = (Inr (), u)" and s: "clean s" and hash: "hash_ok sv"
    and ok: "db_ok (weight sv) (view s) (autos s)"
  shows "holder (weight sv) T_user_usernames ''user_id'' (disk u) =
      held_after (weight sv) (u_id x)
        (new_usernames (u_active_usernames x) (u_disabled_usernames x) (u_collectible_usernames x))
        (holder (weight sv) T_user_usernames ''user_id'' (disk s))"
    and "name_log T_user_hist_usernames_events ''user_id'' (disk u) =
      name_log T_user_hist_usernames_events ''user_id'' (disk s) @
      sync_events (u_id x) (owned T_user_usernames ''user_id'' (disk s) (u_id x))
        (new_usernames (u_active_usernames x) (u_disabled_usernames x) (u_collectible_usernames x))
        (hash_order sv (map fst (owned T_user_usernames ''user_id'' (disk s) (u_id x))))"
    and "spelling (weight sv) T_user_usernames (disk u) = spelled_after (weight sv)
        (new_usernames (u_active_usernames x) (u_disabled_usernames x) (u_collectible_usernames x))
        (spelling (weight sv) T_user_usernames (disk s))"
proof -
  obtain s1 s2 where *: "upsertUser_body x sv s1 = (Inr (), s2)" "db_ok (weight sv) (view s1) (autos s1)"
    "view s1 = view s" "disk u = view s2"
    by (rule transaction_run [OF run [unfolded upsertUser_def] user.body_keeps(1) ok]) (rule that)
  obtain v where v: "syncUsernames x sv v = (Inr (), s2)" "db_ok (weight sv) (view v) (autos v)"
    and same: "\<And>t'. t' \<notin> {T_users, T_user_hist_name, T_user_hist_phone_num} \<Longrightarrow> view v t' = view s1 t'"
    by (rule user.body_sync [OF *(2,1)]) (rule that)
  have view: "view v T_user_usernames = disk s T_user_usernames"
    "view v T_user_hist_usernames_events = disk s T_user_hist_usernames_events"
    using same *(3) clean_begun [OF s] by simp_all
  note r = user_names.sync_run [OF v(2) hash v(1)]
  show "spelling (weight sv) T_user_usernames (disk u) = spelled_after (weight sv)
        (new_usernames (u_active_usernames x) (u_disabled_usernames x) (u_collectible_usernames x))
        (spelling (weight sv) T_user_usernames (disk s))"
    using r(3) view *(4) by (simp add: spelling_def [abs_def])
  show "holder (weight sv) T_user_usernames ''user_id'' (disk u) =
      held_after (weight sv) (u_id x)
        (new_usernames (u_active_usernames x) (u_disabled_usernames x) (u_collectible_usernames x))
        (holder (weight sv) T_user_usernames ''user_id'' (disk s))"
    using r(1) view *(4) by (simp add: holder_def [abs_def])
  show "name_log T_user_hist_usernames_events ''user_id'' (disk u) =
      name_log T_user_hist_usernames_events ''user_id'' (disk s) @
      sync_events (u_id x) (owned T_user_usernames ''user_id'' (disk s) (u_id x))
        (new_usernames (u_active_usernames x) (u_disabled_usernames x) (u_collectible_usernames x))
        (hash_order sv (map fst (owned T_user_usernames ''user_id'' (disk s) (u_id x))))"
    using r(2) view *(4) by (simp add: name_log_def owned_def)
qed

lemma upsertGroup_names:
  assumes run: "upsertGroup x sv s = (Inr (), u)" and s: "clean s" and hash: "hash_ok sv"
    and ok: "db_ok (weight sv) (view s) (autos s)"
  shows "holder (weight sv) T_group_usernames ''group_id'' (disk u) =
      held_after (weight sv) (g_id x)
        (new_usernames (g_active_usernames x) (g_disabled_usernames x) (g_collectible_usernames x))
        (holder (weight sv) T_group_usernames ''group_id'' (disk s))"
    and "name_log T_group_hist_usernames_events ''group_id'' (disk u) =
      name_log T_group_hist_usernames_events ''group_id'' (disk s) @
      sync_events (g_id x) (owned T_group_usernames ''group_id'' (disk s) (g_id x))
        (new_usernames (g_active_usernames x) (g_disabled_usernames x) (g_collectible_usernames x))
        (hash_order sv (map fst (owned T_group_usernames ''group_id'' (disk s) (g_id x))))"
    and "spelling (weight sv) T_group_usernames (disk u) = spelled_after (weight sv)
        (new_usernames (g_active_usernames x) (g_disabled_usernames x) (g_collectible_usernames x))
        (spelling (weight sv) T_group_usernames (disk s))"
proof -
  obtain s1 s2 where *: "upsertGroup_body x sv s1 = (Inr (), s2)" "db_ok (weight sv) (view s1) (autos s1)"
    "view s1 = view s" "disk u = view s2"
    by (rule transaction_run [OF run [unfolded upsertGroup_def] group.body_keeps(1) ok]) (rule that)
  obtain v where v: "syncGroupUsernames x sv v = (Inr (), s2)" "db_ok (weight sv) (view v) (autos v)"
    and same: "\<And>t'. t' \<notin> {T_groups, T_group_hist_title, T_group_hist_description} \<Longrightarrow> view v t' = view s1 t'"
    by (rule group.body_sync [OF *(2,1)]) (rule that)
  have view: "view v T_group_usernames = disk s T_group_usernames"
    "view v T_group_hist_usernames_events = disk s T_group_hist_usernames_events"
    using same *(3) clean_begun [OF s] by simp_all
  note r = group_names.sync_run [OF v(2) hash v(1)]
  show "spelling (weight sv) T_group_usernames (disk u) = spelled_after (weight sv)
        (new_usernames (g_active_usernames x) (g_disabled_usernames x) (g_collectible_usernames x))
        (spelling (weight sv) T_group_usernames (disk s))"
    using r(3) view *(4) by (simp add: spelling_def [abs_def])
  show "holder (weight sv) T_group_usernames ''group_id'' (disk u) =
      held_after (weight sv) (g_id x)
        (new_usernames (g_active_usernames x) (g_disabled_usernames x) (g_collectible_usernames x))
        (holder (weight sv) T_group_usernames ''group_id'' (disk s))"
    using r(1) view *(4) by (simp add: holder_def [abs_def])
  show "name_log T_group_hist_usernames_events ''group_id'' (disk u) =
      name_log T_group_hist_usernames_events ''group_id'' (disk s) @
      sync_events (g_id x) (owned T_group_usernames ''group_id'' (disk s) (g_id x))
        (new_usernames (g_active_usernames x) (g_disabled_usernames x) (g_collectible_usernames x))
        (hash_order sv (map fst (owned T_group_usernames ''group_id'' (disk s) (g_id x))))"
    using r(2) view *(4) by (simp add: name_log_def owned_def)
qed
end
