(* ===== verification/Db_Profile_Props.thy ===== *)
theory Db_Profile_Props
  imports Db_Names
begin

text \<open>
  The properties of User.cpp and Group.cpp: what an upsert stores and records, complete histories of
  names, phone numbers, titles, descriptions and photos, the full info of a user, and the usernames.
\<close>

section \<open>Fixtures\<close>

definition sample_user :: User where
  "sample_user = \<lparr>u_id = 7, u_first_name = ''A'', u_last_name = '''', u_phone_number = ''1'',
     u_type = Ut_Regular, u_profile_photo_file_id = None, u_accent_color_id = 0,
     u_background_custom_emoji_id = 0, u_profile_accent_color_id = 0,
     u_profile_background_custom_emoji_id = 0, u_emoji_status_custom_emoji_id = None,
     u_emoji_status_expiration_date = None, u_is_verified = False, u_is_scam = False,
     u_is_fake = False, u_is_premium = True, u_is_support = False, u_restriction_reason = '''',
     u_has_sensitive_content = False, u_restricts_new_chats = False, u_paid_message_star_count = 0,
     u_is_contact = False, u_is_mutual_contact = False, u_is_close_friend = False,
     u_have_access = True, u_language_code = ''en'', u_active_usernames = [],
     u_disabled_usernames = [], u_collectible_usernames = []\<rparr>"

definition sample_group :: Group where
  "sample_group = \<lparr>g_id = 5, g_type = Gt_Supergroup, g_title = ''T'', g_description = '''',
     g_photo_file_id = None, g_active_usernames = [], g_disabled_usernames = [],
     g_collectible_usernames = []\<rparr>"

definition retitled_group :: Group where
  "retitled_group = sample_group\<lparr>g_title := ''U''\<rparr>"

lemmas user_run = run_eval sql_defs upsertUser_def upsertUser_body_def user_params_def user_history_def
  user_columns_def syncUsernames_def new_usernames_def collect_def emplace_def user_event_def
  user_removal_def user_claim_def sample_user_def

lemmas group_run = run_eval sql_defs upsertGroup_def upsertGroup_body_def group_params_def
  group_history_def syncGroupUsernames_def new_usernames_def collect_def emplace_def group_event_def
  group_removal_def group_claim_def sample_group_def

lemma sample_user_run: "fst (upsertUser sample_user quiet empty_session) = Inr ()"
  by (simp add: user_run)

lemma sample_group_run: "fst (upsertGroup sample_group quiet empty_session) = Inr ()"
  by (simp add: group_run)

section \<open>Upserts\<close>

text \<open>What the fields of a user mean, column by column and independent of the statement.\<close>

definition flag_value :: "bool \<Rightarrow> sql_val" where
  "flag_value v = (if v then IntV 1 else IntV 0)"

definition optional_value :: "int option \<Rightarrow> sql_val" where
  "optional_value v = (case v of None \<Rightarrow> Null | Some i \<Rightarrow> IntV i)"

definition user_kind :: "UserType \<Rightarrow> string" where
  "user_kind k = (case k of Ut_Regular \<Rightarrow> ''regular'' | Ut_Deleted \<Rightarrow> ''deleted'' | Ut_Bot \<Rightarrow> ''bot'' | Ut_Unknown \<Rightarrow> ''unknown'')"

definition user_fields :: "User \<Rightarrow> (string \<times> sql_val) list" where
  "user_fields x =
     [(''id'', IntV (u_id x)),
      (''first_name'', TextV (u_first_name x)),
      (''last_name'', TextV (u_last_name x)),
      (''phone_number'', TextV (u_phone_number x)),
      (''type'', TextV (user_kind (u_type x))),
      (''accent_color_id'', IntV (u_accent_color_id x)),
      (''background_custom_emoji_id'', IntV (u_background_custom_emoji_id x)),
      (''profile_accent_color_id'', IntV (u_profile_accent_color_id x)),
      (''profile_background_custom_emoji_id'', IntV (u_profile_background_custom_emoji_id x)),
      (''emoji_status_custom_emoji_id'', optional_value (u_emoji_status_custom_emoji_id x)),
      (''emoji_status_expiration_date'', optional_value (u_emoji_status_expiration_date x)),
      (''is_verified'', flag_value (u_is_verified x)),
      (''is_scam'', flag_value (u_is_scam x)),
      (''is_fake'', flag_value (u_is_fake x)),
      (''is_premium'', flag_value (u_is_premium x)),
      (''is_support'', flag_value (u_is_support x)),
      (''restriction_reason'', TextV (u_restriction_reason x)),
      (''has_sensitive_content'', flag_value (u_has_sensitive_content x)),
      (''restricts_new_chats'', flag_value (u_restricts_new_chats x)),
      (''paid_message_star_count'', IntV (u_paid_message_star_count x)),
      (''is_contact'', flag_value (u_is_contact x)),
      (''is_mutual_contact'', flag_value (u_is_mutual_contact x)),
      (''is_close_friend'', flag_value (u_is_close_friend x)),
      (''have_access'', flag_value (u_have_access x)),
      (''language_code'', TextV (u_language_code x))]"

lemma user_fields_params: "user_fields x = zip (''id'' # user_columns) (user_params x)"
  by (cases "u_type x")
    (simp_all add: user_fields_def user_columns_def user_params_def flag_value_def optional_value_def user_kind_def
      b_def opt_int_def)

lemma user_row_fields:
  assumes "\<exists>r. row = Some r \<and> map r (''id'' # user_columns) = user_params x \<and>
    (\<forall>c. c \<notin> set (''id'' # user_columns) \<longrightarrow> r c = old c)"
  shows "\<exists>r. row = Some r \<and> (\<forall>c. r c = (case map_of (user_fields x) c of Some v \<Rightarrow> v | None \<Rightarrow> old c))"
proof -
  from assms obtain r where r: "row = Some r" "user_params x = map r (''id'' # user_columns)"
    "\<And>c. c \<notin> set (''id'' # user_columns) \<Longrightarrow> r c = old c" by auto
  then show ?thesis unfolding user_fields_params r(2) map_of_zip_map by auto
qed

text \<open>C14: an \<open>upsertUser\<close> that returns has stored exactly the user's fields: the row of its id holds
  the upserted columns, its other columns (photo, bio, birthday, personal chat) keep their values or
  get their defaults when the user is new, and every other user's row is as it was. The name and
  phone histories of that user grow by the first value when it is new, by the previous value when it
  changed, and by nothing otherwise; the other users' histories are as they were.\<close>

theorem upsertUser_refines:
  assumes "upsertUser x sv s = (Inr (), u)" and "clean s" and "db_ok (weight sv) (view s) (autos s)"
  shows "(\<exists>r. find (has_key (u_id x)) (disk u T_users) = Some r \<and>
      (\<forall>c. r c = (case map_of (user_fields x) c of Some v \<Rightarrow> v
         | None \<Rightarrow> (case find (has_key (u_id x)) (disk s T_users) of
             None \<Rightarrow> blank_row T_users c | Some old \<Rightarrow> old c)))) \<and>
    (\<forall>j. j \<noteq> u_id x \<longrightarrow> find (has_key j) (disk u T_users) = find (has_key j) (disk s T_users)) \<and>
    past T_user_hist_name ''user_id'' [''first_name'', ''last_name''] (disk u) =
      (past T_user_hist_name ''user_id'' [''first_name'', ''last_name''] (disk s))
        (u_id x := past T_user_hist_name ''user_id'' [''first_name'', ''last_name''] (disk s) (u_id x) @
         tracked_step (current T_users [''first_name'', ''last_name''] (disk s) (u_id x))
           [u_first_name x, u_last_name x]) \<and>
    past T_user_hist_phone_num ''user_id'' [''phone_number''] (disk u) =
      (past T_user_hist_phone_num ''user_id'' [''phone_number''] (disk s))
        (u_id x := past T_user_hist_phone_num ''user_id'' [''phone_number''] (disk s) (u_id x) @
         tracked_step (current T_users [''phone_number''] (disk s) (u_id x)) [u_phone_number x])"
proof -
  note rets = user.upsert_returns [OF assms(1) [unfolded upsertUser_def] assms(2,3)]
  from rets(3,4,6) user_row_fields [OF rets(5)] show ?thesis by blast
qed

theorem upsertUser_refines_witness:
  "past T_user_hist_name ''user_id'' [''first_name'', ''last_name'']
     (disk (snd (upsertUser sample_user quiet empty_session))) 7 = [[''A'', '''']]"
  using upsertUser_refines [OF fst_run [OF sample_user_run] clean_empty db_ok_empty]
  by (simp add: sample_user_def past_def current_def empty_session_def)

text \<open>C15: an \<open>upsertGroup\<close> that returns has stored the group's type, title and description under its
  id, kept its photo and every other group's row, and extended the title and description histories
  by the first value of a new group or by the value that was replaced.\<close>

theorem upsertGroup_refines:
  assumes "upsertGroup x sv s = (Inr (), u)" and "clean s" and "db_ok (weight sv) (view s) (autos s)"
  shows "(\<exists>r. find (has_key (g_id x)) (disk u T_groups) = Some r \<and>
      map r [''id'', ''type'', ''title'', ''description''] = group_params x \<and>
      (\<forall>c. c \<notin> {''id'', ''type'', ''title'', ''description''} \<longrightarrow>
         r c = (case find (has_key (g_id x)) (disk s T_groups) of
           None \<Rightarrow> blank_row T_groups c | Some old \<Rightarrow> old c))) \<and>
    (\<forall>j. j \<noteq> g_id x \<longrightarrow> find (has_key j) (disk u T_groups) = find (has_key j) (disk s T_groups)) \<and>
    past T_group_hist_title ''group_id'' [''title''] (disk u) =
      (past T_group_hist_title ''group_id'' [''title''] (disk s))
        (g_id x := past T_group_hist_title ''group_id'' [''title''] (disk s) (g_id x) @
         tracked_step (current T_groups [''title''] (disk s) (g_id x)) [g_title x]) \<and>
    past T_group_hist_description ''group_id'' [''description''] (disk u) =
      (past T_group_hist_description ''group_id'' [''description''] (disk s))
        (g_id x := past T_group_hist_description ''group_id'' [''description''] (disk s) (g_id x) @
         tracked_step (current T_groups [''description''] (disk s) (g_id x)) [g_description x])"
  using group.upsert_returns [OF assms(1) [unfolded upsertGroup_def] assms(2,3)]
  by (simp_all only: list.set) blast+

theorem upsertGroup_refines_witness:
  "past T_group_hist_title ''group_id'' [''title'']
     (disk (snd (upsertGroup sample_group quiet empty_session))) 5 = [[''T'']]"
  using upsertGroup_refines [OF fst_run [OF sample_group_run] clean_empty db_ok_empty]
  by (simp add: sample_group_def past_def current_def empty_session_def)

section \<open>Complete histories\<close>

text \<open>The name and phone histories are complete. When a user that was not stored is upserted and then
  upserted again with any versions of its profile, the recorded values followed by the stored ones are
  the first value, then every version in order, consecutive equal ones merged: no version is lost.\<close>

theorem user_versions:
  assumes "tx_for upsertUser (x # xs) sv s = (Inr (), u)" and "clean s"
    and "db_ok (weight sv) (view s) (autos s)" and "\<forall>y\<in>set xs. u_id y = u_id x"
    and "find (has_key (u_id x)) (disk s T_users) = None"
  shows "past T_user_hist_name ''user_id'' [''first_name'', ''last_name''] (disk u) (u_id x) @
      [the (current T_users [''first_name'', ''last_name''] (disk u) (u_id x))] =
    past T_user_hist_name ''user_id'' [''first_name'', ''last_name''] (disk s) (u_id x) @
      [u_first_name x, u_last_name x] #
      remdups_adj (map (\<lambda>y. [u_first_name y, u_last_name y]) (x # xs)) \<and>
    past T_user_hist_phone_num ''user_id'' [''phone_number''] (disk u) (u_id x) @
      [the (current T_users [''phone_number''] (disk u) (u_id x))] =
    past T_user_hist_phone_num ''user_id'' [''phone_number''] (disk s) (u_id x) @
      [u_phone_number x] # remdups_adj (map (\<lambda>y. [u_phone_number y]) (x # xs))"
  by (rule user.versions [OF assms(1) [unfolded upsertUser_def [abs_def]] assms(2,3) _ assms(5)])
    (use assms(4) in auto)

lemma user_versions_run: "fst (tx_for upsertUser [sample_user] quiet empty_session) = Inr ()"
proof -
  have "tx_for upsertUser [sample_user] quiet empty_session =
      (Inr (), snd (upsertUser sample_user quiet empty_session))"
    unfolding tx_for.simps tx_then_run tx_return_run using fst_run [OF sample_user_run] by blast
  then show ?thesis by simp
qed

theorem user_versions_witness:
  "past T_user_hist_name ''user_id'' [''first_name'', ''last_name'']
      (disk (snd (tx_for upsertUser [sample_user] quiet empty_session))) 7 @
     [the (current T_users [''first_name'', ''last_name'']
       (disk (snd (tx_for upsertUser [sample_user] quiet empty_session))) 7)] =
   [[''A'', ''''], [''A'', '''']]"
  using user_versions [OF fst_run [OF user_versions_run] clean_empty db_ok_empty]
  by (simp add: sample_user_def past_def empty_session_def)

text \<open>The title and description histories of a group are complete in the same sense.\<close>

theorem group_versions:
  assumes "tx_for upsertGroup (x # xs) sv s = (Inr (), u)" and "clean s"
    and "db_ok (weight sv) (view s) (autos s)" and "\<forall>y\<in>set xs. g_id y = g_id x"
    and "find (has_key (g_id x)) (disk s T_groups) = None"
  shows "past T_group_hist_title ''group_id'' [''title''] (disk u) (g_id x) @
      [the (current T_groups [''title''] (disk u) (g_id x))] =
    past T_group_hist_title ''group_id'' [''title''] (disk s) (g_id x) @
      [g_title x] # remdups_adj (map (\<lambda>y. [g_title y]) (x # xs)) \<and>
    past T_group_hist_description ''group_id'' [''description''] (disk u) (g_id x) @
      [the (current T_groups [''description''] (disk u) (g_id x))] =
    past T_group_hist_description ''group_id'' [''description''] (disk s) (g_id x) @
      [g_description x] # remdups_adj (map (\<lambda>y. [g_description y]) (x # xs))"
  by (rule group.versions [OF assms(1) [unfolded upsertGroup_def [abs_def]] assms(2,3) _ assms(5)])
    (use assms(4) in auto)

lemma group_versions_run: "fst (tx_for upsertGroup [sample_group, retitled_group] quiet empty_session) = Inr ()"
  by (simp add: group_run retitled_group_def)

theorem group_versions_witness:
  "past T_group_hist_title ''group_id'' [''title'']
      (disk (snd (tx_for upsertGroup [sample_group, retitled_group] quiet empty_session))) 5 @
     [the (current T_groups [''title'']
       (disk (snd (tx_for upsertGroup [sample_group, retitled_group] quiet empty_session))) 5)] =
   [[''T''], [''T''], [''U'']]"
  using group_versions [OF fst_run [OF group_versions_run] clean_empty db_ok_empty]
  by (simp add: sample_group_def retitled_group_def past_def empty_session_def)

text \<open>Photos. When \<open>setUserProfilePhoto\<close> or \<open>setGroupPhoto\<close> returns, the photo of that user or group
  is the new file if its row exists, every other photo is as it was, and the photo history grows by
  the new file when there was no photo yet, by the replaced file when it is another one, and by
  nothing when the photo is the same or the row does not exist.\<close>

theorem photo_history:
  assumes "setUserProfilePhoto i f sv s = (Inr (), u)" and "setGroupPhoto i f sv s = (Inr (), u')"
    and "clean s" and "db_ok (weight sv) (view s) (autos s)"
  shows "cur_photo T_users ''profile_photo_file_id'' (disk u) =
      (cur_photo T_users ''profile_photo_file_id'' (disk s))
        (i := map_option (\<lambda>_. IntV f) (cur_photo T_users ''profile_photo_file_id'' (disk s) i)) \<and>
    past_photos T_user_hist_profile_photo ''user_id'' (disk u) =
      (past_photos T_user_hist_profile_photo ''user_id'' (disk s))
        (i := past_photos T_user_hist_profile_photo ''user_id'' (disk s) i @
          (case cur_photo T_users ''profile_photo_file_id'' (disk s) i of None \<Rightarrow> []
           | Some v \<Rightarrow> tracked_step (photo_of v) (IntV f))) \<and>
    cur_photo T_groups ''photo_file_id'' (disk u') =
      (cur_photo T_groups ''photo_file_id'' (disk s))
        (i := map_option (\<lambda>_. IntV f) (cur_photo T_groups ''photo_file_id'' (disk s) i)) \<and>
    past_photos T_group_hist_photo ''group_id'' (disk u') =
      (past_photos T_group_hist_photo ''group_id'' (disk s))
        (i := past_photos T_group_hist_photo ''group_id'' (disk s) i @
          (case cur_photo T_groups ''photo_file_id'' (disk s) i of None \<Rightarrow> []
           | Some v \<Rightarrow> tracked_step (photo_of v) (IntV f)))"
  using user_photo.photo_returns [OF assms(1) [unfolded setUserProfilePhoto_def] assms(3,4)]
    group_photo.photo_returns [OF assms(2) [unfolded setGroupPhoto_def] assms(3,4)] by blast

definition photo_session :: session where
  "photo_session =
     (let d = (\<lambda>_. [])(T_users := [(\<lambda>c. if c = ''id'' then IntV 7 else Null)],
                 T_files := [(\<lambda>c. if c = ''id'' then IntV 3 else Null)])
      in empty_session\<lparr>view := d, disk := d, autos := (\<lambda>_. 4)\<rparr>)"

lemma clean_photo [simp]: "clean photo_session"
  by (simp add: clean_def photo_session_def empty_session_def Let_def)

lemma db_ok_photo [simp]: "db_ok w (view photo_session) (autos photo_session)"
  by (simp add: db_ok_def photo_session_def empty_session_def below_counter_def fk_row_def
      users_def_def files_def_def Let_def)

theorem photo_history_witness:
  "past_photos T_user_hist_profile_photo ''user_id''
     (disk (snd (setUserProfilePhoto 7 3 quiet photo_session))) 7 = [IntV 3]"
proof -
  have "fst (setUserProfilePhoto 7 3 quiet photo_session) = Inr ()"
    and "fst (setGroupPhoto 7 3 quiet photo_session) = Inr ()"
    by (simp_all add: run_eval sql_defs setUserProfilePhoto_def setUserProfilePhoto_body_def
        trackProfilePhotoChange_def setGroupPhoto_def setGroupPhoto_body_def trackGroupPhotoChange_def
        photo_session_def)
  from photo_history [OF fst_run [OF this(1)] fst_run [OF this(2)] clean_photo db_ok_photo]
  show ?thesis
    by (simp add: past_photos_def cur_photo_def has_key_def photo_session_def empty_session_def
        photo_of_def Let_def)
qed
section \<open>Full info\<close>

definition bio_of :: "db \<Rightarrow> int \<Rightarrow> string list option" where
  "bio_of d i = current T_users [''bio''] d i"

definition past_bios :: "db \<Rightarrow> int \<Rightarrow> string list list" where
  "past_bios d i = past T_user_hist_bio ''user_id'' [''bio''] d i"

definition full_info :: "UserFullInfo \<Rightarrow> sql_val list" where
  "full_info fi = [TextV (fi_bio fi), IntV (fi_personal_chat_id fi), opt_int (fi_birthday_day fi),
     opt_int (fi_birthday_month fi), opt_int (fi_birthday_year fi)]"

definition full_info_columns :: "string list" where
  "full_info_columns = [''bio'', ''personal_chat_id'', ''birthday_day'', ''birthday_month'', ''birthday_year'']"

lemma full_info_keeps: "keeps (on_view db_ok) (upsertUserFullInfo_body fi)"
  unfolding upsertUserFullInfo_body_def Let_def by (intro integrity.keeps_rules; simp)

lemma full_info_effect:
  assumes "do_execute user_full_sql (full_info fi @ [IntV (fi_user_id fi)]) sv s = (Inr (), u)"
  shows "find (has_key (fi_user_id fi)) (view u T_users) =
      map_option (\<lambda>r c. case map_of (zip full_info_columns (full_info fi)) c of None \<Rightarrow> r c | Some v \<Rightarrow> v)
        (find (has_key (fi_user_id fi)) (view s T_users))"
    and "\<And>j. j \<noteq> fi_user_id fi \<Longrightarrow> find (has_key j) (view u T_users) = find (has_key j) (view s T_users)"
    and "view u T_user_hist_bio = view s T_user_hist_bio"
proof -
  let ?i = "fi_user_id fi"
  let ?f = "\<lambda>r c. case map_of (zip full_info_columns (full_info fi)) c of None \<Rightarrow> r c | Some v \<Rightarrow> v"
  have ex: "exec_stmt (weight sv) (full_info fi @ [IntV ?i]) user_full_sql (view s) (autos s)
      = Inr (view u, autos u)"
    using assms by (rule do_executeE)
  have f: "apply_sets (weight sv) (full_info fi @ [IntV ?i]) Null
      [(''bio'', Arg 0), (''personal_chat_id'', Arg 1), (''birthday_day'', Arg 2),
       (''birthday_month'', Arg 3), (''birthday_year'', Arg 4)] r = ?f r" for r
    by (auto simp: full_info_def full_info_columns_def fun_eq_iff)
  have d': "view u = (view s)(T_users := map (\<lambda>r. if has_key ?i r then ?f r else r) (view s T_users))"
    using exec_update_rows(1) [OF ex [unfolded user_full_sql_def], unfolded f]
    by (simp add: has_key_def full_info_def cong: if_cong)
  have key: "has_key j (?f r) = has_key j r" for j r
    by (simp add: has_key_def full_info_columns_def full_info_def)
  show "find (has_key ?i) (view u T_users) = map_option ?f (find (has_key ?i) (view s T_users))"
    unfolding d' fun_upd_same by (rule find_updated) (simp add: key)
  show "find (has_key j) (view u T_users) = find (has_key j) (view s T_users)" if "j \<noteq> ?i" for j
    unfolding d' fun_upd_same
    by (rule find_updated_other) (use that in \<open>auto simp: key, auto simp: has_key_def\<close>)
  show "view u T_user_hist_bio = view s T_user_hist_bio" by (simp add: d')
qed
lemma bio_hist_run:
  assumes "(if old \<noteq> new
      then tx_bind (do_insert user_bio_hist_sql [IntV i, TextV old]) (\<lambda>_. tx_return ())
      else tx_return ()) sv s = (Inr (), u)"
  shows "past_bios (view u) = (past_bios (view s))(i := past_bios (view s) i @
      tracked_step (Some [old]) [new]) \<and> view u T_users = view s T_users"
proof (cases "old = new")
  case True
  with assms have "u = s" by (auto elim: tx_returnE)
  with True show ?thesis by simp
next
  case False
  with assms have "exec_stmt (weight sv) (IntV i # map TextV [old])
      (hist_sql T_user_hist_bio ''user_id'' [''bio'']) (view s) (autos s) = Inr (view u, autos u)"
    by (auto simp: user_bio_hist_sql_def hist_sql_def elim!: tx_bindE tx_returnE do_insertE)
  note e = hist_effect [OF this]
  show ?thesis using e False by (simp add: past_bios_def [abs_def])
qed

lemma bio_hist_step:
  assumes h: "(if old \<noteq> fi_bio fi
      then tx_bind (do_insert user_bio_hist_sql [IntV (fi_user_id fi), TextV old]) (\<lambda>_. tx_return ())
      else tx_return ()) sv v = (Inr (), v2)"
    and up: "do_execute user_full_sql (full_info fi @ [IntV (fi_user_id fi)]) sv v2 = (Inr (), s2)"
  shows "past_bios (view s2) = (past_bios (view v))(fi_user_id fi := past_bios (view v) (fi_user_id fi) @
      tracked_step (Some [old]) [fi_bio fi])" and "view v2 T_users = view v T_users"
proof -
  note eff = full_info_effect [OF up]
  have "past_bios (view s2) = past_bios (view v2)"
    by (simp add: past_bios_def [abs_def] past_def eff(3))
  with bio_hist_run [OF h] show "past_bios (view s2) = (past_bios (view v))(fi_user_id fi :=
      past_bios (view v) (fi_user_id fi) @ tracked_step (Some [old]) [fi_bio fi])"
    and "view v2 T_users = view v T_users" by simp_all
qed

lemma full_info_rows:
  assumes "do_query user_bio_old_sql [IntV i] sv s = (Inr rows, v)" and "db_ok (weight sv) (view s) (autos s)"
  shows "rows = (case find (has_key i) (view s T_users) of None \<Rightarrow> [] | Some r \<Rightarrow> [map r [''bio'']])"
    and "view v = view s"
proof -
  have "exec_query (weight sv) [IntV i] (by_id_sql T_users [''bio'']) (view s) = Inr rows"
    using assms(1) by (auto simp: user_bio_old_sql_def by_id_sql_def elim: do_queryE)
  then show "rows = (case find (has_key i) (view s T_users) of None \<Rightarrow> [] | Some r \<Rightarrow> [map r [''bio'']])"
  proof (rule by_id_rows)
    show "uniq_rows (weight sv) T_users (view s T_users)" using assms(2) unfolding db_ok_def by blast
  qed
  show "view v = view s" using assms(1) by (auto elim: do_queryE)
qed

lemma full_info_body_run:
  assumes run: "upsertUserFullInfo_body fi sv s = (Inr (), u)" and ok: "db_ok (weight sv) (view s) (autos s)"
  shows "find (has_key (fi_user_id fi)) (view u T_users) =
      map_option (\<lambda>r c. case map_of (zip full_info_columns (full_info fi)) c of None \<Rightarrow> r c | Some v \<Rightarrow> v)
        (find (has_key (fi_user_id fi)) (view s T_users)) \<and>
    (\<forall>j. j \<noteq> fi_user_id fi \<longrightarrow> find (has_key j) (view u T_users) = find (has_key j) (view s T_users)) \<and>
    past_bios (view u) = (past_bios (view s))(fi_user_id fi := past_bios (view s) (fi_user_id fi) @
      (case bio_of (view s) (fi_user_id fi) of None \<Rightarrow> []
       | Some o1 \<Rightarrow> tracked_step (Some o1) [fi_bio fi])) \<and>
    (find (has_key (fi_user_id fi)) (view s T_users) = None \<longrightarrow> view u = view s)"
proof -
  let ?i = "fi_user_id fi"
  from run obtain rows v where q: "do_query user_bio_old_sql [IntV ?i] sv s = (Inr rows, v)"
    and rest: "(if rows = [] then tx_return ()
     else
       (let old_bio = text_or (first_value rows) '''' in
        tx_then
          (if old_bio \<noteq> fi_bio fi
           then tx_bind (do_insert user_bio_hist_sql [IntV ?i, TextV old_bio]) (\<lambda>_. tx_return ())
           else tx_return ())
          (do_execute user_full_sql
             [TextV (fi_bio fi), IntV (fi_personal_chat_id fi), opt_int (fi_birthday_day fi),
              opt_int (fi_birthday_month fi), opt_int (fi_birthday_year fi), IntV ?i]))) sv v = (Inr (), u)"
    unfolding upsertUserFullInfo_body_def by (rule tx_bindE) (rule that)
  note rows = full_info_rows [OF q ok]
  show ?thesis
  proof (cases "find (has_key ?i) (view s T_users)")
    case None
    with rest rows have "view u = view s" by (auto elim: tx_returnE)
    with None show ?thesis by (simp add: bio_of_def current_def)
  next
    case (Some r)
    with rest rows(1) obtain v2 where
      h: "(if text_or (r ''bio'') '''' \<noteq> fi_bio fi
           then tx_bind (do_insert user_bio_hist_sql [IntV ?i, TextV (text_or (r ''bio'') '''')]) (\<lambda>_. tx_return ())
           else tx_return ()) sv v = (Inr (), v2)"
      and up: "do_execute user_full_sql (full_info fi @ [IntV ?i]) sv v2 = (Inr (), u)"
      by (auto simp: first_value_def Let_def full_info_def elim: tx_thenE)
    from bio_hist_step [OF h up] full_info_effect [OF up] Some rows(2) show ?thesis
      by (simp add: bio_of_def current_def texts_def)
  qed
qed

text \<open>C33: full info. When \<open>upsertUserFullInfo\<close> returns for a stored user, its bio, personal chat and
  birthday are the given ones and its other columns are kept, and the bio history has grown by the
  replaced bio if it was another one; other users and their bios are as they were. For a user that is
  not stored, no committed row of any table changes.\<close>

theorem full_info_refines:
  assumes run: "upsertUserFullInfo fi sv s = (Inr (), u)" and s: "clean s"
    and ok: "db_ok (weight sv) (view s) (autos s)"
  shows "find (has_key (fi_user_id fi)) (disk u T_users) =
      map_option (\<lambda>r c. case map_of (zip full_info_columns (full_info fi)) c of None \<Rightarrow> r c | Some v \<Rightarrow> v)
        (find (has_key (fi_user_id fi)) (disk s T_users)) \<and>
    (\<forall>j. j \<noteq> fi_user_id fi \<longrightarrow> find (has_key j) (disk u T_users) = find (has_key j) (disk s T_users)) \<and>
    past_bios (disk u) = (past_bios (disk s))(fi_user_id fi := past_bios (disk s) (fi_user_id fi) @
      (case bio_of (disk s) (fi_user_id fi) of None \<Rightarrow> []
       | Some o1 \<Rightarrow> tracked_step (Some o1) [fi_bio fi])) \<and>
    (find (has_key (fi_user_id fi)) (disk s T_users) = None \<longrightarrow> disk u = disk s)"
proof -
  obtain s1 s2 where *: "upsertUserFullInfo_body fi sv s1 = (Inr (), s2)"
    "db_ok (weight sv) (view s1) (autos s1)" "view s1 = disk s" "disk u = view s2"
    by (rule transaction_run [OF run [unfolded upsertUserFullInfo_def] full_info_keeps ok])
      (use clean_begun [OF s] that in auto)
  from full_info_body_run [OF *(1,2)] show ?thesis unfolding *(3,4) .
qed

definition sample_info :: UserFullInfo where
  "sample_info = \<lparr>fi_user_id = 7, fi_bio = ''hi'', fi_birthday_day = None, fi_birthday_month = None,
     fi_birthday_year = None, fi_personal_chat_id = 0\<rparr>"

theorem full_info_refines_witness:
  "past_bios (disk (snd (upsertUserFullInfo sample_info quiet photo_session))) 7 = [[[]]]"
proof -
  have "fst (upsertUserFullInfo sample_info quiet photo_session) = Inr ()"
    by (simp add: run_eval sql_defs upsertUserFullInfo_def upsertUserFullInfo_body_def
        photo_session_def sample_info_def)
  from full_info_refines [OF fst_run [OF this] clean_photo db_ok_photo] show ?thesis
    by (simp add: sample_info_def past_bios_def past_def bio_of_def current_def has_key_def texts_def
        photo_session_def empty_session_def Let_def)
qed
section \<open>Usernames\<close>

definition user_names_of :: "User \<Rightarrow> name_map" where
  "user_names_of x = new_usernames (u_active_usernames x) (u_disabled_usernames x) (u_collectible_usernames x)"

definition group_names_of :: "Group \<Rightarrow> name_map" where
  "group_names_of g = new_usernames (g_active_usernames g) (g_disabled_usernames g) (g_collectible_usernames g)"

text \<open>C16: usernames. When \<open>upsertUser\<close> or \<open>upsertGroup\<close> returns, every listed username is held by that user
  or group with the kind and position of its last listing (taking it over from any previous holder),
  the names it held and no longer lists are held by nobody, all other holdings are as they were, and
  the event log has grown by exactly the additions, kind changes and reorderings in list order, then
  the removals in the map's iteration order.\<close>

theorem usernames_refine:
  assumes "upsertUser x sv s = (Inr (), u)" and "upsertGroup g sv s = (Inr (), u')"
    and "clean s" and "hash_ok sv" and "db_ok (weight sv) (view s) (autos s)"
  shows "holder (weight sv) T_user_usernames ''user_id'' (disk u) =
      held_after (weight sv) (u_id x) (user_names_of x)
        (holder (weight sv) T_user_usernames ''user_id'' (disk s)) \<and>
    name_log T_user_hist_usernames_events ''user_id'' (disk u) =
      name_log T_user_hist_usernames_events ''user_id'' (disk s) @
      sync_events (u_id x) (owned T_user_usernames ''user_id'' (disk s) (u_id x)) (user_names_of x)
        (hash_order sv (map fst (owned T_user_usernames ''user_id'' (disk s) (u_id x)))) \<and>
    holder (weight sv) T_group_usernames ''group_id'' (disk u') =
      held_after (weight sv) (g_id g) (group_names_of g)
        (holder (weight sv) T_group_usernames ''group_id'' (disk s)) \<and>
    name_log T_group_hist_usernames_events ''group_id'' (disk u') =
      name_log T_group_hist_usernames_events ''group_id'' (disk s) @
      sync_events (g_id g) (owned T_group_usernames ''group_id'' (disk s) (g_id g)) (group_names_of g)
        (hash_order sv (map fst (owned T_group_usernames ''group_id'' (disk s) (g_id g))))"
  unfolding user_names_of_def group_names_of_def
  using upsertUser_names [OF assms(1,3,4,5)] upsertGroup_names [OF assms(2,3,4,5)] by blast

definition named_group :: Group where
  "named_group = sample_group\<lparr>g_active_usernames := [''foo'']\<rparr>"

lemma named_group_run: "fst (upsertGroup named_group quiet empty_session) = Inr ()"
  by (simp add: group_run named_group_def)

theorem usernames_refine_witness:
  "holder (weight quiet) T_group_usernames ''group_id'' (disk (snd (upsertGroup named_group quiet empty_session))) ''foo'' =
     Some (IntV 5, TextV ''active'', IntV 0)"
  unfolding usernames_refine [OF fst_run [OF sample_user_run] fst_run [OF named_group_run] clean_empty
      hash_quiet db_ok_empty, THEN conjunct2, THEN conjunct2, THEN conjunct1]
  by (simp add: held_after_def group_names_of_def named_group_def sample_group_def new_usernames_def
      collect_def last_entry_def quiet_def)

text \<open>A username sync settles. If the listed names differ pairwise up to the collation and each is
  stored, if at all, under its own spelling, then after an \<open>upsertGroup\<close> a further one of a group with
  the same names records no username event.\<close>

theorem usernames_settle:
  assumes first: "upsertGroup x sv s = (Inr (), u)" and second: "upsertGroup y sv u = (Inr (), v)"
    and s: "clean s" and hash: "hash_ok sv" and ok: "db_ok (weight sv) (view s) (autos s)"
    and typed: "names_typed T_group_usernames (disk u)"
    and same: "g_id y = g_id x" "group_names_of y = group_names_of x"
    and dist: "distinct (map (\<lambda>n. weight sv (fst n)) (group_names_of x))"
    and spelled: "\<forall>n\<in>set (group_names_of x).
      spelling (weight sv) T_group_usernames (disk s) (fst n) \<in> {None, Some (TextV (fst n))}"
  shows "name_log T_group_hist_usernames_events ''group_id'' (disk v) =
    name_log T_group_hist_usernames_events ''group_id'' (disk u)"
proof -
  note ret = group.upsert_returns [OF first [unfolded upsertGroup_def] s ok]
  note one = upsertGroup_names [OF first s hash ok, folded group_names_of_def]
    and two = upsertGroup_names [OF second ret(7) hash ret(8), folded group_names_of_def]
  have uniq: "uniq_rows (weight sv) T_group_usernames (disk u T_group_usernames)"
    using ret(8) unfolding clean_begun [OF ret(7)] db_ok_def by blast
  have sp: "spelling (weight sv) T_group_usernames (disk u) n = Some (TextV n)"
    if n: "n \<in> fst ` set (group_names_of x)" for n
  proof (cases "spelling (weight sv) T_group_usernames (disk s) n")
    case None
    from n obtain e where e: "(n, e) \<in> set (group_names_of x)" by auto
    have only: "m = (n, e)" if "m \<in> set (group_names_of x)" "weight sv (fst m) = weight sv n" for m
      by (rule inj_onD [of "\<lambda>n. weight sv (fst n)"]) (use dist e that in \<open>simp_all add: distinct_map\<close>)
    obtain m where m: "find (\<lambda>m. weight sv (fst m) = weight sv n) (group_names_of x) = Some m"
      using find_Some_ex [OF e, of "\<lambda>m. weight sv (fst m) = weight sv n"] by auto
    have "m = (n, e)" by (rule only) (use find_Some_mem [OF m] in simp_all)
    with m have "map_option fst (find (\<lambda>m. weight sv (fst m) = weight sv n) (group_names_of x)) = Some n"
      by simp
    with None show ?thesis by (auto simp: one(3) spelled_after_def)
  next
    case (Some v)
    with n spelled show ?thesis by (auto simp: one(3) spelled_after_def)
  qed
  have ks: "set (hash_order sv ns) = set ns" for ns
    using hash unfolding hash_ok_def by (metis set_mset_mset)
  have "sync_events (g_id y) (owned T_group_usernames ''group_id'' (disk u) (g_id y)) (group_names_of y)
      (hash_order sv (map fst (owned T_group_usernames ''group_id'' (disk u) (g_id y)))) = []"
    unfolding same
    by (rule group_names.settled [where d = "disk u", OF uniq typed one(1) sp dist]) (simp_all add: ks)
  with two(2) show ?thesis by simp
qed

lemma named_group_twice: "fst (tx_for upsertGroup [named_group, named_group] quiet empty_session) = Inr ()"
  by (simp add: group_run named_group_def)

theorem usernames_settle_witness:
  "\<exists>u v. upsertGroup named_group quiet empty_session = (Inr (), u) \<and>
     upsertGroup named_group quiet u = (Inr (), v) \<and>
     name_log T_group_hist_usernames_events ''group_id'' (disk v) =
       name_log T_group_hist_usernames_events ''group_id'' (disk u)"
proof -
  obtain u v where u: "upsertGroup named_group quiet empty_session = (Inr (), u)"
    and v: "upsertGroup named_group quiet u = (Inr (), v)"
    using fst_run [OF named_group_twice] by (auto simp: tx_then_run)
  have "names_typed T_group_usernames (disk (snd (upsertGroup named_group quiet empty_session)))"
    by (simp add: group_run named_group_def names_typed_def)
  then have "names_typed T_group_usernames (disk u)" by (simp add: u)
  from usernames_settle [OF u v clean_empty hash_quiet db_ok_empty this] u v show ?thesis
    by (auto simp: group_names_of_def named_group_def sample_group_def new_usernames_def collect_def
        spelling_def empty_session_def)
qed

text \<open>C34: a change of case never settles. If a user holds a username under one spelling and lists it under
  another that the collation does not tell apart, every \<open>upsertUser\<close> of it records the new spelling
  as added and the stored one as removed, and leaves the stored spelling and its holder as they were,
  so that the next one records the same again.\<close>

theorem respelled_name_never_settles:
  assumes run: "upsertUser x sv s = (Inr (), u)" and s: "clean s" and hash: "hash_ok sv"
    and ok: "db_ok (weight sv) (view s) (autos s)" and typed: "names_typed T_user_usernames (disk s)"
    and held: "holder (weight sv) T_user_usernames ''user_id'' (disk s) k = Some (IntV (u_id x), kp)"
    and sp: "spelling (weight sv) T_user_usernames (disk s) k = Some (TextV k)"
    and n: "(n, kind, p) \<in> set (user_names_of x)" and same: "weight sv n = weight sv k"
    and k: "k \<notin> fst ` set (user_names_of x)"
  shows "\<exists>es. name_log T_user_hist_usernames_events ''user_id'' (disk u) =
      name_log T_user_hist_usernames_events ''user_id'' (disk s) @ es \<and>
    (IntV (u_id x), TextV n, TextV ''added'', TextV kind, IntV p) \<in> set es \<and>
    (IntV (u_id x), TextV k, TextV ''removed'', Null, Null) \<in> set es \<and>
    spelling (weight sv) T_user_usernames (disk u) k = Some (TextV k) \<and>
    (\<exists>kp'. holder (weight sv) T_user_usernames ''user_id'' (disk u) k = Some (IntV (u_id x), kp'))"
proof -
  note one = upsertUser_names [OF run s hash ok, folded user_names_of_def]
  have uniq: "uniq_rows (weight sv) T_user_usernames (disk s T_user_usernames)"
    using ok unfolding clean_begun [OF s] db_ok_def by blast
  have ks: "set (hash_order sv ns) = set ns" for ns
    using hash unfolding hash_ok_def by (metis set_mset_mset)
  have "last_entry (weight sv) (user_names_of x) k \<noteq> None"
    using n same last_entry_None [of "weight sv" "user_names_of x" k] by fastforce
  then have "\<exists>kp'. holder (weight sv) T_user_usernames ''user_id'' (disk u) k = Some (IntV (u_id x), kp')"
    by (auto simp: one(1) held_after_def)
  moreover have "spelling (weight sv) T_user_usernames (disk u) k = Some (TextV k)"
    by (simp add: one(3) spelled_after_def sp)
  ultimately show ?thesis
    using one(2) user_names.respelled [where d = "disk s", OF uniq typed held sp n same k,
        of "hash_order sv (map fst (owned T_user_usernames ''user_id'' (disk s) (u_id x)))"]
    by (simp add: ks)
qed
definition cased_session :: session where
  "cased_session =
     (let d = (\<lambda>_. [])(T_users := [(\<lambda>c. if c = ''id'' then IntV 7 else Null)],
                 T_user_usernames := [(\<lambda>c. if c = ''id'' then IntV 1 else if c = ''user_id'' then IntV 7
                   else if c = ''username'' then TextV ''Foo''
                   else if c = ''kind'' then TextV ''active'' else IntV 0)])
      in empty_session\<lparr>view := d, disk := d, autos := (\<lambda>_. 2)\<rparr>)"

definition lower_server :: server where
  "lower_server = quiet\<lparr>weight := (\<lambda>k. if k = ''Foo'' then ''foo'' else k)\<rparr>"

definition cased_user :: User where
  "cased_user = sample_user\<lparr>u_active_usernames := [''foo'']\<rparr>"

lemma cased_user_run: "fst (upsertUser cased_user lower_server cased_session) = Inr ()"
  by (simp add: user_run cased_user_def lower_server_def cased_session_def)

theorem respelled_name_never_settles_witness:
  "(IntV 7, TextV ''Foo'', TextV ''removed'', Null, Null) \<in>
     set (name_log T_user_hist_usernames_events ''user_id''
       (disk (snd (upsertUser cased_user lower_server cased_session))))"
proof -
  have 1: "clean cased_session" "hash_ok lower_server"
    "db_ok (weight lower_server) (view cased_session) (autos cased_session)"
    by (simp_all add: clean_def cased_session_def empty_session_def hash_ok_def lower_server_def
        quiet_def db_ok_def below_counter_def fk_row_def users_def_def user_usernames_def_def Let_def
        has_id_def)
  have 2: "names_typed T_user_usernames (disk cased_session)"
    "holder (weight lower_server) T_user_usernames ''user_id'' (disk cased_session) ''Foo'' =
      Some (IntV (u_id cased_user), TextV ''active'', IntV 0)"
    "spelling (weight lower_server) T_user_usernames (disk cased_session) ''Foo'' = Some (TextV ''Foo'')"
    by (simp_all add: names_typed_def holder_def spelling_def named_def holding_of_def cased_session_def
        cased_user_def sample_user_def Let_def)
  have 3: "(''foo'', ''active'', 0) \<in> set (user_names_of cased_user)"
    "weight lower_server ''foo'' = weight lower_server ''Foo''"
    "''Foo'' \<notin> fst ` set (user_names_of cased_user)"
    by (simp_all add: user_names_of_def cased_user_def sample_user_def new_usernames_def collect_def
        lower_server_def)
  from respelled_name_never_settles [OF fst_run [OF cased_user_run] 1 2 3] show ?thesis
    by (auto simp: cased_user_def sample_user_def)
qed
end
