(* ===== verification/Tg_Store.thy ===== *)
theory Tg_Store
  imports Db_Files "HOL-Library.Word"
begin

text \<open>
  src/tgloggerd/TgLoggerd.cpp, the file store: \<open>sha256_file_hex\<close> and \<open>storeDownloadedFile\<close>. The
  file system is a map from paths to contents; the SHA-256 function of OpenSSL and the failures of
  the file system calls are fields of the record \<open>host\<close>. What is relied on of SHA-256: a digest has
  32 bytes where a theorem says so, nothing else. A stream that fails ends the reading loop like the
  end of the file does, and a copy that fails may leave the part it has written.
\<close>

unbundle bit_operations_syntax

section \<open>Digests\<close>

type_synonym bytes = "8 word list"
type_synonym fsys = "string \<rightharpoonup> bytes"

datatype copying = Copied | Not_Created | Cut_Short nat

record host =
  sha256 :: "bytes \<Rightarrow> bytes"
  evp_ok :: bool                  \<comment> \<open>the context could be created, initialised and finished\<close>
  read_end :: "string \<Rightarrow> nat option"   \<comment> \<open>where reading the file fails, if it does\<close>
  mkdir_ok :: "string \<Rightarrow> bool"
  copying :: "string \<Rightarrow> copying"   \<comment> \<open>how a copy to a path ends\<close>

definition readable :: "host \<Rightarrow> string \<Rightarrow> bytes \<Rightarrow> bytes" where
  "readable h path content = (case read_end h path of None \<Rightarrow> content | Some n \<Rightarrow> take n content)"

definition io_sound :: "host \<Rightarrow> bool" where
  "io_sound h \<longleftrightarrow> (\<forall>p. read_end h p = None) \<and> (\<forall>p n. copying h p \<noteq> Cut_Short n)"

text \<open>The loop that feeds the digest: 64 KiB at a time, until the stream ends.\<close>

function read_loop :: "bytes \<Rightarrow> bytes \<Rightarrow> bytes" where
  "read_loop rest fed =
     (if rest = [] then fed else read_loop (drop 65536 rest) (fed @ take 65536 rest))"
  by pat_completeness auto
termination by (relation "measure (\<lambda>(rest, fed). length rest)") (auto simp: length_greater_0_conv)

declare read_loop.simps [simp del]

definition hex_digits :: string where
  "hex_digits = ''0123456789abcdef''"

definition hex_of :: "bytes \<Rightarrow> string" where
  "hex_of digest =
     concat (map (\<lambda>d. [hex_digits ! unat (drop_bit 4 d), hex_digits ! unat (d AND 15)]) digest)"

definition sha256_file_hex :: "host \<Rightarrow> fsys \<Rightarrow> string \<Rightarrow> string option" where
  "sha256_file_hex h fs path =
     (case fs path of
        None \<Rightarrow> None
      | Some content \<Rightarrow>
          if \<not> evp_ok h then None
          else
            (let digest = sha256 h (read_loop (readable h path content) []) in
             if length digest \<noteq> 32 then None else Some (hex_of digest)))"

section \<open>Names\<close>

text \<open>\<open>fs::path(p).extension()\<close> of the last component: from its last dot, unless that is its first
  character or the component is \<open>..\<close>; then without the dot, in lower case (ASCII).\<close>

definition last_component :: "string \<Rightarrow> string" where
  "last_component p = rev (takeWhile (\<lambda>c. c \<noteq> CHR ''/'') (rev p))"

definition extension :: "string \<Rightarrow> string" where
  "extension p =
     (let n = last_component p;
          after = rev (takeWhile (\<lambda>c. c \<noteq> CHR ''.'') (rev n)) in
      if n = ''..'' \<or> CHR ''.'' \<notin> set n \<or> length n = Suc (length after) then ''''
      else CHR ''.'' # after)"

definition to_lower :: "char \<Rightarrow> char" where
  "to_lower c = (let n = of_char c :: nat in if 65 \<le> n \<and> n \<le> 90 then char_of (n + 32) else c)"

definition file_extension :: "string \<Rightarrow> string" where
  "file_extension p =
     map to_lower (case extension p of c # cs \<Rightarrow> if c = CHR ''.'' then cs else c # cs | [] \<Rightarrow> [])"

text \<open>\<open>fs::path::operator/=\<close> with a relative right-hand side.\<close>

definition path_join :: "string \<Rightarrow> string \<Rightarrow> string" where
  "path_join p r = (if p = '''' \<or> last p = CHR ''/'' then p @ r else p @ ''/'' @ r)"

definition fan_out :: "string \<Rightarrow> string \<Rightarrow> string" where
  "fan_out storage_dir hex =
     foldl (\<lambda>dir i. path_join dir (take 2 (drop (i * 2) hex))) storage_dir [0, 1, 2, 3, 4]"

definition stored_name :: "string \<Rightarrow> string \<Rightarrow> string" where
  "stored_name hex ext = (if ext \<noteq> '''' then hex @ ''.'' @ ext else hex)"

definition stored_path :: "string \<Rightarrow> string \<Rightarrow> string \<Rightarrow> string" where
  "stored_path storage_dir hex ext = path_join (fan_out storage_dir hex) (stored_name hex ext)"

section \<open>storeDownloadedFile\<close>

text \<open>\<open>copy_file\<close> with \<open>skip_existing\<close>: whether it succeeded, and the files afterwards.\<close>

definition copy_file :: "host \<Rightarrow> string \<Rightarrow> string \<Rightarrow> fsys \<Rightarrow> bool \<times> fsys" where
  "copy_file h src dest fs =
     (case fs src of
        None \<Rightarrow> (False, fs)
      | Some content \<Rightarrow>
          if fs dest \<noteq> None then (copying h dest \<noteq> Not_Created, fs)
          else case copying h dest of
            Copied \<Rightarrow> (True, fs(dest \<mapsto> content))
          | Not_Created \<Rightarrow> (False, fs)
          | Cut_Short n \<Rightarrow> (False, fs(dest \<mapsto> take n content)))"

definition downloaded_file :: "string \<Rightarrow> string \<Rightarrow> string \<Rightarrow> int \<Rightarrow> string \<Rightarrow> string \<Rightarrow> stored_file" where
  "downloaded_file hex ext tg_file_id file_size file_type orig_file_name =
     \<lparr>f_tg_file_id = tg_file_id, f_file_type = file_type,
      f_file_size = (if file_size < 0 then 0 else file_size), f_sha256_hex = hex,
      f_file_ext = (if ext \<noteq> '''' then Some ext else None), f_orig_file_name = orig_file_name\<rparr>"

text \<open>The result is an exception of \<open>upsertFile\<close>, or the file's id, or nothing when the file could not be
  stored.\<close>

definition storeDownloadedFile ::
  "host \<Rightarrow> string \<Rightarrow> string \<Rightarrow> string \<Rightarrow> int \<Rightarrow> string \<Rightarrow> string \<Rightarrow> fsys \<Rightarrow> server \<Rightarrow> session \<Rightarrow>
     (exn + int option) \<times> fsys \<times> session"
where
  "storeDownloadedFile h storage_dir path tg_file_id file_size file_type orig_file_name fs sv s =
     (case sha256_file_hex h fs path of
        None \<Rightarrow> (Inr None, fs, s)
      | Some hex \<Rightarrow>
          (let ext = file_extension path;
               dest = stored_path storage_dir hex ext in
           if \<not> mkdir_ok h (fan_out storage_dir hex) then (Inr None, fs, s)
           else case copy_file h path dest fs of
             (False, fs) \<Rightarrow> (Inr None, fs, s)
           | (True, fs) \<Rightarrow>
               (case upsertFile (downloaded_file hex ext tg_file_id file_size file_type orig_file_name) sv s of
                  (Inl e, s) \<Rightarrow> (Inl e, fs, s)
                | (Inr i, s) \<Rightarrow> (Inr (Some i), fs, s))))"

section \<open>Hexadecimal\<close>

lemma read_loop_all: "read_loop rest fed = fed @ rest"
  by (induction rest fed rule: read_loop.induct) (subst read_loop.simps, simp)

lemma hex_digits_inverse: "n < 16 \<Longrightarrow> hex_digit (hex_digits ! n) = Some n"
proof -
  assume "n < 16"
  then have "n \<in> set [0..<16]" by simp
  moreover have "\<forall>n \<in> set [0..<16]. hex_digit (hex_digits ! n) = Some n" by code_simp
  ultimately show ?thesis by blast
qed

lemma nibbles:
  fixes d :: "8 word"
  shows "unat (drop_bit 4 d) < 16" "unat (d AND 15) < 16" "16 * unat (drop_bit 4 d) + unat (d AND 15) = unat d"
proof -
  have hi: "unat (drop_bit 4 d) = unat d div 16"
    unfolding unat_drop_bit_eq by (simp add: drop_bit_eq_div)
  have "d AND 15 = take_bit 4 d" by (simp add: take_bit_eq_mask mask_numeral)
  then have "unat (d AND 15) = take_bit 4 (unat d)" by (simp only: unsigned_take_bit_eq)
  then have lo: "unat (d AND 15) = unat d mod 16" by (simp only: take_bit_eq_mod) simp
  have "unat d < 256" using unsigned_less [of d] by simp
  with hi show "unat (drop_bit 4 d) < 16" by simp
  from lo show "unat (d AND 15) < 16" by simp
  from hi lo show "16 * unat (drop_bit 4 d) + unat (d AND 15) = unat d" by simp
qed

lemma hex_of_Nil [simp]: "hex_of [] = []"
  by (simp add: hex_of_def)

lemma hex_of_Cons [simp]:
  "hex_of (d # ds) = hex_digits ! unat (drop_bit 4 d) # hex_digits ! unat (d AND 15) # hex_of ds"
  by (simp add: hex_of_def)

lemma length_hex_of [simp]: "length (hex_of ds) = 2 * length ds"
  by (induction ds) auto

lemma unhex_hex_of: "unhex (hex_of ds) = Some (map unat ds)"
proof (induction ds)
  case (Cons d ds)
  then show ?case
    using nibbles(3) [of d] hex_digits_inverse [OF nibbles(1), of d] hex_digits_inverse [OF nibbles(2), of d]
    by simp
qed simp

lemma hex_of_inj: "hex_of ds = hex_of es \<Longrightarrow> ds = es"
proof -
  assume "hex_of ds = hex_of es"
  then have "map unat ds = map unat es" using unhex_hex_of by (metis option.inject)
  moreover have "inj (unat :: 8 word \<Rightarrow> nat)" by (rule injI) (simp only: word_unat_eq_iff)
  ultimately show "ds = es" by (simp only: inj_map_eq_map)
qed

section \<open>Paths\<close>

definition slash :: "string \<Rightarrow> string" where
  "slash p = (if p = '''' \<or> last p = CHR ''/'' then p else p @ ''/'')"

lemma path_join_slash: "path_join p r = slash p @ r"
  by (simp add: path_join_def slash_def)

lemma slash_end: "r \<noteq> '''' \<Longrightarrow> last r \<noteq> CHR ''/'' \<Longrightarrow> slash r = r @ ''/''"
  by (simp add: slash_def)

lemma hex_no_slash: "CHR ''/'' \<notin> set (hex_of ds)"
proof (induction ds)
  case (Cons d ds)
  have "hex_digits ! n \<noteq> CHR ''/''" if "n < 16" for n
  proof -
    have "n \<in> set [0..<16]" using that by simp
    moreover have "\<forall>n \<in> set [0..<16]. hex_digits ! n \<noteq> CHR ''/''" by code_simp
    ultimately show ?thesis by blast
  qed
  with Cons nibbles(1,2) [of d] show ?case by (metis hex_of_Cons set_ConsD)
qed simp

lemma stored_path_eq:
  assumes "length d = 32"
  shows "stored_path sd (hex_of d) ext = slash sd @ take 2 (hex_of d) @ ''/'' @ take 2 (drop 2 (hex_of d)) @ ''/'' @
    take 2 (drop 4 (hex_of d)) @ ''/'' @ take 2 (drop 6 (hex_of d)) @ ''/'' @ take 2 (drop 8 (hex_of d)) @ ''/'' @
    stored_name (hex_of d) ext"
proof -
  let ?p = "\<lambda>n. take 2 (drop n (hex_of d))"
  have some: "?p n \<noteq> []" if "n \<le> 8" for n using assms that by simp
  have last: "last (?p n) \<noteq> CHR ''/''" if "n \<le> 8" for n
    using hex_no_slash [of d] some [OF that] by (metis in_set_dropD in_set_takeD last_in_set)
  have join: "slash (x @ ?p n) = x @ ?p n @ ''/''" if "n \<le> 8" for x n
    using slash_end [of "x @ ?p n"] some [OF that] last [OF that] by (simp only: last_append) simp
  have "fan_out sd (hex_of d) =
      slash (slash (slash (slash (slash sd @ ?p 0) @ ?p 2) @ ?p 4) @ ?p 6) @ ?p 8"
    by (simp add: fan_out_def path_join_slash)
  then have "stored_path sd (hex_of d) ext =
      slash (slash (slash (slash (slash (slash sd @ ?p 0) @ ?p 2) @ ?p 4) @ ?p 6) @ ?p 8) @ stored_name (hex_of d) ext"
    by (simp only: stored_path_def path_join_slash)
  then show ?thesis by (simp only: join) simp
qed

lemma stored_path_inj:
  assumes len: "length d = 32" "length e = 32"
    and eq: "stored_path sd (hex_of d) ext = stored_path sd (hex_of e) ext'"
  shows "d = e \<and> ext = ext'"
proof -
  have name: "stored_name (hex_of d) ext = stored_name (hex_of e) ext'"
    using eq unfolding stored_path_eq [OF len(1)] stored_path_eq [OF len(2)] by (simp add: len)
  have "take 64 (stored_name (hex_of d) ext) = hex_of d" "take 64 (stored_name (hex_of e) ext') = hex_of e"
    by (simp_all add: stored_name_def len)
  with name have "hex_of d = hex_of e" by metis
  with name show ?thesis using hex_of_inj by (auto simp: stored_name_def split: if_splits)
qed

section \<open>Properties\<close>

text \<open>C37: names are content addresses. The 64 hexadecimal characters under which a digest is stored read
  back to exactly its bytes (so the database's \<open>UNHEX\<close> yields the digest), and two files of the store
  have the same path only if they have the same digest and the same extension.\<close>

theorem content_address:
  assumes "length d = 32" and "length e = 32"
  shows "length (hex_of d) = 64 \<and> unhex (hex_of d) = Some (map unat d) \<and>
    (stored_path sd (hex_of d) ext = stored_path sd (hex_of e) ext' \<longrightarrow> d = e \<and> ext = ext')"
  using assms stored_path_inj [OF assms] unhex_hex_of [of d] by auto

theorem content_address_witness:
  "unhex (hex_of (replicate 32 171)) = Some (replicate 32 171) \<and>
   stored_path ''s'' (hex_of (replicate 32 171)) ''jpg'' \<noteq> stored_path ''s'' (hex_of (replicate 32 17)) ''jpg''"
proof -
  have "replicate 32 (171 :: 8 word) \<noteq> replicate 32 17" by (simp add: replicate_eq_replicate)
  with content_address [of "replicate 32 171" "replicate 32 17" "''s''" "''jpg''" "''jpg''"] show ?thesis by auto
qed

text \<open>Every file of the store has the digest its name says.\<close>

definition addressed :: "host \<Rightarrow> string \<Rightarrow> fsys \<Rightarrow> bool" where
  "addressed h sd fs \<longleftrightarrow> (\<forall>d ext content. length d = 32 \<longrightarrow>
     fs (stored_path sd (hex_of d) ext) = Some content \<longrightarrow> sha256 h content = d)"

lemma sha256_file_hex_Some:
  "io_sound h \<Longrightarrow> sha256_file_hex h fs path = Some hex \<longleftrightarrow>
     (\<exists>content. fs path = Some content \<and> evp_ok h \<and> length (sha256 h content) = 32 \<and> hex = hex_of (sha256 h content))"
  by (auto simp: sha256_file_hex_def readable_def io_sound_def read_loop_all Let_def split: option.split)

lemma copied_file:
  assumes addr: "addressed h sd fs" and src: "fs path = Some content" and len: "length (sha256 h content) = 32"
    and io: "io_sound h"
    and copy: "copy_file h path (stored_path sd (hex_of (sha256 h content)) ext) fs = (ok, fs')"
  shows "addressed h sd fs' \<and> (\<forall>p. fs p \<noteq> None \<longrightarrow> fs' p = fs p) \<and>
    (ok \<longrightarrow> (\<exists>c. fs' (stored_path sd (hex_of (sha256 h content)) ext) = Some c \<and> sha256 h c = sha256 h content))"
proof -
  let ?dest = "stored_path sd (hex_of (sha256 h content)) ext"
  show ?thesis
  proof (cases "fs ?dest = None \<and> copying h ?dest = Copied")
    case True
    with copy src have fs': "fs' = fs(?dest \<mapsto> content)" by (auto simp: copy_file_def)
    have "sha256 h c = d" if "length d = 32" "(fs(?dest \<mapsto> content)) (stored_path sd (hex_of d) x) = Some c" for d x c
    proof (cases "stored_path sd (hex_of d) x = ?dest")
      case True
      with stored_path_inj [OF that(1) len True] that(2) show ?thesis by simp
    next
      case False
      with that addr show ?thesis by (auto simp: addressed_def)
    qed
    then have "addressed h sd (fs(?dest \<mapsto> content))" unfolding addressed_def by blast
    with True fs' show ?thesis by auto
  next
    case False
    with copy src io have fs': "fs' = fs" and ok: "ok \<longrightarrow> fs ?dest \<noteq> None"
      by (auto simp: copy_file_def io_sound_def split: copying.splits if_splits)
    have "sha256 h c = sha256 h content" if "fs ?dest = Some c" for c
      using addr len that by (auto simp: addressed_def)
    with fs' ok addr show ?thesis by auto
  qed
qed

text \<open>Whatever fails, an existing file is never changed.\<close>

lemma copy_file_keeps: "copy_file h path dest fs = (ok, fs') \<Longrightarrow> fs \<subseteq>\<^sub>m fs'"
  by (auto simp: copy_file_def map_le_def split: option.splits copying.splits if_splits)

lemma storeDownloadedFile_keeps:
  "storeDownloadedFile h sd path tid sz ty orig fs sv s = (r, fs', t) \<Longrightarrow> fs \<subseteq>\<^sub>m fs'"
  by (auto simp: storeDownloadedFile_def Let_def dest: copy_file_keeps
      split: option.splits if_splits prod.splits sum.splits bool.splits)

lemma stored_addressed:
  assumes run: "storeDownloadedFile h sd path tid sz ty orig fs sv s = (r, fs', t)"
    and addr: "addressed h sd fs" and "db_ok (weight sv) (view s) (autos s)" and io: "io_sound h"
  shows "addressed h sd fs' \<and> (\<forall>p. fs p \<noteq> None \<longrightarrow> fs' p = fs p) \<and>
    (\<forall>i. r = Inr (Some i) \<longrightarrow> (\<exists>content c. fs path = Some content \<and>
       fs' (stored_path sd (hex_of (sha256 h content)) (file_extension path)) = Some c \<and>
       sha256 h c = sha256 h content \<and>
       (\<exists>n nm. file_store (disk t) (map unat (sha256 h content)) = Some (IntV i, n, nm))))"
proof (cases "sha256_file_hex h fs path")
  case None
  with run have "r = Inr None" "fs' = fs" by (simp_all add: storeDownloadedFile_def)
  with addr show ?thesis by simp
next
  case (Some hex)
  then obtain content where src: "fs path = Some content" and len: "length (sha256 h content) = 32"
    and hex: "hex = hex_of (sha256 h content)" by (auto simp: sha256_file_hex_Some [OF io])
  let ?ext = "file_extension path"
  let ?dest = "stored_path sd hex ?ext"
  let ?f = "downloaded_file hex ?ext tid sz ty orig"
  show ?thesis
  proof (cases "mkdir_ok h (fan_out sd hex) \<and> fst (copy_file h path ?dest fs)")
    case False
    obtain ok fs2 where copy: "copy_file h path ?dest fs = (ok, fs2)" by (cases "copy_file h path ?dest fs")
    note kept = copied_file [OF addr src len io copy [unfolded hex]]
    from False copy run Some have "r = Inr None" and "fs' = fs \<or> fs' = fs2"
      by (auto simp: storeDownloadedFile_def Let_def split: option.splits if_splits)
    with kept addr show ?thesis by auto
  next
    case True
    then obtain fs2 where copy: "copy_file h path ?dest fs = (True, fs2)"
      by (cases "copy_file h path ?dest fs") auto
    note kept = copied_file [OF addr src len io copy [unfolded hex]]
    obtain x u where up: "upsertFile ?f sv s = (x, u)" by (cases "upsertFile ?f sv s")
    with run Some True copy have res: "fs' = fs2" "t = u" "r = (case x of Inl e \<Rightarrow> Inl e | Inr i \<Rightarrow> Inr (Some i))"
      by (auto simp: storeDownloadedFile_def Let_def split: sum.splits)
    have "\<exists>n nm. file_store (disk t) (map unat (sha256 h content)) = Some (IntV i, n, nm)" if "r = Inr (Some i)" for i
    proof -
      from that res have "x = Inr i" by (auto split: sum.splits)
      moreover have "unhex (f_sha256_hex ?f) = Some (map unat (sha256 h content))"
        by (simp add: downloaded_file_def hex unhex_hex_of)
      ultimately show ?thesis using upsertFile_run(2) [of ?f sv s i u] up assms(3) res(2) by auto
    qed
    with kept src hex res(1) show ?thesis by auto
  qed
qed

text \<open>C19: the store is content-addressed and only grows. Whatever fails, \<open>storeDownloadedFile\<close> leaves every
  existing file as it was. On a host where no read and no copy breaks off in the middle of a file, it also
  keeps every stored file under the digest of its content, and when it returns an id, the file it was
  given is in the store under its digest, and the database row of that digest has that id.\<close>

theorem store_content_addressed:
  assumes run: "storeDownloadedFile h sd path tid sz ty orig fs sv s = (r, fs', t)"
    and "db_ok (weight sv) (view s) (autos s)"
  shows "(\<forall>p. fs p \<noteq> None \<longrightarrow> fs' p = fs p) \<and>
    (io_sound h \<and> addressed h sd fs \<longrightarrow> addressed h sd fs' \<and>
      (\<forall>i. r = Inr (Some i) \<longrightarrow> (\<exists>content c. fs path = Some content \<and>
         fs' (stored_path sd (hex_of (sha256 h content)) (file_extension path)) = Some c \<and>
         sha256 h c = sha256 h content \<and>
         (\<exists>n nm. file_store (disk t) (map unat (sha256 h content)) = Some (IntV i, n, nm)))))"
proof
  show "\<forall>p. fs p \<noteq> None \<longrightarrow> fs' p = fs p"
    using storeDownloadedFile_keeps [OF run] unfolding map_le_def by (metis domIff)
qed (use stored_addressed [OF run _ assms(2)] in blast)

section \<open>A stored photo\<close>

definition sample_host :: host where
  "sample_host = \<lparr>sha256 = (\<lambda>_. replicate 32 171), evp_ok = True, read_end = (\<lambda>_. None),
     mkdir_ok = (\<lambda>_. True), copying = (\<lambda>_. Copied)\<rparr>"

definition sample_fs :: fsys where
  "sample_fs = [''tdlib/a.JPG'' \<mapsto> [1, 2, 3]]"

lemma sample_hex_of: "hex_of (replicate n 171) = concat (replicate n ''ab'')"
proof (induction n)
  case (Suc n)
  have "hex_digits ! unat (drop_bit 4 (171 :: 8 word)) = CHR ''a''" "hex_digits ! unat ((171 :: 8 word) AND 15) = CHR ''b''"
    by (simp_all add: hex_digits_def)
  with Suc show ?case by simp
qed simp

lemma sample_extension: "file_extension ''tdlib/a.JPG'' = ''jpg''"
  by code_simp

lemma sample_upsert:
  "fst (upsertFile (downloaded_file (concat (replicate 32 ''ab'')) ''jpg'' ''AgAD'' 3 ''photo'' ''cat'') quiet empty_session) = Inr 1"
  by code_simp

lemma sample_store_run:
  "\<exists>fs' t. storeDownloadedFile sample_host ''store'' ''tdlib/a.JPG'' ''AgAD'' 3 ''photo'' ''cat'' sample_fs quiet empty_session =
     (Inr (Some 1), fs', t)"
proof -
  obtain u where "upsertFile (downloaded_file (concat (replicate 32 ''ab'')) ''jpg'' ''AgAD'' 3 ''photo'' ''cat'')
      quiet empty_session = (Inr 1, u)" using fst_run [OF sample_upsert] by blast
  then show ?thesis
    by (simp add: storeDownloadedFile_def sha256_file_hex_def sample_fs_def sample_host_def read_loop_all readable_def
        sample_hex_of sample_extension copy_file_def Let_def)
qed

theorem store_content_addressed_witness:
  "\<exists>fs' (t :: session) c. addressed sample_host ''store'' fs' \<and> fs' ''tdlib/a.JPG'' = Some [1, 2, 3] \<and>
     fs' (stored_path ''store'' (hex_of (replicate 32 171)) ''jpg'') = Some c \<and>
     (\<exists>n nm. file_store (disk t) (replicate 32 171) = Some (IntV 1, n, nm))"
proof -
  obtain fs' t where run: "storeDownloadedFile sample_host ''store'' ''tdlib/a.JPG'' ''AgAD'' 3 ''photo'' ''cat'' sample_fs
      quiet empty_session = (Inr (Some 1), fs', t)" using sample_store_run by blast
  have "addressed sample_host ''store'' sample_fs"
    unfolding addressed_def
  proof (intro allI impI)
    fix d ext content
    assume "length (d :: bytes) = 32" and some: "sample_fs (stored_path ''store'' (hex_of d) ext) = Some content"
    then have "stored_path ''store'' (hex_of d) ext = ''store/'' @ drop 6 (stored_path ''store'' (hex_of d) ext)"
      by (simp add: stored_path_eq slash_def)
    with some show "sha256 sample_host content = d" by (auto simp: sample_fs_def split: if_splits)
  qed
  moreover have "io_sound sample_host" by (simp add: io_sound_def sample_host_def)
  ultimately have stored: "addressed sample_host ''store'' fs' \<and> (\<forall>p. sample_fs p \<noteq> None \<longrightarrow> fs' p = sample_fs p) \<and>
      (\<exists>c. fs' (stored_path ''store'' (hex_of (replicate 32 171)) ''jpg'') = Some c) \<and>
      (\<exists>n nm. file_store (disk t) (replicate 32 171) = Some (IntV 1, n, nm))"
    using store_content_addressed [OF run db_ok_empty] by (auto simp: sample_extension sample_host_def)
  from stored have "\<forall>p. sample_fs p \<noteq> None \<longrightarrow> fs' p = sample_fs p" by blast
  then have "fs' ''tdlib/a.JPG'' = Some [1, 2, 3]" by (simp add: sample_fs_def)
  with stored show ?thesis by (intro exI [of _ fs'] exI [of _ t]) auto
qed

section \<open>A copy that breaks off\<close>

text \<open>C36: a copy that breaks off in the middle poisons the address. The part that was written stays at the
  destination, \<open>storeDownloadedFile\<close> reports no id; but the next time the same content arrives,
  \<open>skip_existing\<close> takes the remainder for the stored file: an id is returned, while the file of the
  store still holds only the first \<open>n\<close> bytes.\<close>

theorem cut_short_copy_accepted:
  assumes "fs path = Some content" and hex: "sha256_file_hex h fs path = Some hex"
    and dest: "dest = stored_path sd hex (file_extension path)" and "fs dest = None"
    and "mkdir_ok h (fan_out sd hex)" and "copying h dest = Cut_Short n"
    and first: "storeDownloadedFile h sd path tid sz ty orig fs sv s = (r, fs1, s1)"
    and again: "storeDownloadedFile (h\<lparr>copying := \<lambda>_. Copied\<rparr>) sd path tid sz ty orig fs1 sv s1 = (r', fs2, s2)"
  shows "r = Inr None \<and> s1 = s \<and> fs2 dest = Some (take n content) \<and>
    (\<forall>i. r' = Inr (Some i) \<longleftrightarrow>
       fst (upsertFile (downloaded_file hex (file_extension path) tid sz ty orig) sv s) = Inr i)"
proof -
  from assms have one: "r = Inr None" "s1 = s" and fs1: "fs1 = fs(dest \<mapsto> take n content)"
    by (simp_all add: storeDownloadedFile_def copy_file_def Let_def)
  have "path \<noteq> dest" using assms(1,4) by auto
  with fs1 assms(1) have "fs1 path = Some content" by simp
  moreover have "readable (h\<lparr>copying := \<lambda>_. Copied\<rparr>) path content = readable h path content"
    by (simp add: readable_def)
  ultimately have "sha256_file_hex (h\<lparr>copying := \<lambda>_. Copied\<rparr>) fs1 path = Some hex"
    using assms(1) by (simp add: sha256_file_hex_def hex [symmetric])
  with again dest assms(5) fs1 \<open>path \<noteq> dest\<close> assms(1) one show ?thesis
    by (auto simp: storeDownloadedFile_def copy_file_def Let_def split: prod.splits sum.splits)
qed

definition full_disk :: host where
  "full_disk = sample_host\<lparr>copying := \<lambda>_. Cut_Short 1\<rparr>"


lemma sample_hash: "sha256_file_hex full_disk sample_fs ''tdlib/a.JPG'' = Some (hex_of (replicate 32 171))"
  by (simp add: sha256_file_hex_def sample_fs_def full_disk_def sample_host_def readable_def read_loop_all Let_def)

lemma sample_src: "sample_fs ''tdlib/a.JPG'' = Some [1, 2, 3]"
  by (simp add: sample_fs_def)

lemma sample_absent: "sample_fs (stored_path ''store'' (hex_of (replicate 32 171)) ''jpg'') = None"
proof -
  have "hd (stored_path ''store'' (hex_of d) ''jpg'') = CHR ''s''" if "length d = 32" for d
    unfolding stored_path_eq [OF that] by (simp add: slash_def)
  moreover have "hd ''tdlib/a.JPG'' \<noteq> CHR ''s''" by simp
  moreover have "length (replicate 32 (171 :: 8 word)) = 32" by simp
  ultimately have "stored_path ''store'' (hex_of (replicate 32 171)) ''jpg'' \<noteq> ''tdlib/a.JPG''" by metis
  then show ?thesis unfolding sample_fs_def by (simp only: fun_upd_apply if_False)
qed

theorem cut_short_copy_accepted_witness:
  "\<exists>fs1 fs2 (t :: session).
     storeDownloadedFile full_disk ''store'' ''tdlib/a.JPG'' ''AgAD'' 3 ''photo'' ''cat'' sample_fs quiet empty_session =
       (Inr None, fs1, empty_session) \<and>
     storeDownloadedFile sample_host ''store'' ''tdlib/a.JPG'' ''AgAD'' 3 ''photo'' ''cat'' fs1 quiet empty_session =
       (Inr (Some 1), fs2, t) \<and>
     fs2 (stored_path ''store'' (hex_of (replicate 32 171)) ''jpg'') = Some [1]"
proof -
  let ?run = "\<lambda>h fs. storeDownloadedFile h ''store'' ''tdlib/a.JPG'' ''AgAD'' 3 ''photo'' ''cat'' fs quiet"
  obtain r fs1 s1 where first: "?run full_disk sample_fs empty_session = (r, fs1, s1)"
    by (cases "?run full_disk sample_fs empty_session")
  obtain r' fs2 s2 where again: "?run (full_disk\<lparr>copying := \<lambda>_. Copied\<rparr>) fs1 s1 = (r', fs2, s2)"
    by (cases "?run (full_disk\<lparr>copying := \<lambda>_. Copied\<rparr>) fs1 s1")
  have host: "full_disk\<lparr>copying := \<lambda>_. Copied\<rparr> = sample_host" by (simp add: full_disk_def sample_host_def)
  have "r = Inr None \<and> s1 = empty_session \<and>
      fs2 (stored_path ''store'' (hex_of (replicate 32 171)) ''jpg'') = Some (take 1 [1, 2, 3]) \<and>
      (\<forall>i. r' = Inr (Some i) \<longleftrightarrow> fst (upsertFile (downloaded_file (hex_of (replicate 32 171)) (file_extension ''tdlib/a.JPG'')
        ''AgAD'' 3 ''photo'' ''cat'') quiet empty_session) = Inr i)"
    by (rule cut_short_copy_accepted [OF _ sample_hash _ _ _ _ first again])
      (simp_all add: sample_absent sample_src sample_extension full_disk_def sample_host_def)
  with first again sample_upsert show ?thesis
    unfolding host by (auto simp: sample_extension sample_hex_of)
qed

end
