(* ===== verification/Td_Mapping.thy ===== *)
theory Td_Mapping
  imports Db_Users Db_Groups Db_Admins Db_Messages "HOL-Library.Word"
begin

text \<open>
  src/tgloggerd/TDLib.cpp, the free functions: the TDLib objects the client reads (only the fields
  it uses; a pointer that may be null is an option, a TDLib union the datatype of the cases the
  code tells apart) and their translation into the models. An output parameter is a result, and
  a \<open>false\<close> or null return is \<open>None\<close>.
\<close>

section \<open>TDLib objects\<close>

record td_usernames =
  un_active :: "string list"
  un_disabled :: "string list"
  un_collectible :: "string list"

datatype td_user_type = Td_Regular | Td_Deleted | Td_Bot | Td_Unknown

datatype td_emoji_type = Emoji_Custom int | Emoji_Gift

record td_local =
  lf_path :: string
  lf_completed :: bool

record td_file =
  tf_id :: int
  tf_size :: int
  tf_local :: "td_local option"
  tf_remote :: "string option"

record td_user =
  tu_id :: int
  tu_first_name :: string
  tu_last_name :: string
  tu_phone_number :: string
  tu_accent_color_id :: int
  tu_background_custom_emoji_id :: int
  tu_profile_accent_color_id :: int
  tu_profile_background_custom_emoji_id :: int
  tu_is_premium :: bool
  tu_is_support :: bool
  tu_restricts_new_chats :: bool
  tu_paid_message_star_count :: int
  tu_is_contact :: bool
  tu_is_mutual_contact :: bool
  tu_is_close_friend :: bool
  tu_have_access :: bool
  tu_language_code :: string
  tu_verification :: "(bool \<times> bool \<times> bool) option"
  tu_restriction :: "(string \<times> bool) option"
  tu_emoji_status :: "(td_emoji_type option \<times> int) option"
  tu_usernames :: "td_usernames option"
  tu_type :: "td_user_type option"
  tu_photo_big :: "td_file option"

record td_full_info =
  tfi_bio :: "string option"
  tfi_birthdate :: "(int \<times> int \<times> int) option"
  tfi_personal_chat_id :: int

datatype td_sender = Sender_User int | Sender_Chat int

record td_rights =
  r_manage_chat :: bool
  r_change_info :: bool
  r_post_messages :: bool
  r_edit_messages :: bool
  r_delete_messages :: bool
  r_invite_users :: bool
  r_restrict_members :: bool
  r_pin_messages :: bool
  r_manage_topics :: bool
  r_promote_members :: bool
  r_manage_video_chats :: bool
  r_post_stories :: bool
  r_edit_stories :: bool
  r_delete_stories :: bool
  r_manage_direct_messages :: bool
  r_manage_tags :: bool
  r_anonymous :: bool

datatype td_member_status =
    Member_Creator bool
  | Member_Administrator "td_rights option"
  | Member_Other   \<comment> \<open>restricted, member, left or banned\<close>

record td_member =
  cm_member :: "td_sender option"
  cm_tag :: string
  cm_inviter_user_id :: int
  cm_joined_chat_date :: int
  cm_status :: "td_member_status option"

record td_photo_size =
  ps_width :: "32 word"
  ps_height :: "32 word"
  ps_photo :: "td_file option"

text \<open>
  A message's content. Of the media objects only the file name, where the code reads it, and the
  file remain.
\<close>

datatype td_content =
    Content_Text "string option"
  | Content_Photo "td_photo_size option list option"
  | Content_Video "(string \<times> td_file option) option"
  | Content_Document "(string \<times> td_file option) option"
  | Content_Audio "(string \<times> td_file option) option"
  | Content_Voice "td_file option option"
  | Content_Sticker "td_file option option"
  | Content_Animation "(string \<times> td_file option) option"
  | Content_Other

datatype td_origin =
    Origin_User int
  | Origin_HiddenUser string
  | Origin_Chat int string
  | Origin_Channel int int string

datatype td_reply = Reply_Message int int | Reply_Story

record td_message =
  tm_id :: int
  tm_chat_id :: int
  tm_sender :: "td_sender option"
  tm_is_outgoing :: bool
  tm_is_channel_post :: bool
  tm_date :: int
  tm_edit_date :: int
  tm_author_signature :: string
  tm_content :: "td_content option"
  tm_forward :: "(int \<times> td_origin option) option"
  tm_reply_to :: "td_reply option"

section \<open>Users\<close>

fun map_user_type :: "td_user_type option \<Rightarrow> UserType" where
  "map_user_type (Some Td_Regular) = Ut_Regular"
| "map_user_type (Some Td_Deleted) = Ut_Deleted"
| "map_user_type (Some Td_Bot) = Ut_Bot"
| "map_user_type _ = Ut_Unknown"

text \<open>\<open>emoji_status_\<close>: both columns are set for a custom emoji, none otherwise.\<close>

fun emoji_columns :: "(td_emoji_type option \<times> int) option \<Rightarrow> int option \<times> int option" where
  "emoji_columns (Some (Some (Emoji_Custom i), expires)) = (Some i, Some expires)"
| "emoji_columns _ = (None, None)"

definition map_user :: "td_user \<Rightarrow> User" where
  "map_user u =
     (let (verified, scam, fake) = (case tu_verification u of Some v \<Rightarrow> v | None \<Rightarrow> (False, False, False));
          (reason, sensitive) = (case tu_restriction u of Some r \<Rightarrow> r | None \<Rightarrow> ('''', False));
          (active, disabled, collectible) =
            (case tu_usernames u of Some n \<Rightarrow> (un_active n, un_disabled n, un_collectible n)
             | None \<Rightarrow> ([], [], []))
      in \<lparr>u_id = tu_id u, u_first_name = tu_first_name u, u_last_name = tu_last_name u,
          u_phone_number = tu_phone_number u, u_type = map_user_type (tu_type u),
          u_profile_photo_file_id = None, u_accent_color_id = tu_accent_color_id u,
          u_background_custom_emoji_id = tu_background_custom_emoji_id u,
          u_profile_accent_color_id = tu_profile_accent_color_id u,
          u_profile_background_custom_emoji_id = tu_profile_background_custom_emoji_id u,
          u_emoji_status_custom_emoji_id = fst (emoji_columns (tu_emoji_status u)),
          u_emoji_status_expiration_date = snd (emoji_columns (tu_emoji_status u)),
          u_is_verified = verified, u_is_scam = scam, u_is_fake = fake,
          u_is_premium = tu_is_premium u, u_is_support = tu_is_support u,
          u_restriction_reason = reason, u_has_sensitive_content = sensitive,
          u_restricts_new_chats = tu_restricts_new_chats u,
          u_paid_message_star_count = tu_paid_message_star_count u,
          u_is_contact = tu_is_contact u, u_is_mutual_contact = tu_is_mutual_contact u,
          u_is_close_friend = tu_is_close_friend u, u_have_access = tu_have_access u,
          u_language_code = tu_language_code u,
          u_active_usernames = active, u_disabled_usernames = disabled,
          u_collectible_usernames = collectible\<rparr>)"

definition map_user_full_info :: "td_full_info \<Rightarrow> int \<Rightarrow> UserFullInfo" where
  "map_user_full_info fi uid =
     \<lparr>fi_user_id = uid, fi_bio = (case tfi_bio fi of Some t \<Rightarrow> t | None \<Rightarrow> ''''),
      fi_birthday_day = map_option fst (tfi_birthdate fi),
      fi_birthday_month = map_option (fst \<circ> snd) (tfi_birthdate fi),
      fi_birthday_year =
        (case tfi_birthdate fi of
           Some (d, m, y) \<Rightarrow> if y \<noteq> 0 then Some y else None
         | None \<Rightarrow> None),
      fi_personal_chat_id = tfi_personal_chat_id fi\<rparr>"

section \<open>Administrators\<close>

text \<open>A fresh \<open>GroupAdmin\<close> with the fields \<open>map_admin\<close> sets before it looks at the status.\<close>

definition admin_of :: "int \<Rightarrow> td_member \<Rightarrow> GroupAdmin" where
  "admin_of uid m =
     \<lparr>a_user_id = uid, a_is_owner = False, a_custom_title = cm_tag m,
      a_inviter_user_id = cm_inviter_user_id m, a_joined_date = cm_joined_chat_date m,
      can_manage_chat = False, can_change_info = False, can_post_messages = False,
      can_edit_messages = False, can_delete_messages = False, can_invite_users = False,
      can_restrict_members = False, can_pin_messages = False, can_manage_topics = False,
      can_promote_members = False, can_manage_video_chats = False, can_post_stories = False,
      can_edit_stories = False, can_delete_stories = False, can_manage_direct_messages = False,
      can_manage_tags = False, is_anonymous = False\<rparr>"

definition all_rights :: "GroupAdmin \<Rightarrow> GroupAdmin" where
  "all_rights a = a\<lparr>
     can_manage_chat := True, can_change_info := True, can_post_messages := True,
     can_edit_messages := True, can_delete_messages := True, can_invite_users := True,
     can_restrict_members := True, can_pin_messages := True, can_manage_topics := True,
     can_promote_members := True, can_manage_video_chats := True, can_post_stories := True,
     can_edit_stories := True, can_delete_stories := True, can_manage_direct_messages := True,
     can_manage_tags := True\<rparr>"

definition copy_rights :: "td_rights \<Rightarrow> GroupAdmin \<Rightarrow> GroupAdmin" where
  "copy_rights r a = a\<lparr>
     can_manage_chat := r_manage_chat r, can_change_info := r_change_info r,
     can_post_messages := r_post_messages r, can_edit_messages := r_edit_messages r,
     can_delete_messages := r_delete_messages r, can_invite_users := r_invite_users r,
     can_restrict_members := r_restrict_members r, can_pin_messages := r_pin_messages r,
     can_manage_topics := r_manage_topics r, can_promote_members := r_promote_members r,
     can_manage_video_chats := r_manage_video_chats r, can_post_stories := r_post_stories r,
     can_edit_stories := r_edit_stories r, can_delete_stories := r_delete_stories r,
     can_manage_direct_messages := r_manage_direct_messages r,
     can_manage_tags := r_manage_tags r, is_anonymous := r_anonymous r\<rparr>"

definition map_admin :: "td_member \<Rightarrow> GroupAdmin option" where
  "map_admin m =
     (case cm_member m of
        Some (Sender_User uid) \<Rightarrow>
          (case cm_status m of
             Some (Member_Creator anonymous) \<Rightarrow>
               Some ((all_rights (admin_of uid m))\<lparr>a_is_owner := True, is_anonymous := anonymous\<rparr>)
           | Some (Member_Administrator (Some r)) \<Rightarrow> Some (copy_rights r (admin_of uid m))
           | Some (Member_Administrator None) \<Rightarrow> Some (admin_of uid m)
           | Some Member_Other \<Rightarrow> None
           | None \<Rightarrow> None)
      | _ \<Rightarrow> None)"

section \<open>Messages\<close>

definition is_private_chat :: "int \<Rightarrow> bool" where
  "is_private_chat chat_id \<longleftrightarrow> 0 < chat_id"

definition extract_message_content :: "td_message \<Rightarrow> MessageContent" where
  "extract_message_content m =
     (let c = \<lambda>t. \<lparr>content_type = t, content_text = None, content_file_id = None\<rparr> in
      case tm_content m of
        None \<Rightarrow> c Ct_Unknown
      | Some (Content_Text t) \<Rightarrow> (c Ct_Text)\<lparr>content_text := t\<rparr>
      | Some (Content_Photo _) \<Rightarrow> c Ct_Photo
      | Some (Content_Video _) \<Rightarrow> c Ct_Video
      | Some (Content_Document _) \<Rightarrow> c Ct_Document
      | Some (Content_Audio _) \<Rightarrow> c Ct_Audio
      | Some (Content_Voice _) \<Rightarrow> c Ct_Voice
      | Some (Content_Sticker _) \<Rightarrow> c Ct_Sticker
      | Some (Content_Animation _) \<Rightarrow> c Ct_Animation
      | Some Content_Other \<Rightarrow> c Ct_Unknown)"

definition nonempty :: "string \<Rightarrow> string option" where
  "nonempty s = (if s = [] then None else Some s)"

definition extract_forward_info :: "td_message \<Rightarrow> ForwardInfo option" where
  "extract_forward_info m =
     (case tm_forward m of
        None \<Rightarrow> None
      | Some (date, origin) \<Rightarrow>
          (let fi = \<lparr>origin_type = Fo_User, origin_sender_user_id = None, origin_sender_name = None,
                     origin_chat_id = None, origin_message_id = None, origin_date = date\<rparr> in
           Some (case origin of
              None \<Rightarrow> fi
            | Some (Origin_User u) \<Rightarrow> fi\<lparr>origin_type := Fo_User, origin_sender_user_id := Some u\<rparr>
            | Some (Origin_HiddenUser n) \<Rightarrow> fi\<lparr>origin_type := Fo_HiddenUser, origin_sender_name := Some n\<rparr>
            | Some (Origin_Chat c sig) \<Rightarrow>
                fi\<lparr>origin_type := Fo_Chat, origin_chat_id := Some c, origin_sender_name := nonempty sig\<rparr>
            | Some (Origin_Channel c i sig) \<Rightarrow>
                fi\<lparr>origin_type := Fo_Channel, origin_chat_id := Some c, origin_message_id := Some i,
                   origin_sender_name := nonempty sig\<rparr>)))"

text \<open>\<open>(int64_t)width * height\<close>, and the loop that keeps the first largest size.\<close>

definition pixels :: "td_photo_size \<Rightarrow> 64 word" where
  "pixels z = scast (ps_width z) * scast (ps_height z)"

fun largest_size :: "td_photo_size option list \<Rightarrow> 64 word \<Rightarrow> td_file option \<Rightarrow> td_file option" where
  "largest_size [] best_px best = best"
| "largest_size (None # zs) best_px best = largest_size zs best_px best"
| "largest_size (Some z # zs) best_px best =
     (if ps_photo z = None then largest_size zs best_px best
      else if best_px <s pixels z then largest_size zs (pixels z) (ps_photo z)
      else largest_size zs best_px best)"

text \<open>The file of a content, with its category and its original name.\<close>

definition message_content_file :: "td_content \<Rightarrow> (td_file \<times> string \<times> string) option" where
  "message_content_file content =
     (let named = \<lambda>category m. (case m of
            Some (name, Some f) \<Rightarrow> Some (f, category, name) | _ \<Rightarrow> None);
          unnamed = \<lambda>category m. (case m of
            Some (Some f) \<Rightarrow> Some (f, category, '''') | _ \<Rightarrow> None) in
      case content of
        Content_Photo None \<Rightarrow> None
      | Content_Photo (Some sizes) \<Rightarrow>
          map_option (\<lambda>f. (f, ''photo'', '''')) (largest_size sizes (- 1) None)
      | Content_Video m \<Rightarrow> named ''video'' m
      | Content_Document m \<Rightarrow> named ''document'' m
      | Content_Audio m \<Rightarrow> named ''audio'' m
      | Content_Voice m \<Rightarrow> unnamed ''voice'' m
      | Content_Sticker m \<Rightarrow> unnamed ''sticker'' m
      | Content_Animation m \<Rightarrow> named ''animation'' m
      | _ \<Rightarrow> None)"

definition reply_target :: "td_message \<Rightarrow> (int \<times> int) option" where
  "reply_target m =
     (case tm_reply_to m of
        Some (Reply_Message c i) \<Rightarrow>
          if i = 0 then None else Some (if c \<noteq> 0 then c else tm_chat_id m, i)
      | _ \<Rightarrow> None)"

definition build_private_message :: "td_message \<Rightarrow> PrivateMessage" where
  "build_private_message m =
     \<lparr>pm_chat_id = tm_chat_id m, pm_message_id = tm_id m,
      pm_sender_id =
        (if \<not> tm_is_outgoing m
         then (case tm_sender m of Some (Sender_User u) \<Rightarrow> Some u | _ \<Rightarrow> None) else None),
      pm_is_outgoing = tm_is_outgoing m, pm_date = tm_date m, pm_edit_date = tm_edit_date m,
      pm_content = extract_message_content m, pm_is_deleted = False,
      pm_forward_info = extract_forward_info m\<rparr>"

definition build_group_message :: "td_message \<Rightarrow> GroupMessage" where
  "build_group_message m =
     \<lparr>gm_chat_id = tm_chat_id m, gm_message_id = tm_id m,
      gm_sender_user_id = (case tm_sender m of Some (Sender_User u) \<Rightarrow> Some u | _ \<Rightarrow> None),
      gm_sender_chat_id = (case tm_sender m of Some (Sender_Chat c) \<Rightarrow> Some c | _ \<Rightarrow> None),
      gm_is_outgoing = tm_is_outgoing m, gm_is_channel_post = tm_is_channel_post m,
      gm_author_signature = nonempty (tm_author_signature m),
      gm_date = tm_date m, gm_edit_date = tm_edit_date m,
      gm_content = extract_message_content m, gm_is_deleted = False,
      gm_forward_info = extract_forward_info m\<rparr>"

section \<open>The largest photo\<close>

lemma sint_pixels: "sint (pixels z) = sint (ps_width z) * sint (ps_height z)"
proof -
  have up: "sint (scast w :: 64 word) = sint w" for w :: "32 word"
    by (rule sint_up_scast) (simp add: is_up)
  have range: "\<bar>sint w\<bar> \<le> 2 ^ 31" for w :: "32 word"
    using sint_ge [of w] sint_lt [of w] by simp
  have "\<bar>sint (ps_width z) * sint (ps_height z)\<bar> \<le> 2 ^ 31 * 2 ^ 31"
    unfolding abs_mult by (rule mult_mono) (use range in auto)
  then have "signed_take_bit 63 (sint (ps_width z) * sint (ps_height z)) = sint (ps_width z) * sint (ps_height z)"
    by (intro signed_take_bit_int_eq_self) auto
  then show ?thesis by (simp add: pixels_def sint_word_ariths up)
qed

text \<open>The sizes that have a file, with their area as an integer.\<close>

fun usable :: "td_photo_size option list \<Rightarrow> (int \<times> td_file) list" where
  "usable [] = []"
| "usable (None # zs) = usable zs"
| "usable (Some z # zs) =
     (case ps_photo z of None \<Rightarrow> usable zs
      | Some f \<Rightarrow> (sint (ps_width z) * sint (ps_height z), f) # usable zs)"

lemma largest_size_usable:
  "(\<forall>x\<in>set (usable zs). fst x \<le> sint p) \<and> largest_size zs p best = best \<or>
   (\<exists>xs a f ys. usable zs = xs @ (a, f) # ys \<and> largest_size zs p best = Some f \<and> sint p < a \<and>
      (\<forall>x\<in>set xs. fst x < a) \<and> (\<forall>y\<in>set ys. fst y \<le> a))"
proof (induction zs p best rule: largest_size.induct)
  case (3 z zs p best)
  show ?case
  proof (cases "ps_photo z")
    case None
    with 3(1) show ?thesis by simp
  next
    case (Some f)
    let ?a = "sint (pixels z)"
    have u: "usable (Some z # zs) = (?a, f) # usable zs" using Some by (simp add: sint_pixels)
    show ?thesis
    proof (cases "p <s pixels z")
      case True
      with Some have r: "largest_size (Some z # zs) p best = largest_size zs (pixels z) (Some f)" by simp
      from True have gt: "sint p < ?a" by (simp add: word_sless_alt)
      from 3(2) [OF _ True] Some consider
        "\<forall>x\<in>set (usable zs). fst x \<le> ?a" "largest_size zs (pixels z) (Some f) = Some f"
        | xs a g ys where "usable zs = xs @ (a, g) # ys" "largest_size zs (pixels z) (Some f) = Some g"
            "?a < a" "\<forall>x\<in>set xs. fst x < a" "\<forall>y\<in>set ys. fst y \<le> a" by auto
      then show ?thesis
      proof cases
        case 1
        with gt show ?thesis
          unfolding u r by (intro disjI2 exI [of _ "[]"] exI [of _ ?a] exI [of _ f] exI [of _ "usable zs"]) auto
      next
        case (2 xs a g ys)
        then show ?thesis
          unfolding u r using gt
          by (intro disjI2 exI [of _ "(?a, f) # xs"] exI [of _ a] exI [of _ g] exI [of _ ys]) auto
      qed
    next
      case False
      with Some have r: "largest_size (Some z # zs) p best = largest_size zs p best" by simp
      from False have le: "?a \<le> sint p" by (simp add: word_sless_alt)
      from 3(3) [OF _ False] Some consider
        "\<forall>x\<in>set (usable zs). fst x \<le> sint p" "largest_size zs p best = best"
        | xs a g ys where "usable zs = xs @ (a, g) # ys" "largest_size zs p best = Some g" "sint p < a"
            "\<forall>x\<in>set xs. fst x < a" "\<forall>y\<in>set ys. fst y \<le> a" by auto
      then show ?thesis
      proof cases
        case 1
        with le show ?thesis unfolding u r by simp
      next
        case (2 xs a g ys)
        then show ?thesis
          unfolding u r using le
          by (intro disjI2 exI [of _ "(?a, f) # xs"] exI [of _ a] exI [of _ g] exI [of _ ys]) auto
      qed
    qed
  qed
qed auto
text \<open>C35: the largest photo is chosen. When Telegram's dimensions are not negative, the 64-bit product
  never overflows and the file of a photo is that of the first size, among those that have
  a file, whose area is not exceeded by any other; there is none only when no size has a file.\<close>

theorem largest_photo_chosen:
  assumes "\<forall>z. Some z \<in> set sizes \<longrightarrow> 0 \<le> sint (ps_width z) \<and> 0 \<le> sint (ps_height z)"
  shows "sint (pixels z) = sint (ps_width z) * sint (ps_height z) \<and>
    (case message_content_file (Content_Photo (Some sizes)) of
       None \<Rightarrow> usable sizes = []
     | Some (f, category, name) \<Rightarrow> category = ''photo'' \<and> name = '''' \<and>
         (\<exists>xs a ys. usable sizes = xs @ (a, f) # ys \<and> (\<forall>x\<in>set xs. fst x < a) \<and> (\<forall>y\<in>set ys. fst y \<le> a)))"
proof -
  from assms have nonneg: "\<forall>x\<in>set (usable sizes). 0 \<le> fst x"
    by (induction sizes rule: usable.induct) (auto split: option.splits)
  from largest_size_usable [of sizes "- 1" None] consider
    "\<forall>x\<in>set (usable sizes). fst x \<le> - 1" "largest_size sizes (- 1) None = None"
    | xs a f ys where "usable sizes = xs @ (a, f) # ys" "largest_size sizes (- 1) None = Some f"
        "\<forall>x\<in>set xs. fst x < a" "\<forall>y\<in>set ys. fst y \<le> a" by auto
  then show ?thesis
  proof cases
    case 1
    with nonneg have "usable sizes = []" by (cases "usable sizes") force+
    with 1 show ?thesis by (simp add: message_content_file_def sint_pixels)
  next
    case (2 xs a f ys)
    then show ?thesis by (auto simp: message_content_file_def sint_pixels)
  qed
qed

definition sample_sizes :: "td_photo_size option list" where
  "sample_sizes =
     [Some \<lparr>ps_width = 90, ps_height = 60, ps_photo = Some \<lparr>tf_id = 1, tf_size = 9, tf_local = None, tf_remote = None\<rparr>\<rparr>,
      None,
      Some \<lparr>ps_width = 1280, ps_height = 720, ps_photo = Some \<lparr>tf_id = 2, tf_size = 99, tf_local = None, tf_remote = None\<rparr>\<rparr>,
      Some \<lparr>ps_width = 320, ps_height = 240, ps_photo = Some \<lparr>tf_id = 3, tf_size = 50, tf_local = None, tf_remote = None\<rparr>\<rparr>]"

theorem largest_photo_chosen_witness:
  "map_option (tf_id \<circ> fst) (message_content_file (Content_Photo (Some sample_sizes))) = Some 2"
proof -
  have "\<forall>z. Some z \<in> set sample_sizes \<longrightarrow> 0 \<le> sint (ps_width z) \<and> 0 \<le> sint (ps_height z)"
    by (auto simp: sample_sizes_def)
  from largest_photo_chosen [OF this, of undefined] show ?thesis
    by (auto simp: sample_sizes_def split: option.splits prod.splits
        simp: Cons_eq_append_conv)
qed
section \<open>Content types and file types\<close>

text \<open>The two translations of a content agree. Whenever a message carries a file, the type under
  which the file is stored spells the content type of the message row, reading it back gives that
  type, and the message has no text of its own; a text message carries no file.\<close>

theorem media_kind_agrees:
  assumes "tm_content m = Some c" and "message_content_file c = Some (f, category, name)"
  shows "category = content_type_to_string (content_type (extract_message_content m)) \<and>
    message_content_type_from_string category = content_type (extract_message_content m) \<and>
    content_type (extract_message_content m) \<notin> {Ct_Text, Ct_Unknown} \<and>
    content_text (extract_message_content m) = None"
  using assms
  by (cases c) (auto simp: message_content_file_def extract_message_content_def
      message_content_type_from_string_def split: option.splits)
definition sample_file :: td_file where
  "sample_file = \<lparr>tf_id = 5, tf_size = 10, tf_local = None, tf_remote = None\<rparr>"

definition sample_message :: "int \<Rightarrow> int \<Rightarrow> td_content option \<Rightarrow> td_reply option \<Rightarrow> td_message" where
  "sample_message c i content reply =
     \<lparr>tm_id = i, tm_chat_id = c, tm_sender = Some (Sender_User 7), tm_is_outgoing = False,
      tm_is_channel_post = False, tm_date = 100, tm_edit_date = 0, tm_author_signature = '''',
      tm_content = content, tm_forward = None, tm_reply_to = reply\<rparr>"

theorem media_kind_agrees_witness:
  "message_content_type_from_string ''video'' =
     content_type (extract_message_content
       (sample_message 7 1 (Some (Content_Video (Some (''a.mp4'', Some sample_file)))) None))"
proof -
  let ?c = "Content_Video (Some (''a.mp4'', Some sample_file))"
  have "tm_content (sample_message 7 1 (Some ?c) None) = Some ?c" by (simp add: sample_message_def)
  moreover have "message_content_file ?c = Some (sample_file, ''video'', ''a.mp4'')"
    by (simp add: message_content_file_def)
  ultimately show ?thesis using media_kind_agrees by blast
qed
end
