(* ===== verification/Td_Client.thy ===== *)
theory Td_Client
  imports Td_Mapping Complex_Main
begin

text \<open>
  src/tgloggerd/TDLib.{hpp,cpp}, the class: the state of \<open>TDLib::Impl\<close> and every function that
  reads or changes it. TDLib itself is outside: the queries sent to it are recorded with their
  ids, and what it answers is the input of \<open>process_response\<close>. A lambda passed to \<open>send_query\<close>
  is a constructor holding what it captures; calls of the application's handlers are recorded in
  order. The state is passed explicitly, an \<open>unordered_map\<close> is a partial function.
\<close>

section \<open>What is sent, captured and emitted\<close>

datatype td_query =
    Q_GetOption string
  | Q_SetTdlibParameters string "32 word" string
  | Q_SetAuthenticationPhoneNumber string
  | Q_CheckAuthenticationCode string
  | Q_RegisterUser string string
  | Q_CheckAuthenticationPassword string
  | Q_GetMe
  | Q_GetMessage int int
  | Q_GetUser int
  | Q_GetChat int
  | Q_GetUserFullInfo int
  | Q_GetBasicGroupFullInfo int
  | Q_GetSupergroupFullInfo int
  | Q_GetSupergroupMembers int
  | Q_DownloadFile int
  | Q_SetAlarm real
  | Q_Close

text \<open>The link of a reply, as the closure \<open>emit\<close> of \<open>resolve_reply_message\<close> captures it.\<close>

record MessageReply =
  mr_chat_id :: int
  mr_message_id :: int
  mr_reply_to_chat_id :: int
  mr_reply_to_msg_id :: int
  mr_is_group :: bool

datatype continuation =
    K_Edited
  | K_Auth
  | K_Me
  | K_Reply MessageReply nat   \<comment> \<open>the captured link and depth\<close>
  | K_User
  | K_Chat
  | K_FullInfo int
  | K_Admins int
  | K_Alarm

record TextMessage =
  xm_sender_id :: int
  xm_message_id :: int
  xm_sender_name :: string
  xm_sender_username :: string
  xm_text :: string

record ProfilePhoto =
  pp_user_id :: int
  pp_local_path :: string
  pp_tg_file_id :: string
  pp_file_size :: int

record GroupPhoto =
  gp_group_id :: int
  gp_local_path :: string
  gp_tg_file_id :: string
  gp_file_size :: int

record MessageFile =
  mf_chat_id :: int
  mf_message_id :: int
  mf_is_group :: bool
  mf_local_path :: string
  mf_tg_file_id :: string
  mf_file_size :: int
  mf_content_type :: string
  mf_orig_file_name :: string

datatype td_event =
    E_Text TextMessage
  | E_Private PrivateMessage
  | E_Group_Message GroupMessage
  | E_File MessageFile
  | E_Reply MessageReply
  | E_User User
  | E_FullInfo UserFullInfo
  | E_Photo ProfilePhoto
  | E_Group Group
  | E_Group_Photo GroupPhoto
  | E_Admins GroupAdminList

text \<open>The handlers the application may install.\<close>

datatype handler =
    H_Text | H_Private | H_Group_Message | H_File | H_Reply | H_User | H_FullInfo | H_Photo
  | H_Group | H_Group_Photo | H_Admins

section \<open>State\<close>

record SgInfo =
  sg_active :: "string list"
  sg_disabled :: "string list"
  sg_collectible :: "string list"
  sg_is_channel :: bool

record GroupState =
  st_type :: GroupType
  st_chat_id :: int
  st_title :: string
  st_description :: string
  st_active_usernames :: "string list"
  st_disabled_usernames :: "string list"
  st_collectible_usernames :: "string list"
  st_chat_seen :: bool

definition new_group_state :: GroupState where
  "new_group_state =
     \<lparr>st_type = Gt_BasicGroup, st_chat_id = 0, st_title = '''', st_description = '''',
      st_active_usernames = [], st_disabled_usernames = [], st_collectible_usernames = [],
      st_chat_seen = False\<rparr>"

record PendingMsgFile =
  pf_chat_id :: int
  pf_message_id :: int
  pf_is_group :: bool
  pf_content_type :: string
  pf_orig_file_name :: string

record td =
  api_id :: "32 word"
  api_hash :: string
  data_dir :: string
  stopped :: bool
  is_authorized :: bool
  self_id :: int
  current_query_id :: "64 word"
  installed :: "handler set"
  continuations :: "64 word \<rightharpoonup> continuation"
  known_users :: "int \<rightharpoonup> td_user"
  pending_photo :: "int \<rightharpoonup> int"
  supergroups :: "int \<rightharpoonup> SgInfo"
  group_state :: "int \<rightharpoonup> GroupState"
  chat_to_group :: "int \<rightharpoonup> int"
  pending_group_photo :: "int \<rightharpoonup> int"
  pending_message_file :: "int \<rightharpoonup> PendingMsgFile"
  resolved_reply_targets :: "(int \<times> int) set"
  admin_poll_set :: "int set"
  admin_poll_queue :: "int list"
  admin_poll_miss :: "int \<rightharpoonup> int"
  admin_poll_started :: bool
  closing :: bool
  admin_poll_interval :: real
  admin_poll_batch :: int
  terminal :: "string list"
  sent :: "(64 word \<times> td_query) list"
  events :: "td_event list"

definition emit :: "td_event \<Rightarrow> td \<Rightarrow> td" where
  "emit e s = s\<lparr>events := events s @ [e]\<rparr>"

text \<open>The next query id is taken first; \<open>emplace\<close> keeps a continuation that has the same id.\<close>

definition send_query :: "td_query \<Rightarrow> continuation option \<Rightarrow> td \<Rightarrow> td" where
  "send_query f k s =
     (let i = current_query_id s + 1 in
      s\<lparr>current_query_id := i,
        continuations :=
          (case k of None \<Rightarrow> continuations s
           | Some c \<Rightarrow> if continuations s i = None then (continuations s)(i \<mapsto> c) else continuations s),
        sent := sent s @ [(i, f)]\<rparr>)"

definition Impl :: "32 word \<Rightarrow> string \<Rightarrow> string \<Rightarrow> string list \<Rightarrow> td" where
  "Impl i h d stdin = send_query (Q_GetOption ''version'') None
     \<lparr>api_id = i, api_hash = h, data_dir = d, stopped = False, is_authorized = False, self_id = 0,
      current_query_id = 0, installed = {}, continuations = (\<lambda>_. None), known_users = (\<lambda>_. None),
      pending_photo = (\<lambda>_. None), supergroups = (\<lambda>_. None), group_state = (\<lambda>_. None),
      chat_to_group = (\<lambda>_. None), pending_group_photo = (\<lambda>_. None),
      pending_message_file = (\<lambda>_. None), resolved_reply_targets = {}, admin_poll_set = {},
      admin_poll_queue = [], admin_poll_miss = (\<lambda>_. None), admin_poll_started = False,
      closing = False, admin_poll_interval = 300, admin_poll_batch = 4, terminal = stdin, sent = [], events = []\<rparr>"

definition set_handler :: "handler \<Rightarrow> td \<Rightarrow> td" where
  "set_handler h s = s\<lparr>installed := insert h (installed s)\<rparr>"

definition setAdminPollConfig :: "real \<Rightarrow> int \<Rightarrow> td \<Rightarrow> td" where
  "setAdminPollConfig interval_seconds batch s =
     s\<lparr>admin_poll_interval := interval_seconds, admin_poll_batch := (if batch > 0 then batch else 1)\<rparr>"

text \<open>\<open>close\<close>.\<close>

definition close_client :: "td \<Rightarrow> td" where
  "close_client s = send_query Q_Close None (s\<lparr>closing := True\<rparr>)"

section \<open>Downloads\<close>

definition downloaded :: "td_file \<Rightarrow> bool" where
  "downloaded f \<longleftrightarrow> (case tf_local f of Some l \<Rightarrow> lf_completed l | None \<Rightarrow> False)"

definition local_path :: "td_file \<Rightarrow> string" where
  "local_path f = (case tf_local f of Some l \<Rightarrow> lf_path l | None \<Rightarrow> '''')"

definition remote_id :: "td_file \<Rightarrow> string" where
  "remote_id f = (case tf_remote f of Some r \<Rightarrow> r | None \<Rightarrow> '''')"

definition emit_photo :: "int \<Rightarrow> td_file \<Rightarrow> td \<Rightarrow> td" where
  "emit_photo user_id f s =
     (if H_Photo \<notin> installed s \<or> \<not> downloaded f then s
      else emit (E_Photo \<lparr>pp_user_id = user_id, pp_local_path = local_path f,
                   pp_tg_file_id = remote_id f, pp_file_size = tf_size f\<rparr>) s)"

definition emit_group_photo :: "int \<Rightarrow> td_file \<Rightarrow> td \<Rightarrow> td" where
  "emit_group_photo group_id f s =
     (if H_Group_Photo \<notin> installed s \<or> \<not> downloaded f then s
      else emit (E_Group_Photo \<lparr>gp_group_id = group_id, gp_local_path = local_path f,
                   gp_tg_file_id = remote_id f, gp_file_size = tf_size f\<rparr>) s)"

definition emit_message_file :: "PendingMsgFile \<Rightarrow> td_file \<Rightarrow> td \<Rightarrow> td" where
  "emit_message_file ref f s =
     (if H_File \<notin> installed s \<or> \<not> downloaded f then s
      else emit (E_File \<lparr>mf_chat_id = pf_chat_id ref, mf_message_id = pf_message_id ref,
                   mf_is_group = pf_is_group ref, mf_local_path = local_path f,
                   mf_tg_file_id = remote_id f, mf_file_size = tf_size f,
                   mf_content_type = pf_content_type ref,
                   mf_orig_file_name = pf_orig_file_name ref\<rparr>) s)"

definition maybe_download_profile_photo :: "td_user \<Rightarrow> td \<Rightarrow> td" where
  "maybe_download_profile_photo u s =
     (case tu_photo_big u of
        None \<Rightarrow> s
      | Some big \<Rightarrow>
          if H_Photo \<notin> installed s then s
          else if downloaded big then emit_photo (tu_id u) big s
          else send_query (Q_DownloadFile (tf_id big)) None
                 (s\<lparr>pending_photo := (pending_photo s)(tf_id big \<mapsto> tu_id u)\<rparr>))"

definition maybe_download_group_photo :: "int \<Rightarrow> td_file option \<Rightarrow> td \<Rightarrow> td" where
  "maybe_download_group_photo group_id photo s =
     (case photo of
        None \<Rightarrow> s
      | Some big \<Rightarrow>
          if H_Group_Photo \<notin> installed s then s
          else if downloaded big then emit_group_photo group_id big s
          else send_query (Q_DownloadFile (tf_id big)) None
                 (s\<lparr>pending_group_photo := (pending_group_photo s)(tf_id big \<mapsto> group_id)\<rparr>))"

definition maybe_download_message_file :: "td_message \<Rightarrow> bool \<Rightarrow> td \<Rightarrow> td" where
  "maybe_download_message_file m is_group s =
     (if H_File \<notin> installed s then s
      else case tm_content m of
        None \<Rightarrow> s
      | Some content \<Rightarrow>
          (case message_content_file content of
             None \<Rightarrow> s
           | Some (f, category, file_name) \<Rightarrow>
               (let ref = \<lparr>pf_chat_id = tm_chat_id m, pf_message_id = tm_id m, pf_is_group = is_group,
                           pf_content_type = category, pf_orig_file_name = file_name\<rparr> in
                if downloaded f then emit_message_file ref f s
                else send_query (Q_DownloadFile (tf_id f)) None
                       (s\<lparr>pending_message_file := (pending_message_file s)(tf_id f \<mapsto> ref)\<rparr>))))"

definition handle_file_update :: "td_file \<Rightarrow> td \<Rightarrow> td" where
  "handle_file_update f s =
     (if \<not> downloaded f then s
      else case pending_photo s (tf_id f) of
        Some user_id \<Rightarrow> emit_photo user_id f (s\<lparr>pending_photo := (pending_photo s)(tf_id f := None)\<rparr>)
      | None \<Rightarrow>
          (case pending_group_photo s (tf_id f) of
             Some group_id \<Rightarrow>
               emit_group_photo group_id f
                 (s\<lparr>pending_group_photo := (pending_group_photo s)(tf_id f := None)\<rparr>)
           | None \<Rightarrow>
               (case pending_message_file s (tf_id f) of
                  Some ref \<Rightarrow>
                    emit_message_file ref f
                      (s\<lparr>pending_message_file := (pending_message_file s)(tf_id f := None)\<rparr>)
                | None \<Rightarrow> s)))"

section \<open>Users and groups\<close>

definition request_user_full_info :: "int \<Rightarrow> td \<Rightarrow> td" where
  "request_user_full_info user_id s =
     (if H_FullInfo \<notin> installed s then s
      else send_query (Q_GetUserFullInfo user_id) (Some (K_FullInfo user_id)) s)"

definition ensure_user_saved :: "int \<Rightarrow> td \<Rightarrow> td" where
  "ensure_user_saved user_id s =
     (if user_id = 0 \<or> H_User \<notin> installed s then s
      else case known_users s user_id of
        Some u \<Rightarrow> emit (E_User (map_user u)) s
      | None \<Rightarrow> send_query (Q_GetUser user_id) (Some K_User) s)"

text \<open>The continuation of \<open>getUser\<close>.\<close>

definition on_user :: "td_user \<Rightarrow> td \<Rightarrow> td" where
  "on_user u s =
     (let s = (if H_User \<in> installed s then emit (E_User (map_user u)) s else s);
          s = maybe_download_profile_photo u s
      in s\<lparr>known_users := (known_users s)(tu_id u \<mapsto> u)\<rparr>)"

definition emit_group :: "int \<Rightarrow> td \<Rightarrow> td" where
  "emit_group group_id s =
     (case group_state s group_id of
        None \<Rightarrow> s
      | Some st \<Rightarrow>
          if \<not> st_chat_seen st \<or> H_Group \<notin> installed s then s
          else emit (E_Group \<lparr>g_id = st_chat_id st, g_type = st_type st, g_title = st_title st,
                       g_description = st_description st, g_photo_file_id = None,
                       g_active_usernames = st_active_usernames st,
                       g_disabled_usernames = st_disabled_usernames st,
                       g_collectible_usernames = st_collectible_usernames st\<rparr>) s)"

definition ensure_chat_saved :: "int \<Rightarrow> td \<Rightarrow> td" where
  "ensure_chat_saved chat_id s =
     (if chat_id = 0 \<or> H_Group \<notin> installed s then s
      else if is_private_chat chat_id then s
      else case chat_to_group s chat_id of
        Some g \<Rightarrow> emit_group g s
      | None \<Rightarrow> send_query (Q_GetChat chat_id) (Some K_Chat) s)"
section \<open>Administrators\<close>

definition fetch_group_admins :: "int \<Rightarrow> int \<Rightarrow> td \<Rightarrow> td" where
  "fetch_group_admins supergroup_id chat_id s =
     (if H_Admins \<notin> installed s then s
      else send_query (Q_GetSupergroupMembers supergroup_id) (Some (K_Admins chat_id)) s)"

text \<open>The loop over a member list: null and non-admin members are skipped, the others saved.\<close>

fun collect_admins :: "td_member option list \<Rightarrow> td \<Rightarrow> GroupAdmin list \<times> td" where
  "collect_admins [] s = ([], s)"
| "collect_admins (None # ms) s = collect_admins ms s"
| "collect_admins (Some m # ms) s =
     (case map_admin m of
        None \<Rightarrow> collect_admins ms s
      | Some a \<Rightarrow>
          (case collect_admins ms (ensure_user_saved (a_user_id a) s) of (as, t) \<Rightarrow> (a # as, t)))"

definition emit_admins :: "int \<Rightarrow> td_member option list \<Rightarrow> td \<Rightarrow> td" where
  "emit_admins chat_id members s =
     (case collect_admins members s of (as, t) \<Rightarrow>
        if as \<noteq> [] then emit (E_Admins \<lparr>al_group_id = chat_id, al_admins = as\<rparr>) t else t)"

definition emit_basic_group_admins :: "int \<Rightarrow> td_member option list \<Rightarrow> td \<Rightarrow> td" where
  "emit_basic_group_admins chat_id members s =
     (if H_Admins \<notin> installed s then s else emit_admins chat_id members s)"

definition kAdminPollMaxMiss :: int where
  "kAdminPollMaxMiss = 3"

text \<open>The continuation of \<open>getSupergroupMembers\<close>: a member list, or an error with its code.\<close>

definition admins_failed :: "int \<Rightarrow> int \<Rightarrow> td \<Rightarrow> td" where
  "admins_failed chat_id code s =
     (if code = 400 \<or> code = 403 then
        (let n = (case admin_poll_miss s chat_id of Some n \<Rightarrow> n | None \<Rightarrow> 0) + 1;
             s = s\<lparr>admin_poll_miss := (admin_poll_miss s)(chat_id \<mapsto> n)\<rparr> in
         if n \<ge> kAdminPollMaxMiss then s\<lparr>admin_poll_set := admin_poll_set s - {chat_id}\<rparr> else s)
      else s)"

definition admins_received :: "int \<Rightarrow> td_member option list \<Rightarrow> td \<Rightarrow> td" where
  "admins_received chat_id members s =
     emit_admins chat_id members (s\<lparr>admin_poll_miss := (admin_poll_miss s)(chat_id := None)\<rparr>)"

definition arm_admin_alarm :: "td \<Rightarrow> td" where
  "arm_admin_alarm s = send_query (Q_SetAlarm (admin_poll_interval s)) (Some K_Alarm) s"

text \<open>The loop of \<open>poll_admin_batch\<close>, by the number of groups left to scan.\<close>

definition poll_query :: "int \<Rightarrow> int \<Rightarrow> GroupState \<Rightarrow> td \<Rightarrow> td" where
  "poll_query group_id chat_id st s =
     (if st_type st = Gt_BasicGroup then send_query (Q_GetBasicGroupFullInfo group_id) None s
      else fetch_group_admins group_id chat_id s)"

fun poll_loop :: "nat \<Rightarrow> int \<Rightarrow> td \<Rightarrow> td" where
  "poll_loop 0 polled s = s"
| "poll_loop (Suc scan) polled s =
     (if \<not> polled < admin_poll_batch s then s
      else case admin_poll_queue s of
        [] \<Rightarrow> s
      | chat_id # rest \<Rightarrow>
          (let s = s\<lparr>admin_poll_queue := rest\<rparr> in
           if chat_id \<notin> admin_poll_set s then poll_loop scan polled s
           else
             (let s = s\<lparr>admin_poll_queue := admin_poll_queue s @ [chat_id]\<rparr> in
              case chat_to_group s chat_id of
                None \<Rightarrow> poll_loop scan polled s
              | Some g \<Rightarrow>
                  (case group_state s g of
                     None \<Rightarrow> poll_loop scan polled s
                   | Some st \<Rightarrow> poll_loop scan (polled + 1) (poll_query g chat_id st s)))))"

definition poll_admin_batch :: "td \<Rightarrow> td" where
  "poll_admin_batch s = poll_loop (length (admin_poll_queue s)) 0 s"

definition on_admin_alarm :: "td \<Rightarrow> td" where
  "on_admin_alarm s =
     (if stopped s \<or> closing s then s
      else arm_admin_alarm
        (if is_authorized s \<and> H_Admins \<in> installed s then poll_admin_batch s else s))"

section \<open>Chats\<close>

datatype td_chat_type = Chat_BasicGroup int | Chat_Supergroup int bool | Chat_Other

record td_chat =
  ch_id :: int
  ch_title :: string
  ch_type :: "td_chat_type option"
  ch_photo_big :: "td_file option"

definition merge_supergroup :: "SgInfo option \<Rightarrow> GroupState \<Rightarrow> GroupState" where
  "merge_supergroup sg st =
     (case sg of
        None \<Rightarrow> st
      | Some i \<Rightarrow> st\<lparr>st_active_usernames := sg_active i, st_disabled_usernames := sg_disabled i,
                    st_collectible_usernames := sg_collectible i,
                    st_type := (if sg_is_channel i then Gt_Channel else st_type st)\<rparr>)"

definition known_group :: "int \<Rightarrow> td \<Rightarrow> GroupState" where
  "known_group g s = (case group_state s g of Some st \<Rightarrow> st | None \<Rightarrow> new_group_state)"

definition enter_group :: "td_chat \<Rightarrow> int \<Rightarrow> GroupType \<Rightarrow> td \<Rightarrow> td" where
  "enter_group chat g type s =
     (let st = (known_group g s)\<lparr>st_type := type, st_chat_id := ch_id chat, st_title := ch_title chat,
                                 st_chat_seen := True\<rparr> in
      s\<lparr>group_state := (group_state s)(g \<mapsto> merge_supergroup (supergroups s g) st),
        chat_to_group := (chat_to_group s)(ch_id chat \<mapsto> g)\<rparr>)"

definition request_group_info :: "int \<Rightarrow> GroupType \<Rightarrow> td \<Rightarrow> td" where
  "request_group_info g type s =
     (if type = Gt_BasicGroup then send_query (Q_GetBasicGroupFullInfo g) None s
      else send_query (Q_GetSupergroupFullInfo g) None s)"

definition track_group :: "int \<Rightarrow> int \<Rightarrow> GroupType \<Rightarrow> td \<Rightarrow> td" where
  "track_group chat_id g type s =
     (if chat_id \<in> admin_poll_set s then s
      else
        (let s = s\<lparr>admin_poll_set := insert chat_id (admin_poll_set s),
                   admin_poll_queue := admin_poll_queue s @ [chat_id]\<rparr> in
         if type \<noteq> Gt_BasicGroup then fetch_group_admins g chat_id s else s))"

definition new_group_chat :: "td_chat \<Rightarrow> bool \<Rightarrow> int \<Rightarrow> GroupType \<Rightarrow> td \<Rightarrow> td" where
  "new_group_chat chat from_chat_list g type s =
     (let first_sight = (group_state s g = None);
          s = enter_group chat g type s;
          s = emit_group g s;
          s = request_group_info g type s;
          s = maybe_download_group_photo (ch_id chat) (ch_photo_big chat) s
      in if from_chat_list \<and> first_sight then track_group (ch_id chat) g type s else s)"

definition handle_new_chat :: "td_chat \<Rightarrow> bool \<Rightarrow> td \<Rightarrow> td" where
  "handle_new_chat chat from_chat_list s =
     (case ch_type chat of
        Some (Chat_BasicGroup g) \<Rightarrow> new_group_chat chat from_chat_list g Gt_BasicGroup s
      | Some (Chat_Supergroup g is_channel) \<Rightarrow>
          new_group_chat chat from_chat_list g (if is_channel then Gt_Channel else Gt_Supergroup) s
      | _ \<Rightarrow> s)"
section \<open>Messages\<close>

definition kMaxReplyDepth :: nat where
  "kMaxReplyDepth = 128"

definition kReplyDedupCap :: nat where
  "kReplyDedupCap = 1000000"

definition mark_reply_resolved :: "int \<Rightarrow> int \<Rightarrow> td \<Rightarrow> td" where
  "mark_reply_resolved chat_id msg_id s =
     s\<lparr>resolved_reply_targets := insert (chat_id, msg_id)
        (if card (resolved_reply_targets s) \<ge> kReplyDedupCap then {} else resolved_reply_targets s)\<rparr>"

definition resolve_forward_origin :: "ForwardInfo \<Rightarrow> td \<Rightarrow> td" where
  "resolve_forward_origin info s =
     (let s = (case origin_sender_user_id info of Some u \<Rightarrow> ensure_user_saved u s | None \<Rightarrow> s)
      in case origin_chat_id info of Some c \<Rightarrow> ensure_chat_saved c s | None \<Rightarrow> s)"

definition ensure_message_entities :: "td_message \<Rightarrow> td \<Rightarrow> td" where
  "ensure_message_entities m s =
     (let s = (if is_private_chat (tm_chat_id m) then ensure_user_saved (tm_chat_id m) s
               else ensure_chat_saved (tm_chat_id m) s)
      in case tm_sender m of
           Some (Sender_User u) \<Rightarrow> ensure_user_saved u s
         | Some (Sender_Chat c) \<Rightarrow> ensure_chat_saved c s
         | None \<Rightarrow> s)"

definition resolve_reply_message :: "td_message \<Rightarrow> bool \<Rightarrow> nat \<Rightarrow> td \<Rightarrow> td" where
  "resolve_reply_message m is_group depth s =
     (if H_Reply \<notin> installed s then s
      else case reply_target m of
        None \<Rightarrow> s
      | Some (reply_chat_id, reply_msg_id) \<Rightarrow>
          (let mr = \<lparr>mr_chat_id = tm_chat_id m, mr_message_id = tm_id m,
                     mr_reply_to_chat_id = reply_chat_id, mr_reply_to_msg_id = reply_msg_id,
                     mr_is_group = is_group\<rparr> in
           if (reply_chat_id, reply_msg_id) \<in> resolved_reply_targets s \<or> depth \<ge> kMaxReplyDepth
           then emit (E_Reply mr) s
           else send_query (Q_GetMessage reply_chat_id reply_msg_id) (Some (K_Reply mr depth)) s))"

definition forward_origin :: "ForwardInfo option \<Rightarrow> td \<Rightarrow> td" where
  "forward_origin info s = (case info of Some i \<Rightarrow> resolve_forward_origin i s | None \<Rightarrow> s)"

definition handle_message_for_private_chat :: "td_message \<Rightarrow> nat \<Rightarrow> td \<Rightarrow> td" where
  "handle_message_for_private_chat m depth s =
     (if H_Private \<notin> installed s then s
      else
        (let pm = build_private_message m;
             s = forward_origin (pm_forward_info pm) s;
             s = emit (E_Private pm) s;
             s = maybe_download_message_file m False s
         in resolve_reply_message m False depth s))"

definition handle_message_for_group_chat :: "td_message \<Rightarrow> nat \<Rightarrow> td \<Rightarrow> td" where
  "handle_message_for_group_chat m depth s =
     (if H_Group_Message \<notin> installed s then s
      else
        (let gm = build_group_message m;
             s = forward_origin (gm_forward_info gm) s;
             s = emit (E_Group_Message gm) s;
             s = maybe_download_message_file m True s
         in resolve_reply_message m True depth s))"

text \<open>The choice by chat kind that three callers make.\<close>

definition route_message :: "int \<Rightarrow> td_message \<Rightarrow> nat \<Rightarrow> td \<Rightarrow> td" where
  "route_message chat_id m depth s =
     (if is_private_chat chat_id then handle_message_for_private_chat m depth s
      else handle_message_for_group_chat m depth s)"

text \<open>The continuations of the two \<open>getMessage\<close> queries; \<open>None\<close> is any other object.\<close>

definition on_edited :: "td_message option \<Rightarrow> td \<Rightarrow> td" where
  "on_edited obj s = (case obj of None \<Rightarrow> s | Some m \<Rightarrow> route_message (tm_chat_id m) m 0 s)"

definition on_reply :: "MessageReply \<Rightarrow> nat \<Rightarrow> td_message option \<Rightarrow> td \<Rightarrow> td" where
  "on_reply mr depth obj s =
     (case obj of
        None \<Rightarrow> emit (E_Reply mr) s
      | Some r \<Rightarrow>
          (let s = mark_reply_resolved (mr_reply_to_chat_id mr) (mr_reply_to_msg_id mr) s;
               s = ensure_message_entities r s;
               s = route_message (mr_reply_to_chat_id mr) r (depth + 1) s
           in emit (E_Reply mr) s))"

definition sender_id_of :: "td_message \<Rightarrow> int" where
  "sender_id_of m =
     (case tm_sender m of
        Some (Sender_User u) \<Rightarrow> u | Some (Sender_Chat c) \<Rightarrow> c | None \<Rightarrow> 0)"

definition sender_name_of :: "td_user \<Rightarrow> string" where
  "sender_name_of u =
     (if tu_last_name u = [] then tu_first_name u
      else (if tu_first_name u = [] then '''' else tu_first_name u @ '' '') @ tu_last_name u)"

definition sender_username_of :: "td_user \<Rightarrow> string" where
  "sender_username_of u =
     (case tu_usernames u of
        Some n \<Rightarrow> (case un_active n of a # _ \<Rightarrow> a | [] \<Rightarrow> '''')
      | None \<Rightarrow> '''')"

text \<open>The legacy path: only text messages that have a text.\<close>

definition text_message :: "td_message \<Rightarrow> td \<Rightarrow> td" where
  "text_message m s =
     (if H_Text \<notin> installed s then s
      else case tm_content m of
        Some (Content_Text (Some t)) \<Rightarrow>
          (let sender = sender_id_of m;
               (name, username) =
                 (case known_users s sender of
                    Some u \<Rightarrow> (sender_name_of u, sender_username_of u)
                  | None \<Rightarrow> ('''', ''''))
           in emit (E_Text \<lparr>xm_sender_id = sender, xm_message_id = tm_id m, xm_sender_name = name,
                      xm_sender_username = username, xm_text = t\<rparr>) s)
      | _ \<Rightarrow> s)"

definition handle_new_message :: "td_message \<Rightarrow> td \<Rightarrow> td" where
  "handle_new_message m s = text_message m (route_message (tm_chat_id m) m 0 s)"

text \<open>\<open>updateMessageContent\<close> is deliberately ignored.\<close>

definition handle_update_message_content :: "int \<Rightarrow> int \<Rightarrow> td_content option \<Rightarrow> td \<Rightarrow> td" where
  "handle_update_message_content chat_id message_id content s = s"

definition no_content :: MessageContent where
  "no_content = \<lparr>content_type = Ct_Unknown, content_text = None, content_file_id = None\<rparr>"

definition deleted_private :: "int \<Rightarrow> int \<Rightarrow> PrivateMessage" where
  "deleted_private chat_id msg_id =
     \<lparr>pm_chat_id = chat_id, pm_message_id = msg_id, pm_sender_id = None, pm_is_outgoing = False,
      pm_date = 0, pm_edit_date = 0, pm_content = no_content, pm_is_deleted = True,
      pm_forward_info = None\<rparr>"

definition deleted_group :: "int \<Rightarrow> int \<Rightarrow> GroupMessage" where
  "deleted_group chat_id msg_id =
     \<lparr>gm_chat_id = chat_id, gm_message_id = msg_id, gm_sender_user_id = None,
      gm_sender_chat_id = None, gm_is_outgoing = False, gm_is_channel_post = False,
      gm_author_signature = None, gm_date = 0, gm_edit_date = 0, gm_content = no_content,
      gm_is_deleted = True, gm_forward_info = None\<rparr>"

fun delete_each :: "int \<Rightarrow> int list \<Rightarrow> td \<Rightarrow> td" where
  "delete_each chat_id [] s = s"
| "delete_each chat_id (i # is) s =
     delete_each chat_id is
       (emit (if is_private_chat chat_id then E_Private (deleted_private chat_id i)
              else E_Group_Message (deleted_group chat_id i)) s)"

definition handle_delete_messages :: "int \<Rightarrow> int list \<Rightarrow> td \<Rightarrow> td" where
  "handle_delete_messages chat_id message_ids s =
     (let priv = is_private_chat chat_id in
      if priv \<and> H_Private \<notin> installed s \<or> \<not> priv \<and> H_Group_Message \<notin> installed s then s
      else delete_each chat_id message_ids s)"

section \<open>Authorization\<close>

datatype auth_state =
    A_WaitTdlibParameters | A_WaitPhoneNumber | A_WaitCode | A_WaitRegistration | A_WaitPassword
  | A_Ready | A_LoggingOut | A_Closing | A_Closed | A_Other

text \<open>\<open>std::getline\<close>: the next line typed, empty at the end of the input.\<close>

definition getline :: "td \<Rightarrow> string \<times> td" where
  "getline s =
     (case terminal s of [] \<Rightarrow> ('''', s) | l # ls \<Rightarrow> (l, s\<lparr>terminal := ls\<rparr>))"

fun on_authorization_state_update :: "auth_state \<Rightarrow> td \<Rightarrow> td" where
  "on_authorization_state_update A_WaitTdlibParameters s =
     send_query (Q_SetTdlibParameters (data_dir s) (api_id s) (api_hash s)) (Some K_Auth) s"
| "on_authorization_state_update A_WaitPhoneNumber s =
     (case getline s of (pn, t) \<Rightarrow> send_query (Q_SetAuthenticationPhoneNumber pn) (Some K_Auth) t)"
| "on_authorization_state_update A_WaitCode s =
     (case getline s of (code, t) \<Rightarrow> send_query (Q_CheckAuthenticationCode code) (Some K_Auth) t)"
| "on_authorization_state_update A_WaitRegistration s =
     (case getline s of (fname, t) \<Rightarrow> case getline t of (lname, t) \<Rightarrow>
        send_query (Q_RegisterUser fname lname) (Some K_Auth) t)"
| "on_authorization_state_update A_WaitPassword s =
     (case getline s of (pass, t) \<Rightarrow> send_query (Q_CheckAuthenticationPassword pass) (Some K_Auth) t)"
| "on_authorization_state_update A_Ready s =
     (let s = send_query Q_GetMe (Some K_Me) (s\<lparr>is_authorized := True\<rparr>) in
      if \<not> admin_poll_started s \<and> admin_poll_interval s > 0 \<and> H_Admins \<in> installed s
      then arm_admin_alarm (s\<lparr>admin_poll_started := True\<rparr>) else s)"
| "on_authorization_state_update A_LoggingOut s = s\<lparr>is_authorized := False\<rparr>"
| "on_authorization_state_update A_Closed s = s\<lparr>is_authorized := False, stopped := True\<rparr>"
| "on_authorization_state_update A_Closing s = s"
| "on_authorization_state_update A_Other s = s"
section \<open>Updates and responses\<close>

record td_supergroup =
  sgp_id :: int
  sgp_usernames :: "td_usernames option"
  sgp_is_channel :: bool

datatype td_update =
    U_AuthorizationState auth_state
  | U_User "td_user option"
  | U_UserFullInfo int "td_full_info option"
  | U_File "td_file option"
  | U_NewChat "td_chat option"
  | U_ChatTitle int string
  | U_ChatPhoto int "td_file option"
  | U_Supergroup "td_supergroup option"
  | U_SupergroupFullInfo int "string option"
  | U_BasicGroupFullInfo int "(string \<times> td_member option list) option"
  | U_NewMessage td_message
  | U_MessageContent int int "td_content option"
  | U_MessageEdited int int
  | U_DeleteMessages int "int list" bool
  | U_Other

definition update_user :: "td_user \<Rightarrow> td \<Rightarrow> td" where
  "update_user u s =
     (let first_seen = (known_users s (tu_id u) = None);
          s = (if H_User \<in> installed s then emit (E_User (map_user u)) s else s);
          s = maybe_download_profile_photo u s;
          s = s\<lparr>known_users := (known_users s)(tu_id u \<mapsto> u)\<rparr>
      in if first_seen then request_user_full_info (tu_id u) s else s)"

definition update_chat_title :: "int \<Rightarrow> string \<Rightarrow> td \<Rightarrow> td" where
  "update_chat_title chat_id title s =
     (case chat_to_group s chat_id of
        None \<Rightarrow> s
      | Some g \<Rightarrow>
          emit_group g (s\<lparr>group_state := (group_state s)(g \<mapsto> (known_group g s)\<lparr>st_title := title\<rparr>)\<rparr>))"

definition update_supergroup :: "td_supergroup \<Rightarrow> td \<Rightarrow> td" where
  "update_supergroup sg s =
     (let info = (case sgp_usernames sg of
             Some n \<Rightarrow> \<lparr>sg_active = un_active n, sg_disabled = un_disabled n,
                        sg_collectible = un_collectible n, sg_is_channel = sgp_is_channel sg\<rparr>
           | None \<Rightarrow> \<lparr>sg_active = [], sg_disabled = [], sg_collectible = [],
                      sg_is_channel = sgp_is_channel sg\<rparr>);
          s = s\<lparr>supergroups := (supergroups s)(sgp_id sg \<mapsto> info)\<rparr>
      in case group_state s (sgp_id sg) of
           None \<Rightarrow> s
         | Some st \<Rightarrow>
             emit_group (sgp_id sg) (s\<lparr>group_state := (group_state s)(sgp_id sg \<mapsto>
               st\<lparr>st_active_usernames := sg_active info, st_disabled_usernames := sg_disabled info,
                  st_collectible_usernames := sg_collectible info,
                  st_type := (if sg_is_channel info then Gt_Channel else Gt_Supergroup)\<rparr>)\<rparr>))"

definition describe_group :: "int \<Rightarrow> string \<Rightarrow> td \<Rightarrow> td" where
  "describe_group g d s =
     s\<lparr>group_state := (group_state s)(g \<mapsto> (known_group g s)\<lparr>st_description := d\<rparr>)\<rparr>"

definition update_basic_group_full_info :: "int \<Rightarrow> string \<Rightarrow> td_member option list \<Rightarrow> td \<Rightarrow> td" where
  "update_basic_group_full_info g d members s =
     (let s = describe_group g d s; st = known_group g s in
      if \<not> st_chat_seen st then s
      else
        (let s = emit_group g s in
         if st_chat_id st \<in> admin_poll_set s
         then emit_basic_group_admins (st_chat_id st) members s else s))"

fun process_update :: "td_update \<Rightarrow> td \<Rightarrow> td" where
  "process_update (U_AuthorizationState a) s = on_authorization_state_update a s"
| "process_update (U_User u) s = (case u of None \<Rightarrow> s | Some u \<Rightarrow> update_user u s)"
| "process_update (U_UserFullInfo uid fi) s =
     (case fi of
        Some i \<Rightarrow> if H_FullInfo \<in> installed s then emit (E_FullInfo (map_user_full_info i uid)) s else s
      | None \<Rightarrow> s)"
| "process_update (U_File f) s = (case f of None \<Rightarrow> s | Some f \<Rightarrow> handle_file_update f s)"
| "process_update (U_NewChat c) s = (case c of None \<Rightarrow> s | Some c \<Rightarrow> handle_new_chat c True s)"
| "process_update (U_ChatTitle c t) s = update_chat_title c t s"
| "process_update (U_ChatPhoto c photo) s =
     (case chat_to_group s c of None \<Rightarrow> s | Some g \<Rightarrow> maybe_download_group_photo c photo s)"
| "process_update (U_Supergroup sg) s = (case sg of None \<Rightarrow> s | Some sg \<Rightarrow> update_supergroup sg s)"
| "process_update (U_SupergroupFullInfo g d) s =
     (case d of
        None \<Rightarrow> s
      | Some d \<Rightarrow>
          (let s = describe_group g d s in
           if st_chat_seen (known_group g s) then emit_group g s else s))"
| "process_update (U_BasicGroupFullInfo g fi) s =
     (case fi of None \<Rightarrow> s | Some (d, members) \<Rightarrow> update_basic_group_full_info g d members s)"
| "process_update (U_NewMessage m) s = handle_new_message m s"
| "process_update (U_MessageContent c i content) s = handle_update_message_content c i content s"
| "process_update (U_MessageEdited c i) s = send_query (Q_GetMessage c i) (Some K_Edited) s"
| "process_update (U_DeleteMessages c is permanent) s = handle_delete_messages c is s"
| "process_update U_Other s = s"

datatype td_object =
    O_Update td_update
  | O_Message td_message
  | O_User td_user
  | O_Chat td_chat
  | O_FullInfo td_full_info
  | O_Members "td_member option list"
  | O_Error int string
  | O_Other

definition message_of :: "td_object \<Rightarrow> td_message option" where
  "message_of obj = (case obj of O_Message m \<Rightarrow> Some m | _ \<Rightarrow> None)"

text \<open>Running a continuation on the answer. An authentication error is only reported.\<close>

definition resume :: "continuation \<Rightarrow> td_object \<Rightarrow> td \<Rightarrow> td" where
  "resume k obj s =
     (case k of
        K_Edited \<Rightarrow> on_edited (message_of obj) s
      | K_Auth \<Rightarrow> s
      | K_Me \<Rightarrow> (case obj of O_User u \<Rightarrow> s\<lparr>self_id := tu_id u\<rparr> | _ \<Rightarrow> s)
      | K_Reply mr depth \<Rightarrow> on_reply mr depth (message_of obj) s
      | K_User \<Rightarrow> (case obj of O_User u \<Rightarrow> on_user u s | _ \<Rightarrow> s)
      | K_Chat \<Rightarrow> (case obj of O_Chat c \<Rightarrow> handle_new_chat c False s | _ \<Rightarrow> s)
      | K_FullInfo uid \<Rightarrow>
          (case obj of O_FullInfo i \<Rightarrow> emit (E_FullInfo (map_user_full_info i uid)) s | _ \<Rightarrow> s)
      | K_Admins c \<Rightarrow>
          (case obj of O_Members ms \<Rightarrow> admins_received c ms s
           | O_Error code _ \<Rightarrow> admins_failed c code s
           | _ \<Rightarrow> s)
      | K_Alarm \<Rightarrow> on_admin_alarm s)"

text \<open>
  \<open>process_response\<close>: id 0 is an update; any other id runs its continuation, which is removed
  first. A null object, as \<open>receive\<close> returns on a timeout, does nothing.
\<close>

definition process_response :: "64 word \<Rightarrow> td_object option \<Rightarrow> td \<Rightarrow> td" where
  "process_response request_id obj s =
     (case obj of
        None \<Rightarrow> s
      | Some obj \<Rightarrow>
          if request_id = 0 then (case obj of O_Update u \<Rightarrow> process_update u s | _ \<Rightarrow> s)
          else
            (case continuations s request_id of
               None \<Rightarrow> s
             | Some k \<Rightarrow> resume k obj (s\<lparr>continuations := (continuations s)(request_id := None)\<rparr>)))"
end
