(* ===== verification/Db_Permanence.thy ===== *)
theory Db_Permanence
  imports Db_Contract
begin

text \<open>
  What a statement cannot take back: apart from the list of current administrators, a stored row stays
  at its place in its table, and its identity columns keep their values. The identity of a row of a
  history is the whole row, which is what makes a history append-only.
\<close>

definition history_tables :: "tname set" where
  "history_tables =
     {T_user_hist_name, T_user_hist_profile_photo, T_user_hist_phone_num, T_user_hist_bio,
      T_user_hist_usernames_events, T_group_hist_title, T_group_hist_description, T_group_hist_photo,
      T_group_hist_usernames_events, T_private_message_edits, T_private_message_fwd_info,
      T_group_message_edits, T_group_message_fwd_info, T_group_admin_hist}"

definition identity :: "tname \<Rightarrow> string set" where
  "identity t =
     (if t \<in> history_tables then UNIV
      else if t = T_files then {''id'', ''tg_file_id'', ''file_type'', ''file_size'', ''sha256'', ''file_ext''}
      else if t \<in> {T_private_messages, T_group_messages} then {''id'', ''chat_id'', ''message_id''}
      else if t \<in> {T_user_usernames, T_group_usernames} then {''id'', ''username''}
      else {''id''})"

definition same_identity :: "tname \<Rightarrow> row \<Rightarrow> row \<Rightarrow> bool" where
  "same_identity t r r' \<longleftrightarrow> (\<forall>c\<in>identity t. r' c = r c)"

definition stays :: "row_rel" where
  "stays d d' \<longleftrightarrow> (\<forall>t. t \<noteq> T_group_admins \<longrightarrow>
     (\<exists>rs more. d' t = rs @ more \<and> list_all2 (same_identity t) (d t) rs))"

lemma same_identity_refl [simp]: "same_identity t r r"
  by (simp add: same_identity_def)

lemma same_identities_refl [simp]: "list_all2 (same_identity t) rs rs"
  by (simp add: list_all2_same)

lemma same_identity_trans: "same_identity t r r' \<Longrightarrow> same_identity t r' r'' \<Longrightarrow> same_identity t r r''"
  by (simp add: same_identity_def)

lemma stays_trans:
  assumes "stays d d'" and "stays d' d''"
  shows "stays d d''"
  unfolding stays_def
proof (intro allI impI)
  fix t assume t: "t \<noteq> T_group_admins"
  with assms(1) obtain rs more where d': "d' t = rs @ more" and one: "list_all2 (same_identity t) (d t) rs"
    unfolding stays_def by blast
  from assms(2) t obtain rs' more' where d'': "d'' t = rs' @ more'" and "list_all2 (same_identity t) (rs @ more) rs'"
    unfolding stays_def by (metis d')
  then obtain us vs where rs': "rs' = us @ vs" and two: "list_all2 (same_identity t) rs us"
    by (auto simp: list_all2_append1)
  have "list_all2 (same_identity t) (d t) us"
    by (rule list_all2_trans [OF _ one two]) (rule same_identity_trans)
  with d'' rs' show "\<exists>rs more. d'' t = rs @ more \<and> list_all2 (same_identity t) (d t) rs" by auto
qed

lemma same_identity_mem: "list_all2 (same_identity t) rs rs' \<Longrightarrow> r \<in> set rs \<Longrightarrow> \<exists>r'\<in>set rs'. same_identity t r r'"
  by (induction rule: list_all2_induct) auto

text \<open>What follows for a table: its ids remain, and a history is only appended to.\<close>

lemma stays_ids: "stays d d' \<Longrightarrow> t \<noteq> T_group_admins \<Longrightarrow> ids (d t) \<subseteq> ids (d' t)"
proof
  fix i assume "stays d d'" "t \<noteq> T_group_admins" "i \<in> ids (d t)"
  then obtain rs more r where d': "d' t = rs @ more" and all: "list_all2 (same_identity t) (d t) rs"
    and r: "r \<in> set (d t)" "i = r ''id''"
    unfolding stays_def ids_def by blast
  from all r(1) obtain r' where "r' \<in> set rs" "same_identity t r r'" by (blast dest: same_identity_mem)
  moreover have "''id'' \<in> identity t" by (simp add: identity_def)
  ultimately show "i \<in> ids (d' t)" using r(2) unfolding d' ids_def same_identity_def by (metis Un_iff image_eqI set_append)
qed

lemma stays_appends: "stays d d' \<Longrightarrow> appends history_tables d d'"
  unfolding appends_def
proof
  fix t assume "stays d d'" and t: "t \<in> history_tables"
  then obtain rs more where d': "d' t = rs @ more" and "list_all2 (same_identity t) (d t) rs"
    unfolding stays_def history_tables_def by blast
  moreover have "same_identity t = (=)"
    using t by (auto simp: same_identity_def identity_def fun_eq_iff)
  ultimately show "\<exists>rs. d' t = d t @ rs" by (simp add: list.rel_eq)
qed

section \<open>The statements that keep identities\<close>

primrec keeping :: "sql_stmt \<Rightarrow> bool" where
  "keeping (Insert t cols vals odku) \<longleftrightarrow> (\<forall>ups. odku = Some ups \<longrightarrow> set ups \<inter> identity t = {})"
| "keeping (Update t join sets wh) \<longleftrightarrow> set (map fst sets) \<inter> identity t = {}"
| "keeping (Delete t wh) \<longleftrightarrow> t = T_group_admins"

lemma kept_first:
  assumes "find P rs = Some old" and "same_identity t old upd"
  shows "list_all2 (same_identity t) rs (map_first P (\<lambda>_. upd) rs)"
  using assms by (induction rs) auto

lemma stays_table:
  assumes "\<And>t'. t' \<noteq> t \<Longrightarrow> d' t' = d t'"
    and "t \<noteq> T_group_admins \<Longrightarrow> \<exists>rs more. d' t = rs @ more \<and> list_all2 (same_identity t) (d t) rs"
  shows "stays d d'"
  unfolding stays_def using assms by (metis append.right_neutral same_identities_refl)

lemma stays_stmt:
  assumes keeping: "keeping st" and ex: "exec_stmt w args st d au = Inr (d', au')"
  shows "stays d d'"
proof (rule stays_table [where t = "stmt_table st"])
  show "d' t' = d t'" if "t' \<noteq> stmt_table st" for t' using exec_stmt_frame [OF ex that] .
  show "\<exists>rs more. d' (stmt_table st) = rs @ more \<and> list_all2 (same_identity (stmt_table st)) (d (stmt_table st)) rs"
    if "stmt_table st \<noteq> T_group_admins"
  proof (cases st)
    case (Insert t cols vals odku)
    show ?thesis
    proof (cases odku)
      case None
      with exec_insert_append [OF ex [unfolded Insert None]] Insert show ?thesis by auto
    next
      case (Some ups)
      let ?new = "new_row w args t cols vals au"
      have same: "same_identity t old (copy_cols ups ?new old)" for old
        using keeping Insert Some by (auto simp: same_identity_def copy_cols_apply)
      show ?thesis
      proof (cases "find (conflict w t ?new) (d t)")
        case None
        with ex [unfolded Insert Some] show ?thesis by (auto simp: Insert exec_upsert_Inr_iff Let_def)
      next
        case found: (Some old)
        with ex [unfolded Insert Some] kept_first [OF found same] show ?thesis
          by (auto simp: Insert exec_upsert_Inr_iff Let_def intro: exI [of _ "[]"])
      qed
    qed
  next
    case (Update t join sets wh)
    let ?u = "apply_sets w args (join_id w args join (d t)) sets"
    have "same_identity t r (?u r)" for r
      using keeping Update by (fastforce simp: same_identity_def disjoint_iff simp del: set_map intro!: apply_sets_frame)
    moreover have "d' t = map (\<lambda>r. if match w args wh r then ?u r else r) (d t)"
      using ex [unfolded Update] by (auto simp: exec_update_Inr_iff Let_def)
    ultimately show ?thesis
      using Update by (intro exI [of _ "d' t"] exI [of _ "[]"]) (simp add: list_all2_conv_all_nth)
  qed (use keeping that in simp)
qed

interpretation permanence: row_relation stays keeping
proof unfold_locales
  show "stays d d" for d by (rule stays_table) auto
qed (rule stays_trans stays_stmt; assumption)+

end
