(* ===== verification/Tg_App.thy ===== *)
theory Tg_App
  imports Tg_Store Td_Client Db_Permanence Db_Admins Db_Message_Props Db_Profile_Props
begin

text \<open>
  src/tgloggerd/TgLoggerd.cpp, the handlers: which job each event of the client posts to which pool,
  and what the jobs do. A job catches what the database throws and only logs it. All jobs that touch
  the database, in whatever order and whatever fails, keep its integrity and only append to its
  histories.
\<close>

section \<open>Jobs\<close>

text \<open>The jobs of \<open>serial_\<close>; the last three are the links posted back by the workers of \<open>files_\<close>.\<close>

datatype serial_job =
    J_User User
  | J_FullInfo UserFullInfo
  | J_Group Group
  | J_Admins GroupAdminList
  | J_Private PrivateMessage
  | J_Group_Message GroupMessage
  | J_Reply MessageReply
  | J_Profile_Photo int int
  | J_Group_Photo int int
  | J_Message_File int int bool int

fun run_op :: "serial_job \<Rightarrow> unit tx" where
  "run_op (J_User u) = upsertUser u"
| "run_op (J_FullInfo fi) = upsertUserFullInfo fi"
| "run_op (J_Group g) = upsertGroup g"
| "run_op (J_Admins al) = syncGroupAdmins al"
| "run_op (J_Private pm) = upsertPrivateMessage pm"
| "run_op (J_Group_Message gm) = upsertGroupMessage gm"
| "run_op (J_Reply mr) =
     (if mr_is_group mr
      then setGroupMessageReply (mr_chat_id mr) (mr_message_id mr) (mr_reply_to_chat_id mr) (mr_reply_to_msg_id mr)
      else setPrivateMessageReply (mr_chat_id mr) (mr_message_id mr) (mr_reply_to_chat_id mr) (mr_reply_to_msg_id mr))"
| "run_op (J_Profile_Photo user_id fid) = setUserProfilePhoto user_id fid"
| "run_op (J_Group_Photo group_id fid) = setGroupPhoto group_id fid"
| "run_op (J_Message_File chat_id message_id is_group fid) =
     (if is_group then setGroupMessageFile chat_id message_id fid
      else setPrivateMessageFile chat_id message_id fid)"

definition run_job :: "serial_job \<Rightarrow> server \<Rightarrow> session \<Rightarrow> session" where
  "run_job j sv s = (case run_op j sv s of (Inl e, t) \<Rightarrow> t | (Inr _, t) \<Rightarrow> t)"

datatype file_job = F_Profile_Photo ProfilePhoto | F_Group_Photo GroupPhoto | F_Message_File MessageFile

section \<open>Handlers\<close>

text \<open>What the handlers installed by \<open>start\<close> post for an event; a text message is only logged.\<close>

fun serial_of :: "td_event \<Rightarrow> serial_job option" where
  "serial_of (E_User u) = Some (J_User u)"
| "serial_of (E_FullInfo fi) = Some (J_FullInfo fi)"
| "serial_of (E_Group g) = Some (J_Group g)"
| "serial_of (E_Admins al) = Some (J_Admins al)"
| "serial_of (E_Private pm) = Some (J_Private pm)"
| "serial_of (E_Group_Message gm) = Some (J_Group_Message gm)"
| "serial_of (E_Reply mr) = Some (J_Reply mr)"
| "serial_of _ = None"

fun file_of :: "td_event \<Rightarrow> file_job option" where
  "file_of (E_Photo p) = Some (F_Profile_Photo p)"
| "file_of (E_Group_Photo p) = Some (F_Group_Photo p)"
| "file_of (E_File mf) = Some (F_Message_File mf)"
| "file_of _ = None"

section \<open>File jobs\<close>

text \<open>Storing the file, and the link to post when an id was returned; an exception is only logged.\<close>

definition stored_link :: "(int \<Rightarrow> serial_job) \<Rightarrow> (exn + int option) \<times> fsys \<times> session \<Rightarrow>
    serial_job option \<times> fsys \<times> session" where
  "stored_link link res =
     (case res of
        (Inr (Some fid), fs, s) \<Rightarrow> (Some (link fid), fs, s)
      | (_, fs, s) \<Rightarrow> (None, fs, s))"

definition onProfilePhoto :: "host \<Rightarrow> string \<Rightarrow> ProfilePhoto \<Rightarrow> fsys \<Rightarrow> server \<Rightarrow> session \<Rightarrow>
    serial_job option \<times> fsys \<times> session" where
  "onProfilePhoto h sd p fs sv s = stored_link (J_Profile_Photo (pp_user_id p))
     (storeDownloadedFile h sd (pp_local_path p) (pp_tg_file_id p) (pp_file_size p) ''photo'' '''' fs sv s)"

definition onGroupPhoto :: "host \<Rightarrow> string \<Rightarrow> GroupPhoto \<Rightarrow> fsys \<Rightarrow> server \<Rightarrow> session \<Rightarrow>
    serial_job option \<times> fsys \<times> session" where
  "onGroupPhoto h sd p fs sv s = stored_link (J_Group_Photo (gp_group_id p))
     (storeDownloadedFile h sd (gp_local_path p) (gp_tg_file_id p) (gp_file_size p) ''photo'' '''' fs sv s)"

definition onMessageFile :: "host \<Rightarrow> string \<Rightarrow> MessageFile \<Rightarrow> fsys \<Rightarrow> server \<Rightarrow> session \<Rightarrow>
    serial_job option \<times> fsys \<times> session" where
  "onMessageFile h sd m fs sv s =
     stored_link (J_Message_File (mf_chat_id m) (mf_message_id m) (mf_is_group m))
       (storeDownloadedFile h sd (mf_local_path m) (mf_tg_file_id m) (mf_file_size m) (mf_content_type m)
          (mf_orig_file_name m) fs sv s)"

fun run_file_job :: "host \<Rightarrow> string \<Rightarrow> file_job \<Rightarrow> fsys \<Rightarrow> server \<Rightarrow> session \<Rightarrow>
    serial_job option \<times> fsys \<times> session" where
  "run_file_job h sd (F_Profile_Photo p) fs sv s = onProfilePhoto h sd p fs sv s"
| "run_file_job h sd (F_Group_Photo p) fs sv s = onGroupPhoto h sd p fs sv s"
| "run_file_job h sd (F_Message_File m) fs sv s = onMessageFile h sd m fs sv s"

text \<open>The links a file job may post.\<close>

fun link_of :: "file_job \<Rightarrow> int \<Rightarrow> serial_job" where
  "link_of (F_Profile_Photo p) = J_Profile_Photo (pp_user_id p)"
| "link_of (F_Group_Photo p) = J_Group_Photo (gp_group_id p)"
| "link_of (F_Message_File m) = J_Message_File (mf_chat_id m) (mf_message_id m) (mf_is_group m)"

lemma stored_link_of: "stored_link l res = (Some j, fs, s) \<Longrightarrow> \<exists>fid. j = l fid \<and> res = (Inr (Some fid), fs, s)"
  by (cases res) (auto simp: stored_link_def split: sum.splits option.splits)

lemma run_file_job_link: "run_file_job h sd f fs sv s = (Some j, fs', t) \<Longrightarrow> \<exists>fid. j = link_of f fid"
  by (cases f) (auto simp: onProfilePhoto_def onGroupPhoto_def onMessageFile_def dest: stored_link_of)

section \<open>The database under any sequence of jobs\<close>

text \<open>A job is a transaction over a body, or one statement outside a transaction.\<close>

fun job_body :: "serial_job \<Rightarrow> unit tx option" where
  "job_body (J_User u) = Some (upsertUser_body u)"
| "job_body (J_FullInfo fi) = Some (upsertUserFullInfo_body fi)"
| "job_body (J_Group g) = Some (upsertGroup_body g)"
| "job_body (J_Admins al) = Some (syncGroupAdmins_body al)"
| "job_body (J_Private pm) = Some (upsertPrivateMessage_body pm)"
| "job_body (J_Group_Message gm) = Some (upsertGroupMessage_body gm)"
| "job_body (J_Profile_Photo user_id fid) = Some (setUserProfilePhoto_body user_id fid)"
| "job_body (J_Group_Photo group_id fid) = Some (setGroupPhoto_body group_id fid)"
| "job_body _ = None"

definition job_updates :: "sql_stmt set" where
  "job_updates = {pm_file_sql, gm_file_sql, pm_reply_sql, gm_reply_sql}"

lemma run_op_transaction: "job_body j = Some fn \<Longrightarrow> run_op j = transaction fn"
  by (cases j)
    (auto simp: upsertUser_def upsertUserFullInfo_def upsertGroup_def syncGroupAdmins_def
      upsertPrivateMessage_def upsertGroupMessage_def setUserProfilePhoto_def setGroupPhoto_def)

lemma run_op_shape:
  "(\<exists>fn. job_body j = Some fn \<and> run_op j = transaction fn) \<or>
   (\<exists>st\<in>job_updates. \<exists>args. run_op j = db_execute st args)"
proof (cases "job_body j")
  case None
  then show ?thesis
    by (cases j) (auto simp: job_updates_def setPrivateMessageFile_def setGroupMessageFile_def
        setPrivateMessageReply_def setGroupMessageReply_def)
qed (use run_op_transaction in blast)

text \<open>Every SQL statement that changes rows in a transaction of a job: on the tables of a message family,
  and on the others.\<close>

definition profile_statements :: "sql_stmt set" where
  "profile_statements =
     {user_event_sql, user_release_sql, user_claim_sql, user_upsert_sql, user_name_sql, user_phone_sql,
      user_photo_hist_sql, user_photo_sql, user_bio_hist_sql, user_full_sql,
      group_event_sql, group_release_sql, group_claim_sql, group_upsert_sql, group_title_sql,
      group_description_sql, group_photo_hist_sql, group_photo_sql,
      admin_upsert_sql, admin_hist_sql, admin_delete_sql, file_hit_sql, file_insert_sql}"

definition private_statements :: "sql_stmt set" where
  "private_statements = {pm_upsert_sql, delete_sql T_private_messages,
     edit_insert_sql T_private_message_edits ''private_message_id'',
     fwd_insert_sql T_private_message_fwd_info ''private_message_id''}"

definition group_statements :: "sql_stmt set" where
  "group_statements = {gm_upsert_sql, delete_sql T_group_messages,
     edit_insert_sql T_group_message_edits ''group_message_id'',
     fwd_insert_sql T_group_message_fwd_info ''group_message_id''}"

definition job_statements :: "sql_stmt set" where
  "job_statements = profile_statements \<union> private_statements \<union> group_statements"

context stmt_relation
begin

lemma profile_bodies_keep:
  assumes "\<And>st. st \<in> profile_statements \<Longrightarrow> allowed st"
  shows "keeps R (upsertUser_body u)" and "keeps R (upsertUserFullInfo_body fi)"
    and "keeps R (setUserProfilePhoto_body i f)" and "keeps R (upsertGroup_body g)"
    and "keeps R (setGroupPhoto_body i f)" and "keeps R (syncGroupAdmins_body al)"
  unfolding upsertUser_body_def user_history_def upsertUserFullInfo_body_def setUserProfilePhoto_body_def
    trackProfilePhotoChange_def upsertGroup_body_def group_history_def setGroupPhoto_body_def
    trackGroupPhotoChange_def Let_def
  by (intro keeps_rules syncUsernames_keeps syncGroupUsernames_keeps syncGroupAdmins_keeps assms;
      simp add: profile_statements_def)+

lemma private_body_keeps:
  assumes "\<And>st. st \<in> private_statements \<Longrightarrow> allowed st"
  shows "keeps R (upsertPrivateMessage_body x)"
  unfolding pm.body_eq
  by (intro message_upsert_keeps assms; simp add: private_statements_def pm_upsert_sql_def)

lemma group_body_keeps:
  assumes "\<And>st. st \<in> group_statements \<Longrightarrow> allowed st"
  shows "keeps R (upsertGroupMessage_body y)"
  unfolding gm.body_eq
  by (intro message_upsert_keeps assms; simp add: group_statements_def gm_upsert_sql_def)

lemma job_body_keeps:
  assumes "\<And>st. st \<in> job_statements \<Longrightarrow> allowed st" and "job_body j = Some fn"
  shows "keeps R fn"
  using assms(2) profile_bodies_keep [OF assms(1)] private_body_keeps [OF assms(1)] group_body_keeps [OF assms(1)]
  by (cases j) (auto simp: job_statements_def)

lemma file_body_keeps:
  assumes "\<And>st. st \<in> profile_statements \<Longrightarrow> allowed st"
  shows "keeps R (upsertFile_body f)"
  by (intro upsertFile_keeps assms) (simp_all add: profile_statements_def)

end


text \<open>No statement of a job touches an identity, nor deletes anything but a current administrator.\<close>

lemma statements_keeping: "st \<in> job_statements \<union> job_updates \<Longrightarrow> keeping st"
  unfolding job_statements_def profile_statements_def private_statements_def group_statements_def job_updates_def
  by (elim UnE insertE emptyE; simp add: identity_def history_tables_def sql_defs delete_sql_def
      user_columns_def admin_value_columns_def admin_right_columns_def)

lemma body_contracts:
  assumes "job_body j = Some fn"
  shows "keeps isolation fn" and "keeps (on_view db_ok) fn"
    and "keeps (view_rel stays) fn"
  using assms
  by (auto intro!: iso.job_body_keeps integrity.job_body_keeps permanence.job_body_keeps statements_keeping)

lemma file_contracts:
  "keeps isolation (upsertFile_body f)" "keeps (on_view db_ok) (upsertFile_body f)"
  "keeps (view_rel stays) (upsertFile_body f)"
  by (auto intro!: iso.file_body_keeps integrity.file_body_keeps permanence.file_body_keeps statements_keeping
      simp: job_statements_def)

text \<open>What one job guarantees: integrity is kept, and what is committed stays.\<close>

definition sound :: "server \<Rightarrow> session \<Rightarrow> bool" where
  "sound sv s \<longleftrightarrow> both_ok db_ok sv s \<and> stays (disk s) (view s)"

definition safe_step :: "server \<Rightarrow> session \<Rightarrow> session \<Rightarrow> bool" where
  "safe_step sv s t \<longleftrightarrow> (sound sv s \<longrightarrow> sound sv t \<and> stays (disk s) (disk t))"

lemma safe_transaction:
  assumes "keeps isolation fn" and "keeps (on_view db_ok) fn"
    and "keeps (view_rel stays) fn" and run: "transaction fn sv s = (r, t)"
  shows "safe_step sv s t"
  unfolding safe_step_def sound_def
  using integrity.transaction_both_ok [OF assms(1,2) run] permanence.transaction_related [OF assms(1,3) run]
  by blast

lemma safe_execute:
  assumes "st \<in> job_updates" and run: "db_execute st args sv s = (r, t)"
  shows "safe_step sv s t"
  unfolding safe_step_def sound_def
  using integrity.execute_both_ok [OF run] permanence.execute_related [OF run] statements_keeping [of st] assms(1)
  by blast

lemma safe_refl: "safe_step sv s s"
  by (simp add: safe_step_def permanence.Q_refl)

lemma safe_trans: "safe_step sv s t \<Longrightarrow> safe_step sv t u \<Longrightarrow> safe_step sv s u"
  unfolding safe_step_def by (meson permanence.Q_trans)

lemma run_job_safe: "safe_step sv s (run_job j sv s)"
proof -
  obtain r t where run: "run_op j sv s = (r, t)" by (cases "run_op j sv s")
  have "safe_step sv s t"
    using run_op_shape [of j]
  proof (elim disjE exE conjE bexE)
    fix fn assume "job_body j = Some fn" and "run_op j = transaction fn"
    with run show ?thesis by (intro safe_transaction [OF body_contracts]) simp_all
  next
    fix st args assume "st \<in> job_updates" and "run_op j = db_execute st args"
    with run show ?thesis by (intro safe_execute) simp_all
  qed
  then show ?thesis by (simp add: run_job_def run split: sum.split)
qed

lemma upsertFile_safe: "upsertFile f sv s = (r, t) \<Longrightarrow> safe_step sv s t"
  unfolding upsertFile_def by (rule safe_transaction [OF file_contracts])

lemma storeDownloadedFile_safe:
  "storeDownloadedFile h sd path tid sz ty orig fs sv s = (r, fs', t) \<Longrightarrow> safe_step sv s t"
  by (auto simp: storeDownloadedFile_def Let_def safe_refl
      split: option.splits if_splits prod.splits sum.splits bool.splits dest: upsertFile_safe)

lemma run_file_job_safe: "run_file_job h sd f fs sv s = (l, fs', t) \<Longrightarrow> safe_step sv s t"
  by (cases f)
    (auto simp: onProfilePhoto_def onGroupPhoto_def onMessageFile_def stored_link_def
      split: prod.splits sum.splits option.splits dest: storeDownloadedFile_safe)

text \<open>The file store is kept content-addressed, and no file of the file system changes.\<close>

lemma storeDownloadedFile_addressed:
  assumes "storeDownloadedFile h sd path tid sz ty orig fs sv s = (r, fs', t)" and "addressed h sd fs"
    and io: "io_sound h"
  shows "addressed h sd fs' \<and> fs \<subseteq>\<^sub>m fs'"
proof (cases "fs' = fs")
  case False
  with assms(1) obtain hex ok where hex: "sha256_file_hex h fs path = Some hex"
    and copy: "copy_file h path (stored_path sd hex (file_extension path)) fs = (ok, fs')"
    by (auto simp: storeDownloadedFile_def Let_def split: option.splits if_splits prod.splits sum.splits bool.splits)
  from hex obtain content where "fs path = Some content" "length (sha256 h content) = 32"
    and "hex = hex_of (sha256 h content)" by (auto simp: sha256_file_hex_Some [OF io])
  with copied_file [OF assms(2) _ _ io] copy have "addressed h sd fs' \<and> (\<forall>p. fs p \<noteq> None \<longrightarrow> fs' p = fs p)"
    by blast
  then show ?thesis unfolding map_le_def by auto
qed (simp add: assms(2))

lemma run_file_job_addressed:
  assumes "run_file_job h sd f fs sv s = (l, fs', t)" and "addressed h sd fs" and "io_sound h"
  shows "addressed h sd fs'"
  using assms
  by (cases f)
    (auto simp: onProfilePhoto_def onGroupPhoto_def onMessageFile_def stored_link_def
      split: prod.splits sum.splits option.splits dest: storeDownloadedFile_addressed)

lemma run_file_job_keeps: "run_file_job h sd f fs sv s = (l, fs', t) \<Longrightarrow> fs \<subseteq>\<^sub>m fs'"
  by (cases f)
    (auto simp: onProfilePhoto_def onGroupPhoto_def onMessageFile_def stored_link_def
      split: prod.splits sum.splits option.splits dest: storeDownloadedFile_keeps)

text \<open>
  What the workers do to the file system and the database, as a sequence: jobs of \<open>serial_\<close>, jobs of
  \<open>files_\<close>, and the change to another connection, which sees what is committed.
\<close>

datatype activity = Serial serial_job | Filing file_job | Reconnect

fun run_activity :: "host \<Rightarrow> string \<Rightarrow> server \<Rightarrow> activity \<Rightarrow> fsys \<times> session \<Rightarrow> fsys \<times> session" where
  "run_activity h sd sv (Serial j) (fs, s) = (fs, run_job j sv s)"
| "run_activity h sd sv (Filing f) (fs, s) = snd (run_file_job h sd f fs sv s)"
| "run_activity h sd sv Reconnect (fs, s) = (fs, s\<lparr>view := disk s, autoc := True\<rparr>)"

definition run_activities :: "host \<Rightarrow> string \<Rightarrow> server \<Rightarrow> activity list \<Rightarrow> fsys \<times> session \<Rightarrow> fsys \<times> session" where
  "run_activities h sd sv as st = fold (run_activity h sd sv) as st"

lemma run_activity_safe:
  assumes "run_activity h sd sv a (fs, s) = (fs', t)"
  shows "safe_step sv s t \<and> fs \<subseteq>\<^sub>m fs' \<and> (io_sound h \<and> addressed h sd fs \<longrightarrow> addressed h sd fs')"
proof (cases a)
  case (Filing f)
  obtain l fs2 u where run: "run_file_job h sd f fs sv s = (l, fs2, u)" by (cases "run_file_job h sd f fs sv s")
  with assms Filing have "fs' = fs2" "t = u" by simp_all
  with run_file_job_safe [OF run] run_file_job_keeps [OF run] run_file_job_addressed [OF run] show ?thesis by blast
next
  case Reconnect
  with assms have "fs' = fs" and "t = s\<lparr>view := disk s, autoc := True\<rparr>" by simp_all
  then show ?thesis by (simp add: safe_step_def sound_def both_ok_def permanence.Q_refl)
qed (use assms run_job_safe in auto)

text \<open>C8: nothing the workers do damages what is stored. Whatever jobs run, in whatever order, on
  whichever connections and whichever calls to the server and the file system fail, the database keeps
  its integrity (unique keys, foreign keys, id counters), in what is committed and in what the
  connection sees; every committed row stays at its place with its identity columns (ids, message keys,
  usernames, what a file is), the list of current administrators apart; the histories are only appended
  to; and no existing file changes. If moreover no read and no copy breaks off in the middle of a file,
  every stored file stays under the digest of its content.\<close>

theorem jobs_safe:
  assumes "both_ok db_ok sv s" and "stays (disk s) (view s)"
    and run: "run_activities h sd sv acts (fs, s) = (fs', t)"
  shows "both_ok db_ok sv t \<and> stays (disk s) (disk t) \<and> appends history_tables (disk s) (disk t) \<and>
    fs \<subseteq>\<^sub>m fs' \<and> (io_sound h \<and> addressed h sd fs \<longrightarrow> addressed h sd fs')"
proof -
  have "safe_step sv s t \<and> fs \<subseteq>\<^sub>m fs' \<and> (io_sound h \<and> addressed h sd fs \<longrightarrow> addressed h sd fs')"
    using run unfolding run_activities_def
  proof (induction acts arbitrary: fs s)
    case Nil
    then show ?case by (simp add: safe_refl)
  next
    case (Cons a acts)
    obtain fs2 u where one: "run_activity h sd sv a (fs, s) = (fs2, u)"
      by (cases "run_activity h sd sv a (fs, s)")
    with Cons have "safe_step sv u t \<and> fs2 \<subseteq>\<^sub>m fs' \<and> (io_sound h \<and> addressed h sd fs2 \<longrightarrow> addressed h sd fs')" by simp
    with run_activity_safe [OF one] show ?case by (meson map_le_trans safe_trans)
  qed
  with assms(1,2) show ?thesis by (auto simp: safe_step_def sound_def intro: stays_appends)
qed

definition example_host :: host where
  "example_host = \<lparr>sha256 = (\<lambda>c. replicate 32 (if c = [] then 0 else hd c)), evp_ok = True,
     read_end = (\<lambda>_. None), mkdir_ok = (\<lambda>_. True), copying = (\<lambda>_. Copied)\<rparr>"

definition example_acts :: "activity list" where
  "example_acts = [Serial (J_Group \<lparr>g_id = 5, g_type = Gt_Channel, g_title = ''t'', g_description = ''d'',
       g_photo_file_id = None, g_active_usernames = [''n''], g_disabled_usernames = [],
       g_collectible_usernames = []\<rparr>),
     Reconnect, Filing (F_Group_Photo \<lparr>gp_group_id = 5, gp_local_path = ''/in/a.JPG'', gp_tg_file_id = ''R'',
       gp_file_size = 1\<rparr>),
     Serial (J_Group_Photo 5 1)]"

theorem jobs_safe_witness:
  "both_ok db_ok quiet (snd (run_activities example_host ''s'' quiet example_acts
     ([''/in/a.JPG'' \<mapsto> [7]], empty_session))) \<and>
   addressed example_host ''s'' (fst (run_activities example_host ''s'' quiet example_acts
     ([''/in/a.JPG'' \<mapsto> [7]], empty_session)))"
proof -
  have "both_ok db_ok quiet empty_session"
    using db_ok_empty by (simp add: both_ok_def empty_session_def)
  moreover have "stays (disk empty_session) (view empty_session)"
    by (simp add: permanence.Q_refl empty_session_def)
  moreover have "addressed example_host ''s'' [''/in/a.JPG'' \<mapsto> [7]]"
  proof -
    have "hd (stored_path ''s'' (hex_of d) ext) = CHR ''s''" if "length d = 32" for d ext
      unfolding stored_path_eq [OF that] by (simp add: slash_def)
    moreover have "hd ''/in/a.JPG'' \<noteq> CHR ''s''" by simp
    ultimately have "stored_path ''s'' (hex_of d) ext \<noteq> ''/in/a.JPG''" if "length d = 32" for d ext
      using that by metis
    then show ?thesis by (simp add: addressed_def)
  qed
  moreover have "io_sound example_host" by (simp add: io_sound_def example_host_def)
  ultimately have "both_ok db_ok quiet t \<and> addressed example_host ''s'' fs" if "run_activities example_host ''s'' quiet example_acts
      ([''/in/a.JPG'' \<mapsto> [7]], empty_session) = (fs, t)" for fs t
    using jobs_safe [OF _ _ that] by simp
  then show ?thesis by (metis prod.collapse)
qed

end
