(* ===== verification/Tg_Monitor.thy ===== *)
theory Tg_Monitor
  imports Tg_Prelude
begin

text \<open>
  Threads around a mutex and condition variables. A step is one thread passing through one critical
  section; which thread moves is not determined. The theory holds what the two pools share: the
  states a step relation reaches, the number of threads at a program point, and the locale
  \<open>monitor\<close>, the contract of a condition variable: whatever becomes available while threads wait
  is matched by a thread that has been woken or is about to notify.
\<close>

section \<open>Reachable states\<close>

inductive reach :: "('s \<Rightarrow> bool) \<Rightarrow> ('s \<Rightarrow> 's \<Rightarrow> bool) \<Rightarrow> 's \<Rightarrow> bool" for init step where
  reach_init: "init s \<Longrightarrow> reach init step s"
| reach_step: "reach init step s \<Longrightarrow> step s t \<Longrightarrow> reach init step t"

lemma reach_invariant:
  assumes "reach init step s" and "\<And>s. init s \<Longrightarrow> I s" and "\<And>s t. I s \<Longrightarrow> step s t \<Longrightarrow> I t"
  shows "I s"
  using assms(1) by (induction rule: reach.induct) (auto intro: assms(2,3))

section \<open>Counting threads\<close>

text \<open>\<open>count_at P f\<close>: how many threads are at a program point in \<open>P\<close>.\<close>

definition count_at :: "('p \<Rightarrow> bool) \<Rightarrow> (nat \<Rightarrow> 'p) \<Rightarrow> nat" where
  "count_at P f = card {i. P (f i)}"

lemma count_at_split:
  assumes "finite {j. P (f j) \<and> j \<noteq> i}"
  shows "count_at P f = card {j. P (f j) \<and> j \<noteq> i} + (if P (f i) then 1 else 0)"
proof -
  have "{j. P (f j)} = (if P (f i) then insert i {j. P (f j) \<and> j \<noteq> i} else {j. P (f j) \<and> j \<noteq> i})"
    by auto
  moreover have "card (insert i {j. P (f j) \<and> j \<noteq> i}) = Suc (card {j. P (f j) \<and> j \<noteq> i})"
    by (rule card_insert_disjoint [OF assms]) simp
  ultimately show ?thesis by (simp add: count_at_def)
qed

lemma count_at_upd:
  assumes "finite {i. P (f i)}"
  shows "count_at P (f(i := x)) + (if P (f i) then 1 else 0) = count_at P f + (if P x then 1 else 0)"
proof -
  have fin: "finite {j. P (f j) \<and> j \<noteq> i}" by (rule finite_subset [OF _ assms]) auto
  have same: "{j. P ((f(i := x)) j) \<and> j \<noteq> i} = {j. P (f j) \<and> j \<noteq> i}" by auto
  show ?thesis
    using count_at_split [of P "f(i := x)" i] count_at_split [of P f i, OF fin] fin unfolding same by simp
qed

text \<open>All threads but finitely many are at the program point \<open>z\<close>, outside of the component.\<close>

definition finite_off :: "'p \<Rightarrow> (nat \<Rightarrow> 'p) \<Rightarrow> bool" where
  "finite_off z f \<longleftrightarrow> finite {i. f i \<noteq> z}"

lemma finite_off_upd [simp]: "finite_off z (f(i := x)) = finite_off z f"
proof -
  have "{j. (f(i := x)) j \<noteq> z} \<subseteq> insert i {j. f j \<noteq> z}" and "{j. f j \<noteq> z} \<subseteq> insert i {j. (f(i := x)) j \<noteq> z}"
    by auto
  then show ?thesis unfolding finite_off_def by (meson finite_insert finite_subset)
qed

lemma finite_off_const [simp]: "finite_off z (\<lambda>_. z)"
  by (simp add: finite_off_def)

lemma finite_off_at: "finite_off z f \<Longrightarrow> \<not> P z \<Longrightarrow> finite {i. P (f i)}"
  unfolding finite_off_def by (rule finite_subset [rotated]) auto

lemma count_move:
  assumes "finite_off z f" and "\<not> P z"
  shows "count_at P (f(i := x)) + (if P (f i) then 1 else 0) = count_at P f + (if P x then 1 else 0)"
  by (rule count_at_upd) (use assms in \<open>blast intro: finite_off_at\<close>)

lemma count_at_change:
  "finite_off z f \<Longrightarrow> \<not> P z \<Longrightarrow>
     count_at P (f(i := x)) = count_at P f + (if P x then 1 else 0) - (if P (f i) then 1 else 0)"
  using count_move [of z f P i x] by simp

lemma count_at_off [simp]: "\<not> P z \<Longrightarrow> count_at P (\<lambda>_. z) = 0"
  by (simp add: count_at_def)

lemma count_at_pos: "finite_off z f \<Longrightarrow> \<not> P z \<Longrightarrow> 0 < count_at P f \<longleftrightarrow> (\<exists>i. P (f i))"
  using finite_off_at [of z f P] by (auto simp: count_at_def card_gt_0_iff)

lemma count_at_0: "finite_off z f \<Longrightarrow> \<not> P z \<Longrightarrow> count_at P f = 0 \<longleftrightarrow> (\<forall>i. \<not> P (f i))"
  using finite_off_at [of z f P] by (auto simp: count_at_def)

lemma sum_upd:
  fixes g :: "'p \<Rightarrow> 'a :: cancel_comm_monoid_add" and i n :: nat
  assumes "i < n"
  shows "(\<Sum>k<n. g ((f(i := x)) k)) + g (f i) = (\<Sum>k<n. g (f k)) + g x"
proof -
  have i: "i \<in> {..<n}" using assms by simp
  have same: "(\<Sum>k\<in>{..<n} - {i}. g ((f(i := x)) k)) = (\<Sum>k\<in>{..<n} - {i}. g (f k))"
    by (rule sum.cong) simp_all
  have "(\<Sum>k<n. g ((f(i := x)) k)) = g x + (\<Sum>k\<in>{..<n} - {i}. g (f k))"
    by (subst sum.remove [OF finite_lessThan i]) (simp only: same fun_upd_same)
  moreover have "(\<Sum>k<n. g (f k)) = g (f i) + (\<Sum>k\<in>{..<n} - {i}. g (f k))"
    by (rule sum.remove [OF finite_lessThan i])
  ultimately show ?thesis by (simp add: ac_simps)
qed

section \<open>Condition variables\<close>

text \<open>
  \<open>waiting\<close>: threads blocked on the variable; \<open>avail\<close>: units of what they wait for; \<open>credit\<close>:
  threads woken and not yet back in the lock, and threads that still have to notify. A step leaves
  nobody waiting, or nothing available, or it turns each new unit into credit and gives up no more
  credit than units.
\<close>

locale monitor =
  fixes init :: "'s \<Rightarrow> bool" and step :: "'s \<Rightarrow> 's \<Rightarrow> bool" and inv :: "'s \<Rightarrow> bool"
    and waiting avail credit :: "'s \<Rightarrow> nat"
  assumes start: "init s \<Longrightarrow> inv s \<and> waiting s = 0"
    and inv_step: "inv s \<Longrightarrow> step s t \<Longrightarrow> inv t"
    and credit_step: "inv s \<Longrightarrow> step s t \<Longrightarrow>
      waiting t = 0 \<or> avail t = 0 \<or> 0 < waiting s \<and> avail t + credit s \<le> avail s + credit t"
begin

lemma reach_inv: "reach init step s \<Longrightarrow> inv s"
  by (erule reach_invariant) (auto dest: start intro: inv_step)

lemma no_lost_wakeup: "reach init step s \<Longrightarrow> 0 < waiting s \<Longrightarrow> avail s \<le> credit s"
proof (induction rule: reach.induct)
  case (reach_init s)
  then show ?case by (auto dest: start)
next
  case (reach_step s t)
  from credit_step [OF reach_inv [OF reach_step.hyps(1)] reach_step.hyps(2)] reach_step
  show ?case by auto
qed

end

end
