(* ===== verification/Td_Trace.thy ===== *)
theory Td_Trace
  imports Td_Client Tg_Monitor
begin

text \<open>
  What the client's functions do to its queries and events, as sequences of a few elementary
  actions: emitting an event, sending a query, remembering a download. Every function is shown
  once to be such a sequence; an invariant then has to be checked for the actions only. An action
  carries the guard under which the code performs it; in particular a file or a reply is linked
  only when the message it belongs to has been announced before.
\<close>

named_theorems td_acts
  \<comment> \<open>introduction rules: a function extends a sequence of actions\<close>

section \<open>Elementary actions\<close>

text \<open>The announcement of a message; the report of its deletion is none.\<close>

definition announces :: "int \<Rightarrow> int \<Rightarrow> bool \<Rightarrow> td_event \<Rightarrow> bool" where
  "announces c i is_group e \<longleftrightarrow>
     (case e of
        E_Private pm \<Rightarrow> \<not> is_group \<and> pm_chat_id pm = c \<and> pm_message_id pm = i \<and> \<not> pm_is_deleted pm
      | E_Group_Message gm \<Rightarrow> is_group \<and> gm_chat_id gm = c \<and> gm_message_id gm = i \<and> \<not> gm_is_deleted gm
      | _ \<Rightarrow> False)"

definition announced :: "int \<Rightarrow> int \<Rightarrow> bool \<Rightarrow> td_event list \<Rightarrow> bool" where
  "announced c i is_group es \<longleftrightarrow> (\<exists>e\<in>set es. announces c i is_group e)"

definition reply_announced :: "MessageReply \<Rightarrow> td_event list \<Rightarrow> bool" where
  "reply_announced mr es \<longleftrightarrow> announced (mr_chat_id mr) (mr_message_id mr) (mr_is_group mr) es"

text \<open>The categories of media a file can have.\<close>

definition media_categories :: "string list" where
  "media_categories = [''photo'', ''video'', ''document'', ''audio'', ''voice'', ''sticker'', ''animation'']"

lemma message_content_file_category:
  "message_content_file m = Some (f, category, name) \<Longrightarrow> category \<in> set media_categories"
  by (cases m) (auto simp: message_content_file_def media_categories_def split: option.splits)

text \<open>What may precede an event \<open>e\<close>, and what it may be.\<close>

definition event_ok :: "td_event list \<Rightarrow> td_event \<Rightarrow> bool" where
  "event_ok es e \<longleftrightarrow>
     (case e of
        E_Private pm \<Rightarrow> is_private_chat (pm_chat_id pm)
      | E_Group_Message gm \<Rightarrow> \<not> is_private_chat (gm_chat_id gm)
      | E_File mf \<Rightarrow> mf_content_type mf \<in> set media_categories \<and>
          announced (mf_chat_id mf) (mf_message_id mf) (mf_is_group mf) es
      | E_Reply mr \<Rightarrow> reply_announced mr es
      | E_Admins al \<Rightarrow> al_admins al \<noteq> []
      | _ \<Rightarrow> True)"

definition ref_announced :: "PendingMsgFile \<Rightarrow> td_event list \<Rightarrow> bool" where
  "ref_announced ref es \<longleftrightarrow> pf_content_type ref \<in> set media_categories \<and>
     announced (pf_chat_id ref) (pf_message_id ref) (pf_is_group ref) es"

definition query_ok :: "td_event list \<Rightarrow> continuation option \<Rightarrow> bool" where
  "query_ok es k \<longleftrightarrow>
     (case k of
        Some (K_Reply mr depth) \<Rightarrow> depth < kMaxReplyDepth \<and> reply_announced mr es
      | Some K_Alarm \<Rightarrow> False
      | _ \<Rightarrow> True)"

text \<open>
  Three kinds of action are restricted to a set \<open>A\<close> of labels: emitting an administrator list,
  announcing a message of TDLib, and asking for the target of a reply at some depth.
\<close>

datatype label = L_List GroupAdminList | L_Said td_message | L_Reply nat

definition event_in :: "label set \<Rightarrow> td_event \<Rightarrow> bool" where
  "event_in A e \<longleftrightarrow>
     (case e of
        E_Admins al \<Rightarrow> L_List al \<in> A
      | E_Private pm \<Rightarrow> pm_is_deleted pm \<and> pm_sender_id pm = None \<and> pm_forward_info pm = None \<or>
          (\<exists>m. L_Said m \<in> A \<and> pm = build_private_message m)
      | E_Group_Message gm \<Rightarrow> gm_is_deleted gm \<and> gm_sender_user_id gm = None \<and> gm_sender_chat_id gm = None \<and>
          gm_forward_info gm = None \<or> (\<exists>m. L_Said m \<in> A \<and> gm = build_group_message m)
      | _ \<Rightarrow> True)"

definition events_in :: "label set \<Rightarrow> td_event list \<Rightarrow> bool" where
  "events_in A es \<longleftrightarrow> (\<forall>e\<in>set es. event_in A e)"

lemma events_in_simps [simp]:
  "events_in A []" "events_in A (e # es) \<longleftrightarrow> event_in A e \<and> events_in A es"
  "events_in A (es @ fs) \<longleftrightarrow> events_in A es \<and> events_in A fs"
  by (auto simp: events_in_def)

definition reply_in :: "label set \<Rightarrow> continuation option \<Rightarrow> bool" where
  "reply_in A k \<longleftrightarrow> (\<forall>mr d. k = Some (K_Reply mr d) \<longrightarrow> L_Reply d \<in> A)"

text \<open>The fields the actions below do not touch may change freely.\<close>

lemma events_in_admins: "events_in A es \<Longrightarrow> E_Admins al \<in> set es \<Longrightarrow> L_List al \<in> A"
  by (force simp: events_in_def event_in_def)

lemma event_in_UNIV: "event_in A e \<Longrightarrow> event_in UNIV e"
  by (cases e) (auto simp: event_in_def)

text \<open>Users and chats become known only after the event that introduces them.\<close>

definition user_introduced :: "int \<Rightarrow> td \<Rightarrow> bool" where
  "user_introduced i s \<longleftrightarrow> H_User \<notin> installed s \<or> (\<exists>u. E_User u \<in> set (events s) \<and> u_id u = i)"

definition chat_introduced :: "int \<Rightarrow> td \<Rightarrow> bool" where
  "chat_introduced c s \<longleftrightarrow> H_Group \<notin> installed s \<or> (\<exists>g. E_Group g \<in> set (events s) \<and> g_id g = c)"

definition same_trace :: "td \<Rightarrow> td \<Rightarrow> bool" where
  "same_trace s t \<longleftrightarrow>
     (events t, sent t, current_query_id t, continuations t, installed t, pending_message_file t) =
     (events s, sent s, current_query_id s, continuations s, installed s, pending_message_file s) \<and>
     (stopped t, closing t, is_authorized t, admin_poll_started t, admin_poll_interval t) =
     (stopped s, closing s, is_authorized s, admin_poll_started s, admin_poll_interval s) \<and>
     (known_users t, chat_to_group t) = (known_users s, chat_to_group s)"

inductive act :: "label set \<Rightarrow> td \<Rightarrow> td \<Rightarrow> bool" for A where
  act_frame: "same_trace s t \<Longrightarrow> act A s t"
| act_emit: "event_ok (events s) e \<Longrightarrow> event_in A e \<Longrightarrow> act A s (emit e s)"
| act_send: "query_ok (events s) k \<Longrightarrow> reply_in A k \<Longrightarrow> act A s (send_query q k s)"
| act_await: "ref_announced ref (events s) \<Longrightarrow>
    act A s (s\<lparr>pending_message_file := (pending_message_file s)(f \<mapsto> ref)\<rparr>)"
| act_forget: "act A s (s\<lparr>pending_message_file := (pending_message_file s)(f := None)\<rparr>)"
| act_user: "user_introduced i s \<Longrightarrow> act A s (s\<lparr>known_users := (known_users s)(i \<mapsto> u)\<rparr>)"
| act_chat: "chat_introduced c s \<Longrightarrow>
    act A s (s\<lparr>group_state := gs, chat_to_group := (chat_to_group s)(c \<mapsto> g)\<rparr>)"

inductive acts :: "label set \<Rightarrow> td \<Rightarrow> td \<Rightarrow> bool" for A where
  acts_refl [intro, simp]: "acts A s s"
| acts_step: "acts A s t \<Longrightarrow> act A t u \<Longrightarrow> acts A s u"

lemma acts_trans [trans]: "acts A t u \<Longrightarrow> acts A s t \<Longrightarrow> acts A s u"
  by (induction rule: acts.induct) (auto intro: acts_step)

lemma acts_invariant:
  assumes "acts A s t" and "I s" and "\<And>s t. I s \<Longrightarrow> act A s t \<Longrightarrow> I t"
  shows "I t"
  using assms(1,2) by (induction rule: acts.induct) (auto intro: assms(3))

section \<open>Events and actions\<close>

lemma emit_sel [simp]:
  "events (emit e s) = events s @ [e]" "sent (emit e s) = sent s"
  "current_query_id (emit e s) = current_query_id s" "continuations (emit e s) = continuations s"
  "installed (emit e s) = installed s" "pending_message_file (emit e s) = pending_message_file s"
  "pending_photo (emit e s) = pending_photo s" "pending_group_photo (emit e s) = pending_group_photo s"
  "known_users (emit e s) = known_users s" "group_state (emit e s) = group_state s"
  "chat_to_group (emit e s) = chat_to_group s" "supergroups (emit e s) = supergroups s"
  "resolved_reply_targets (emit e s) = resolved_reply_targets s"
  by (simp_all add: emit_def)

lemma emit_sel2 [simp]:
  "admin_poll_set (emit e s) = admin_poll_set s" "admin_poll_queue (emit e s) = admin_poll_queue s"
  "admin_poll_miss (emit e s) = admin_poll_miss s" "admin_poll_batch (emit e s) = admin_poll_batch s"
  "stopped (emit e s) = stopped s" "closing (emit e s) = closing s"
  "is_authorized (emit e s) = is_authorized s" "admin_poll_started (emit e s) = admin_poll_started s"
  "admin_poll_interval (emit e s) = admin_poll_interval s" "terminal (emit e s) = terminal s"
  by (simp_all add: emit_def)

lemma send_sel [simp]:
  "events (send_query q k s) = events s"
  "sent (send_query q k s) = sent s @ [(current_query_id s + 1, q)]"
  "current_query_id (send_query q k s) = current_query_id s + 1"
  "installed (send_query q k s) = installed s"
  "pending_message_file (send_query q k s) = pending_message_file s"
  "pending_photo (send_query q k s) = pending_photo s"
  "pending_group_photo (send_query q k s) = pending_group_photo s"
  "known_users (send_query q k s) = known_users s" "group_state (send_query q k s) = group_state s"
  "chat_to_group (send_query q k s) = chat_to_group s" "supergroups (send_query q k s) = supergroups s"
  "resolved_reply_targets (send_query q k s) = resolved_reply_targets s"
  by (simp_all add: send_query_def Let_def)

lemma send_sel2 [simp]:
  "admin_poll_set (send_query q k s) = admin_poll_set s"
  "admin_poll_queue (send_query q k s) = admin_poll_queue s"
  "admin_poll_miss (send_query q k s) = admin_poll_miss s"
  "admin_poll_batch (send_query q k s) = admin_poll_batch s"
  "stopped (send_query q k s) = stopped s" "closing (send_query q k s) = closing s"
  "is_authorized (send_query q k s) = is_authorized s"
  "admin_poll_started (send_query q k s) = admin_poll_started s"
  "admin_poll_interval (send_query q k s) = admin_poll_interval s"
  "terminal (send_query q k s) = terminal s"
  by (simp_all add: send_query_def Let_def)

lemma announced_append [simp]: "announced c i g (xs @ ys) \<longleftrightarrow> announced c i g xs \<or> announced c i g ys"
  by (auto simp: announced_def)

lemma announced_single [simp]: "announced c i g [e] = announces c i g e"
  by (simp add: announced_def)

lemma same_trace_events: "same_trace s t \<Longrightarrow> events t = events s"
  by (simp add: same_trace_def)

lemma act_said: "act A s t \<Longrightarrow> \<exists>es. events t = events s @ es \<and> events_in A es"
  by (induction rule: act.induct) (auto simp: same_trace_def)

lemma acts_said: "acts A s t \<Longrightarrow> \<exists>es. events t = events s @ es \<and> events_in A es"
proof (induction rule: acts.induct)
  case (acts_step s t u)
  then obtain es fs where "events t = events s @ es" "events_in A es" "events u = events t @ fs" "events_in A fs"
    using act_said [of A t u] by blast
  then show ?case by (intro exI [of _ "es @ fs"]) auto
qed simp

lemma act_events: "act A s t \<Longrightarrow> \<exists>es. events t = events s @ es"
  by (induction rule: act.induct) (auto simp: same_trace_def)

lemma acts_events: "acts A s t \<Longrightarrow> \<exists>es. events t = events s @ es"
proof (induction rule: acts.induct)
  case (acts_step s t u)
  then show ?case using act_events [of A t u] by auto
qed simp

lemma acts_announced: "acts A s t \<Longrightarrow> announced c i g (events s) \<Longrightarrow> announced c i g (events t)"
  using acts_events [of A s t] by auto

lemma act_installed: "act A s t \<Longrightarrow> installed t = installed s"
  by (induction rule: act.induct) (auto simp: same_trace_def)

lemma acts_installed: "acts A s t \<Longrightarrow> installed t = installed s"
  by (induction rule: acts.induct) (auto dest: act_installed)

section \<open>The functions as action sequences\<close>

lemma acts_refl_rule [td_acts]: "acts A s s"
  by simp

lemma acts_emit: "acts A s t \<Longrightarrow> event_ok (events t) e \<Longrightarrow> event_in A e \<Longrightarrow> acts A s (emit e t)"
  by (erule acts_step) (rule act_emit)

lemma acts_send: "acts A s t \<Longrightarrow> query_ok (events t) k \<Longrightarrow> reply_in A k \<Longrightarrow> acts A s (send_query q k t)"
  by (erule acts_step) (rule act_send)

lemma acts_frame: "acts A s t \<Longrightarrow> same_trace t u \<Longrightarrow> acts A s u"
  by (erule acts_step) (rule act_frame)

lemma acts_emit_plain [td_acts]:
  "acts A s t \<Longrightarrow> acts A s (emit (E_Text x) t)" "acts A s t \<Longrightarrow> acts A s (emit (E_User u) t)"
  "acts A s t \<Longrightarrow> acts A s (emit (E_FullInfo fi) t)" "acts A s t \<Longrightarrow> acts A s (emit (E_Photo p) t)"
  "acts A s t \<Longrightarrow> acts A s (emit (E_Group g) t)" "acts A s t \<Longrightarrow> acts A s (emit (E_Group_Photo gp) t)"
  by (auto intro: acts_emit simp: event_ok_def event_in_def)

lemma acts_send_plain [td_acts]:
  "acts A s t \<Longrightarrow> acts A s (send_query q None t)" "acts A s t \<Longrightarrow> acts A s (send_query q (Some K_Edited) t)"
  "acts A s t \<Longrightarrow> acts A s (send_query q (Some K_Auth) t)" "acts A s t \<Longrightarrow> acts A s (send_query q (Some K_Me) t)"
  "acts A s t \<Longrightarrow> acts A s (send_query q (Some K_User) t)" "acts A s t \<Longrightarrow> acts A s (send_query q (Some K_Chat) t)"
  "acts A s t \<Longrightarrow> acts A s (send_query q (Some (K_FullInfo u)) t)"
  "acts A s t \<Longrightarrow> acts A s (send_query q (Some (K_Admins c)) t)"
  by (auto intro: acts_send simp: query_ok_def reply_in_def)

text \<open>Changes of fields that are not part of the trace.\<close>

lemma acts_fields [td_acts]:
  "acts A s t \<Longrightarrow> acts A s (t\<lparr>pending_photo := pp\<rparr>)" "acts A s t \<Longrightarrow> acts A s (t\<lparr>pending_group_photo := pg\<rparr>)"
  "acts A s t \<Longrightarrow> acts A s (t\<lparr>supergroups := sgs\<rparr>)" "acts A s t \<Longrightarrow> acts A s (t\<lparr>group_state := gs\<rparr>)"
  "acts A s t \<Longrightarrow> acts A s (t\<lparr>resolved_reply_targets := r\<rparr>)" "acts A s t \<Longrightarrow> acts A s (t\<lparr>admin_poll_set := ps\<rparr>)"
  "acts A s t \<Longrightarrow> acts A s (t\<lparr>admin_poll_queue := pq\<rparr>)" "acts A s t \<Longrightarrow> acts A s (t\<lparr>admin_poll_miss := pm\<rparr>)"
  "acts A s t \<Longrightarrow> acts A s (t\<lparr>admin_poll_set := ps, admin_poll_queue := pq\<rparr>)"
  "acts A s t \<Longrightarrow> acts A s (t\<lparr>terminal := ls\<rparr>)" "acts A s t \<Longrightarrow> acts A s (t\<lparr>self_id := me\<rparr>)"
  by (auto intro: acts_frame simp: same_trace_def)

lemma acts_emit_photo [td_acts]: "acts A s t \<Longrightarrow> acts A s (emit_photo u f t)"
  unfolding emit_photo_def by (auto intro: td_acts)

lemma acts_emit_group_photo [td_acts]: "acts A s t \<Longrightarrow> acts A s (emit_group_photo u f t)"
  unfolding emit_group_photo_def by (auto intro: td_acts)

lemma acts_profile_photo [td_acts]: "acts A s t \<Longrightarrow> acts A s (maybe_download_profile_photo u t)"
  unfolding maybe_download_profile_photo_def by (auto intro!: td_acts split: option.split)

lemma acts_group_photo [td_acts]: "acts A s t \<Longrightarrow> acts A s (maybe_download_group_photo g photo t)"
  unfolding maybe_download_group_photo_def by (auto intro!: td_acts split: option.split)

lemma acts_full_info [td_acts]: "acts A s t \<Longrightarrow> acts A s (request_user_full_info u t)"
  unfolding request_user_full_info_def by (auto intro: td_acts)

lemma acts_ensure_user [td_acts]: "acts A s t \<Longrightarrow> acts A s (ensure_user_saved u t)"
  unfolding ensure_user_saved_def by (auto intro!: td_acts split: option.split)

lemma acts_emit_group [td_acts]: "acts A s t \<Longrightarrow> acts A s (emit_group g t)"
  unfolding emit_group_def by (auto intro!: td_acts split: option.split)

lemma acts_ensure_chat [td_acts]: "acts A s t \<Longrightarrow> acts A s (ensure_chat_saved c t)"
  unfolding ensure_chat_saved_def by (auto intro!: td_acts split: option.split)

text \<open>A user is introduced, the photo handled, and then the user is known.\<close>

lemma map_user_id [simp]: "u_id (map_user u) = tu_id u"
  by (simp add: map_user_def split: prod.split)

lemma acts_known: "acts A s t \<Longrightarrow> user_introduced i t \<Longrightarrow> acts A s (t\<lparr>known_users := (known_users t)(i \<mapsto> u)\<rparr>)"
  by (erule acts_step) (rule act_user)

lemma acts_introduce_user:
  fixes t :: td and u :: td_user
  defines "v \<equiv> maybe_download_profile_photo u (if H_User \<in> installed t then emit (E_User (map_user u)) t else t)"
  assumes "acts A s t"
  shows "acts A s (v\<lparr>known_users := (known_users v)(tu_id u \<mapsto> u)\<rparr>)"
proof (rule acts_known)
  let ?e = "if H_User \<in> installed t then emit (E_User (map_user u)) t else t"
  show "acts A s v" unfolding v_def using assms(2) by (auto intro!: td_acts)
  have photo: "acts UNIV ?e v" unfolding v_def by (rule acts_profile_photo) simp
  obtain es where es: "events v = events ?e @ es" using acts_events [OF photo] by blast
  have "installed v = installed t" using acts_installed [OF photo] by simp
  with es show "user_introduced (tu_id u) v" by (auto simp: user_introduced_def)
qed

lemma acts_on_user [td_acts]: "acts A s t \<Longrightarrow> acts A s (on_user u t)"
  unfolding on_user_def Let_def by (rule acts_introduce_user)

lemma acts_update_user [td_acts]: "acts A s t \<Longrightarrow> acts A s (update_user u t)"
  unfolding update_user_def Let_def
  by (cases "known_users t (tu_id u) = None") (simp_all only: if_True if_False simp_thms acts_full_info acts_introduce_user)

lemma acts_fetch_admins [td_acts]: "acts A s t \<Longrightarrow> acts A s (fetch_group_admins g c t)"
  unfolding fetch_group_admins_def by (auto intro: td_acts)

lemma acts_collect [td_acts]: "acts A s t \<Longrightarrow> acts A s (snd (collect_admins ms t))"
  by (induction ms t rule: collect_admins.induct) (auto intro: td_acts split: option.split prod.split simp: case_prod_beta)

text \<open>The administrators of a member list, in its order.\<close>

definition admins_of :: "td_member option list \<Rightarrow> GroupAdmin list" where
  "admins_of ms = List.map_filter (\<lambda>m. Option.bind m map_admin) ms"

lemma collect_admins_of: "fst (collect_admins ms t) = admins_of ms"
  by (induction ms t rule: collect_admins.induct)
    (auto simp: admins_of_def map_filter_simps case_prod_beta split: option.split)

lemma acts_emit_admins:
  assumes "acts A s t" and "L_List \<lparr>al_group_id = c, al_admins = admins_of ms\<rparr> \<in> A"
  shows "acts A s (emit_admins c ms t)"
  using acts_collect [OF assms(1), of ms] assms(2) collect_admins_of [of ms t]
  by (auto simp: emit_admins_def event_ok_def event_in_def case_prod_beta intro: acts_emit)

lemma acts_basic_admins:
  "acts A s t \<Longrightarrow> L_List \<lparr>al_group_id = c, al_admins = admins_of ms\<rparr> \<in> A \<Longrightarrow>
   acts A s (emit_basic_group_admins c ms t)"
  unfolding emit_basic_group_admins_def by (auto intro: acts_emit_admins)

lemma acts_admins_failed [td_acts]: "acts A s t \<Longrightarrow> acts A s (admins_failed c code t)"
  unfolding admins_failed_def Let_def by (auto intro!: td_acts)

lemma acts_admins_received:
  "acts A s t \<Longrightarrow> L_List \<lparr>al_group_id = c, al_admins = admins_of ms\<rparr> \<in> A \<Longrightarrow>
   acts A s (admins_received c ms t)"
  unfolding admins_received_def by (intro acts_emit_admins td_acts)

lemma acts_poll_loop [td_acts]: "acts A s t \<Longrightarrow> acts A s (poll_loop n polled t)"
proof (induction n arbitrary: polled t)
  case (Suc n)
  have query: "acts A s t \<Longrightarrow> acts A s (poll_query g c st t)" for t g c st
    unfolding poll_query_def by (auto intro: td_acts)
  have drop: "acts A s (t\<lparr>admin_poll_queue := q\<rparr>)" for q using Suc.prems by (rule td_acts)
  show ?case
    using Suc.prems by (auto simp: Let_def split: list.split option.split intro!: Suc.IH query drop)
qed simp

lemma acts_poll [td_acts]: "acts A s t \<Longrightarrow> acts A s (poll_admin_batch t)"
  unfolding poll_admin_batch_def by (rule acts_poll_loop)

lemma acts_track [td_acts]: "acts A s t \<Longrightarrow> acts A s (track_group c g type t)"
  unfolding track_group_def Let_def by (auto intro!: td_acts)

lemma acts_request_info [td_acts]: "acts A s t \<Longrightarrow> acts A s (request_group_info g type t)"
  unfolding request_group_info_def by (auto intro: td_acts)

text \<open>Entering a group chat and announcing it commute, so it may be taken to be announced first.\<close>

lemma emit_enter: "emit e (s\<lparr>group_state := gs, chat_to_group := cg\<rparr>) = (emit e s)\<lparr>group_state := gs, chat_to_group := cg\<rparr>"
  by (simp add: emit_def)

lemma acts_enter:
  assumes s: "acts A s t"
  shows "acts A s (emit_group g (enter_group chat g type t))"
proof -
  define st where "st = merge_supergroup (supergroups t g) ((known_group g t)\<lparr>st_type := type, st_chat_id := ch_id chat,
      st_title := ch_title chat, st_chat_seen := True\<rparr>)"
  define enter where "enter = (\<lambda>v :: td. v\<lparr>group_state := (group_state t)(g \<mapsto> st), chat_to_group := (chat_to_group v)(ch_id chat \<mapsto> g)\<rparr>)"
  define gr where "gr = \<lparr>g_id = st_chat_id st, g_type = st_type st, g_title = st_title st,
     g_description = st_description st, g_photo_file_id = None, g_active_usernames = st_active_usernames st,
     g_disabled_usernames = st_disabled_usernames st, g_collectible_usernames = st_collectible_usernames st\<rparr>"
  have entered: "enter_group chat g type t = enter t"
    by (simp add: enter_def enter_group_def st_def Let_def)
  have st: "st_chat_seen st" "st_chat_id st = ch_id chat"
    by (simp_all add: st_def merge_supergroup_def split: option.split)
  have step: "acts A s (enter v)" if "acts A s v" and "chat_introduced (ch_id chat) v" for v
    unfolding enter_def using that(1) by (rule acts_step) (rule act_chat [OF that(2)])
  show ?thesis
  proof (cases "H_Group \<in> installed t")
    case True
    have "group_state (enter t) g = Some st" "installed (enter t) = installed t" by (simp_all add: enter_def)
    then have "emit_group g (enter t) = emit (E_Group gr) (enter t)"
      using True st(1) unfolding emit_group_def gr_def by (simp only: option.case simp_thms if_False)
    then have group: "emit_group g (enter t) = enter (emit (E_Group gr) t)" unfolding enter_def by (simp only: emit_enter emit_sel)
    have "acts A s (emit (E_Group gr) t)" by (rule acts_emit_plain(5) [OF s])
    moreover have "g_id gr = ch_id chat" using st(2) by (simp add: gr_def)
    then have "chat_introduced (ch_id chat) (emit (E_Group gr) t)" by (auto simp: chat_introduced_def)
    ultimately show ?thesis unfolding entered group by (rule step)
  next
    case False
    then have "emit_group g (enter t) = enter t" using st(1) by (simp add: emit_group_def enter_def)
    moreover have "chat_introduced (ch_id chat) t" using False by (simp add: chat_introduced_def)
    ultimately show ?thesis unfolding entered using step [OF s] by simp
  qed
qed

lemma acts_new_group_chat: "acts A s t \<Longrightarrow> acts A s (new_group_chat chat from g type t)"
proof -
  assume "acts A s t"
  then have "acts A s (maybe_download_group_photo (ch_id chat) (ch_photo_big chat)
      (request_group_info g type (emit_group g (enter_group chat g type t))))"
    by (intro acts_group_photo acts_request_info acts_enter)
  then show ?thesis by (simp add: new_group_chat_def Let_def acts_track)
qed

lemma acts_new_chat [td_acts]: "acts A s t \<Longrightarrow> acts A s (handle_new_chat chat from t)"
  unfolding handle_new_chat_def by (auto intro: acts_new_group_chat split: option.split td_chat_type.split)

section \<open>Messages as action sequences\<close>

lemma acts_resolve_forward [td_acts]: "acts A s t \<Longrightarrow> acts A s (resolve_forward_origin info t)"
  unfolding resolve_forward_origin_def Let_def by (auto intro!: td_acts split: option.split)

lemma acts_forward_origin [td_acts]: "acts A s t \<Longrightarrow> acts A s (forward_origin info t)"
  unfolding forward_origin_def by (auto intro!: td_acts split: option.split)

lemma acts_entities [td_acts]: "acts A s t \<Longrightarrow> acts A s (ensure_message_entities m t)"
  unfolding ensure_message_entities_def Let_def
  by (auto intro!: td_acts split: option.split td_sender.split)

lemma acts_mark [td_acts]: "acts A s t \<Longrightarrow> acts A s (mark_reply_resolved c i t)"
  unfolding mark_reply_resolved_def by (intro td_acts)

lemma acts_text [td_acts]: "acts A s t \<Longrightarrow> acts A s (text_message m t)"
  unfolding text_message_def Let_def
  by (auto intro!: td_acts split: option.split td_content.split prod.split)

lemma acts_await: "acts A s t \<Longrightarrow> ref_announced ref (events t) \<Longrightarrow>
    acts A s (t\<lparr>pending_message_file := (pending_message_file t)(f \<mapsto> ref)\<rparr>)"
  by (erule acts_step) (rule act_await)

lemma acts_emit_file: "acts A s t \<Longrightarrow> ref_announced ref (events t) \<Longrightarrow> acts A s (emit_message_file ref f t)"
  unfolding emit_message_file_def by (auto intro!: acts_emit simp: event_ok_def ref_announced_def event_in_def)

lemma acts_message_file:
  "acts A s t \<Longrightarrow> announced (tm_chat_id m) (tm_id m) g (events t) \<Longrightarrow>
   acts A s (maybe_download_message_file m g t)"
  unfolding maybe_download_message_file_def Let_def
  by (auto intro!: acts_emit_file acts_await acts_send_plain simp: ref_announced_def
      split: option.split prod.split dest: message_content_file_category)

lemma acts_resolve_reply:
  "acts A s t \<Longrightarrow> announced (tm_chat_id m) (tm_id m) g (events t) \<Longrightarrow> L_Reply d \<in> A \<Longrightarrow>
   acts A s (resolve_reply_message m g d t)"
  unfolding resolve_reply_message_def Let_def
  by (auto intro!: acts_emit acts_send simp: event_ok_def query_ok_def reply_announced_def event_in_def reply_in_def
      split: option.split prod.split)

lemma message_file_announced:
  "announced c i g (events t) \<Longrightarrow> announced (tm_chat_id m) (tm_id m) h (events t) \<Longrightarrow>
   announced c i g (events (maybe_download_message_file m h t))"
  by (rule acts_announced [OF acts_message_file]) auto

lemma acts_after_announcement:
  assumes "acts A s t" and "announced (tm_chat_id m) (tm_id m) g (events t)" and "L_Reply d \<in> A"
  shows "acts A s (resolve_reply_message m g d (maybe_download_message_file m g t))"
  using assms by (intro acts_resolve_reply acts_message_file message_file_announced)

lemma acts_private:
  assumes "acts A s t" and "is_private_chat (tm_chat_id m)" and "L_Reply d \<in> A" and "L_Said m \<in> A"
  shows "acts A s (handle_message_for_private_chat m d t)"
proof -
  let ?u = "emit (E_Private (build_private_message m)) (forward_origin (pm_forward_info (build_private_message m)) t)"
  have "acts A s ?u"
    by (rule acts_emit [OF acts_forward_origin]) (use assms in \<open>auto simp: event_ok_def event_in_def, simp add: build_private_message_def\<close>)
  then have "acts A s (resolve_reply_message m False d (maybe_download_message_file m False ?u))"
    by (rule acts_after_announcement) (simp_all add: announces_def build_private_message_def assms(3))
  with assms(1) show ?thesis by (simp add: handle_message_for_private_chat_def Let_def)
qed

lemma acts_group:
  assumes "acts A s t" and "\<not> is_private_chat (tm_chat_id m)" and "L_Reply d \<in> A" and "L_Said m \<in> A"
  shows "acts A s (handle_message_for_group_chat m d t)"
proof -
  let ?u = "emit (E_Group_Message (build_group_message m)) (forward_origin (gm_forward_info (build_group_message m)) t)"
  have "acts A s ?u"
    by (rule acts_emit [OF acts_forward_origin]) (use assms in \<open>auto simp: event_ok_def event_in_def, simp add: build_group_message_def\<close>)
  then have "acts A s (resolve_reply_message m True d (maybe_download_message_file m True ?u))"
    by (rule acts_after_announcement) (simp_all add: announces_def build_group_message_def assms(3))
  with assms(1) show ?thesis by (simp add: handle_message_for_group_chat_def Let_def)
qed

lemma acts_route:
  "acts A s t \<Longrightarrow> is_private_chat c = is_private_chat (tm_chat_id m) \<Longrightarrow> L_Reply d \<in> A \<Longrightarrow> L_Said m \<in> A \<Longrightarrow>
   acts A s (route_message c m d t)"
  unfolding route_message_def by (auto intro: acts_private acts_group)

lemma acts_new_message: "acts A s t \<Longrightarrow> L_Reply 0 \<in> A \<Longrightarrow> L_Said m \<in> A \<Longrightarrow> acts A s (handle_new_message m t)"
  unfolding handle_new_message_def by (intro td_acts acts_route) auto

lemma acts_edited: "acts A s t \<Longrightarrow> L_Reply 0 \<in> A \<Longrightarrow> (\<And>m. obj = Some m \<Longrightarrow> L_Said m \<in> A) \<Longrightarrow> acts A s (on_edited obj t)"
  unfolding on_edited_def by (auto intro: acts_route split: option.split)

lemma acts_on_reply:
  assumes s: "acts A s t" and mr: "reply_announced mr (events t)"
    and m: "\<And>m. obj = Some m \<Longrightarrow> tm_chat_id m = mr_reply_to_chat_id mr" and A: "L_Reply (Suc d) \<in> A"
    and said: "\<And>m. obj = Some m \<Longrightarrow> L_Said m \<in> A"
  shows "acts A s (on_reply mr d obj t)"
proof (cases obj)
  case None
  with s mr show ?thesis by (auto simp: on_reply_def event_ok_def event_in_def intro: acts_emit)
next
  case (Some r)
  let ?u = "route_message (mr_reply_to_chat_id mr) r (d + 1) (ensure_message_entities r
     (mark_reply_resolved (mr_reply_to_chat_id mr) (mr_reply_to_msg_id mr) t))"
  have chain: "acts A v t \<Longrightarrow> acts A v ?u" for v
    by (intro acts_route td_acts) (simp_all add: m [OF Some] A said [OF Some])
  have "reply_announced mr (events ?u)"
    using acts_announced [OF chain [OF acts_refl]] mr by (simp add: reply_announced_def)
  then show ?thesis
    using chain [OF s] Some by (auto simp: on_reply_def Let_def event_ok_def event_in_def intro: acts_emit)
qed

lemma acts_delete_each: "acts A s t \<Longrightarrow> acts A s (delete_each c is t)"
proof (induction "is" arbitrary: t)
  case (Cons i "is")
  have "event_ok (events t) (if is_private_chat c then E_Private (deleted_private c i)
      else E_Group_Message (deleted_group c i))"
    by (simp add: event_ok_def deleted_private_def deleted_group_def)
  from Cons.IH [OF acts_emit [OF Cons.prems this]] show ?case
    by (simp add: event_in_def deleted_private_def deleted_group_def)
qed simp

lemma acts_deleted [td_acts]: "acts A s t \<Longrightarrow> acts A s (handle_delete_messages c is t)"
  unfolding handle_delete_messages_def Let_def by (auto intro: acts_delete_each)

lemma acts_forget: "acts A s t \<Longrightarrow> acts A s (t\<lparr>pending_message_file := (pending_message_file t)(f := None)\<rparr>)"
  by (erule acts_step) (rule act_forget)

lemma acts_file_update:
  assumes "acts A s t" and "\<And>f ref. pending_message_file t f = Some ref \<Longrightarrow> ref_announced ref (events t)"
  shows "acts A s (handle_file_update f t)"
  unfolding handle_file_update_def
  using assms by (auto intro!: td_acts acts_emit_file acts_forget split: option.split)
section \<open>Updates as action sequences\<close>

lemma acts_update_title [td_acts]: "acts A s t \<Longrightarrow> acts A s (update_chat_title c title t)"
  unfolding update_chat_title_def by (auto intro!: td_acts split: option.split)

lemma acts_update_supergroup [td_acts]: "acts A s t \<Longrightarrow> acts A s (update_supergroup sg t)"
proof -
  assume "acts A s t"
  then have field: "acts A s (t\<lparr>supergroups := x\<rparr>)" "acts A s (t\<lparr>supergroups := x, group_state := y\<rparr>)" for x y
    by (intro td_acts; assumption)+
  then show ?thesis
    unfolding update_supergroup_def Let_def by (auto intro!: acts_emit_group field split: option.split)
qed

lemma acts_describe [td_acts]: "acts A s t \<Longrightarrow> acts A s (describe_group g d t)"
  unfolding describe_group_def by (intro td_acts)

lemma describe_sel [simp]:
  "st_chat_id (known_group h (describe_group g d s)) = st_chat_id (known_group h s)"
  "admin_poll_set (describe_group g d s) = admin_poll_set s"
  by (simp_all add: describe_group_def known_group_def)

lemma emit_group_poll_set [simp]: "admin_poll_set (emit_group g s) = admin_poll_set s"
  by (simp add: emit_group_def split: option.split)

lemma acts_basic_info:
  "acts A s t \<Longrightarrow>
   (st_chat_id (known_group g t) \<in> admin_poll_set t \<Longrightarrow>
     L_List \<lparr>al_group_id = st_chat_id (known_group g t), al_admins = admins_of ms\<rparr> \<in> A) \<Longrightarrow>
   acts A s (update_basic_group_full_info g d ms t)"
  unfolding update_basic_group_full_info_def Let_def
  by (auto intro!: td_acts acts_basic_admins)

text \<open>All updates but those of the authorization state, given that the files still expected belong
  to announced messages.\<close>

lemma acts_update:
  assumes "acts A s t" and "\<And>a. u \<noteq> U_AuthorizationState a"
    and "\<And>f ref. pending_message_file t f = Some ref \<Longrightarrow> ref_announced ref (events t)"
    and "\<And>g d ms. u = U_BasicGroupFullInfo g (Some (d, ms)) \<Longrightarrow>
      st_chat_id (known_group g t) \<in> admin_poll_set t \<Longrightarrow> L_List \<lparr>al_group_id = st_chat_id (known_group g t), al_admins = admins_of ms\<rparr> \<in> A"
    and "\<And>m. u = U_NewMessage m \<Longrightarrow> L_Reply 0 \<in> A \<and> L_Said m \<in> A"
  shows "acts A s (process_update u t)"
proof (cases u)
  case (U_File f)
  with assms show ?thesis by (auto intro: acts_file_update split: option.split)
next
  case (U_AuthorizationState a)
  with assms(2) show ?thesis by blast
qed (use assms(1,4,5) in \<open>auto intro!: td_acts acts_basic_info acts_new_message simp: Let_def handle_update_message_content_def
  split: option.split prod.split\<close>)

text \<open>The authorization states that do more than send a query: the flags, and the first alarm.\<close>

definition set_flags :: "bool \<Rightarrow> bool \<Rightarrow> bool \<Rightarrow> bool \<Rightarrow> td \<Rightarrow> td" where
  "set_flags authorized stop_it started close_it s =
     s\<lparr>is_authorized := authorized, stopped := stop_it, admin_poll_started := started, closing := close_it\<rparr>"

lemma set_flags_sel [simp]:
  "events (set_flags au st sa cl s) = events s" "sent (set_flags au st sa cl s) = sent s"
  "current_query_id (set_flags au st sa cl s) = current_query_id s"
  "continuations (set_flags au st sa cl s) = continuations s"
  "pending_message_file (set_flags au st sa cl s) = pending_message_file s"
  "installed (set_flags au st sa cl s) = installed s"
  "is_authorized (set_flags au st sa cl s) = au" "stopped (set_flags au st sa cl s) = st"
  "admin_poll_started (set_flags au st sa cl s) = sa" "closing (set_flags au st sa cl s) = cl"
  by (simp_all add: set_flags_def)

lemma authorization_acts:
  assumes "a \<notin> {A_Ready, A_LoggingOut, A_Closed}"
  shows "acts A s (on_authorization_state_update a s)"
  using assms by (cases a) (auto simp: getline_def intro!: td_acts split: list.split)

lemma authorization_flags:
  "on_authorization_state_update A_LoggingOut s = set_flags False (stopped s) (admin_poll_started s) (closing s) s"
  "on_authorization_state_update A_Closed s = set_flags False True (admin_poll_started s) (closing s) s"
  by (simp_all add: set_flags_def)

definition first_alarm :: "td \<Rightarrow> bool" where
  "first_alarm s \<longleftrightarrow> \<not> admin_poll_started s \<and> admin_poll_interval s > 0 \<and> H_Admins \<in> installed s"

lemma authorization_ready:
  "on_authorization_state_update A_Ready s =
     (let t = send_query Q_GetMe (Some K_Me) (set_flags True (stopped s) (admin_poll_started s) (closing s) s) in
      if first_alarm s then arm_admin_alarm (set_flags True (stopped s) True (closing s) t) else t)"
proof -
  have flags: "set_flags True (stopped s) (admin_poll_started s) (closing s) s = s\<lparr>is_authorized := True\<rparr>"
    by (simp add: set_flags_def)
  have "set_flags True (stopped s) True (closing s) (send_query q k (s\<lparr>is_authorized := True\<rparr>)) =
      (send_query q k (s\<lparr>is_authorized := True\<rparr>))\<lparr>admin_poll_started := True\<rparr>" for q k
    by (simp add: set_flags_def send_query_def Let_def)
  then show ?thesis by (simp add: flags first_alarm_def Let_def)
qed
end
