(* ===== verification/Td_Client_Props.thy ===== *)
theory Td_Client_Props
  imports Td_Trace
begin

text \<open>
  What the client guarantees however TDLib behaves: the invariants of its states over every
  sequence of responses and updates, and the behaviour of administrator polling, of the reply
  chain and of downloads. One step processes one response, as \<open>loop\<close> does, or calls \<open>close\<close>.
\<close>

section \<open>The client as a transition system\<close>

definition td_start :: "td \<Rightarrow> bool" where
  "td_start s \<longleftrightarrow> (\<exists>i h d stdin hs interval batch.
     s = setAdminPollConfig interval batch (fold set_handler hs (Impl i h d stdin)))"

text \<open>
  The one thing relied on beyond the interface's types: \<open>getMessage\<close> answers with a message of the
  chat that was asked for.
\<close>

definition honest :: "td \<Rightarrow> 64 word \<Rightarrow> td_object option \<Rightarrow> bool" where
  "honest s i obj \<longleftrightarrow>
     (\<forall>mr depth m. i \<noteq> 0 \<and> continuations s i = Some (K_Reply mr depth) \<and> obj = Some (O_Message m) \<longrightarrow>
        tm_chat_id m = mr_reply_to_chat_id mr)"

inductive td_step :: "td \<Rightarrow> td \<Rightarrow> bool" where
  td_response: "honest s i obj \<Longrightarrow> td_step s (process_response i obj s)"
| td_close: "td_step s (close_client s)"

section \<open>A step as actions\<close>

text \<open>How a step looks to an invariant: actions, the flags, removal of a continuation, an alarm.\<close>

definition consume :: "64 word \<Rightarrow> td \<Rightarrow> td" where
  "consume i s = s\<lparr>continuations := (continuations s)(i := None)\<rparr>"

definition files_announced :: "td \<Rightarrow> bool" where
  "files_announced s \<longleftrightarrow> (\<forall>f ref. pending_message_file s f = Some ref \<longrightarrow> ref_announced ref (events s))"

definition replies_announced :: "td \<Rightarrow> bool" where
  "replies_announced s \<longleftrightarrow> (\<forall>i mr depth. continuations s i = Some (K_Reply mr depth) \<longrightarrow>
     depth < kMaxReplyDepth \<and> reply_announced mr (events s))"

definition events_ok :: "td_event list \<Rightarrow> bool" where
  "events_ok es \<longleftrightarrow> (\<forall>n<length es. event_ok (take n es) (es ! n))"

definition trace_inv :: "td \<Rightarrow> bool" where
  "trace_inv s \<longleftrightarrow> events_ok (events s) \<and> files_announced s \<and> replies_announced s"

lemma events_ok_snoc [simp]: "events_ok (es @ [e]) \<longleftrightarrow> events_ok es \<and> event_ok es e"
  unfolding events_ok_def by (auto simp: nth_append less_Suc_eq)

lemma trace_inv_act:
  assumes inv: "trace_inv s" and step: "act A s t"
  shows "trace_inv t"
  using step
proof cases
  case act_frame
  with inv show ?thesis
    by (auto simp: trace_inv_def same_trace_def files_announced_def replies_announced_def)
next
  case (act_emit e)
  with inv show ?thesis
    by (auto simp: trace_inv_def files_announced_def replies_announced_def ref_announced_def reply_announced_def)
next
  case (act_send k q)
  with inv show ?thesis
    by (auto simp: trace_inv_def files_announced_def replies_announced_def send_query_def Let_def
        query_ok_def split: option.splits if_splits)
next
  case (act_await ref f)
  with inv show ?thesis by (auto simp: trace_inv_def files_announced_def replies_announced_def)
qed (use inv in \<open>auto simp: trace_inv_def files_announced_def replies_announced_def\<close>)

lemma trace_inv_acts: "acts A s t \<Longrightarrow> trace_inv s \<Longrightarrow> trace_inv t"
  using acts_invariant [of A s t trace_inv] trace_inv_act by blast

lemma trace_inv_flags [simp]: "trace_inv (set_flags au st sa cl s) = trace_inv s"
  by (simp add: trace_inv_def files_announced_def replies_announced_def)

lemma trace_inv_consume: "trace_inv s \<Longrightarrow> trace_inv (consume i s)"
  by (auto simp: trace_inv_def files_announced_def replies_announced_def consume_def)

lemma trace_inv_arm: "trace_inv s \<Longrightarrow> trace_inv (arm_admin_alarm s)"
  by (auto simp: trace_inv_def files_announced_def replies_announced_def arm_admin_alarm_def
      send_query_def Let_def)

lemma consume_sel [simp]:
  "events (consume i s) = events s" "sent (consume i s) = sent s" "installed (consume i s) = installed s"
  "current_query_id (consume i s) = current_query_id s" "stopped (consume i s) = stopped s"
  "closing (consume i s) = closing s" "is_authorized (consume i s) = is_authorized s"
  "admin_poll_started (consume i s) = admin_poll_started s"
  "pending_message_file (consume i s) = pending_message_file s"
  "continuations (consume i s) = (continuations s)(i := None)"
  "admin_poll_interval (consume i s) = admin_poll_interval s"
  by (simp_all add: consume_def)

text \<open>Running a continuation that is not the alarm.\<close>

lemma acts_resume:
  assumes "k \<noteq> K_Alarm"
    and "\<And>mr d. k = K_Reply mr d \<Longrightarrow> reply_announced mr (events s)"
    and "\<And>mr d m. k = K_Reply mr d \<Longrightarrow> obj = O_Message m \<Longrightarrow> tm_chat_id m = mr_reply_to_chat_id mr"
    and "\<And>c ms. k = K_Admins c \<Longrightarrow> obj = O_Members ms \<Longrightarrow> L_List \<lparr>al_group_id = c, al_admins = admins_of ms\<rparr> \<in> A"
    and "k = K_Edited \<Longrightarrow> L_Reply 0 \<in> A" and "\<And>mr d. k = K_Reply mr d \<Longrightarrow> L_Reply (Suc d) \<in> A"
    and "\<And>m. obj = O_Message m \<Longrightarrow> k = K_Edited \<or> (\<exists>mr d. k = K_Reply mr d) \<Longrightarrow> L_Said m \<in> A"
  shows "acts A s (resume k obj s)"
proof (cases k)
  case (K_Reply mr d)
  with assms(2,3,6,7) show ?thesis
    by (auto simp: resume_def message_of_def intro!: acts_on_reply split: td_object.splits)
qed (use assms(1,4,5,7) in \<open>auto simp: resume_def message_of_def intro!: td_acts acts_edited acts_admins_received
    split: td_object.split td_object.split_asm\<close>)

text \<open>The administrator lists a response brings: a member list that was asked for, or the members of a
  basic group that is polled. The messages announced are those it brings. The target of a reply may be asked for at depth 0, or one deeper than
  the reply that is being answered.\<close>

definition fetched_list :: "td \<Rightarrow> 64 word \<Rightarrow> td_object option \<Rightarrow> GroupAdminList \<Rightarrow> bool" where
  "fetched_list s i obj al \<longleftrightarrow>
     i \<noteq> 0 \<and> continuations s i = Some (K_Admins (al_group_id al)) \<and>
       (\<exists>ms. obj = Some (O_Members ms) \<and> al_admins al = admins_of ms) \<or>
     i = 0 \<and> al_group_id al \<in> admin_poll_set s \<and>
       (\<exists>g d ms. obj = Some (O_Update (U_BasicGroupFullInfo g (Some (d, ms)))) \<and>
          al_group_id al = st_chat_id (known_group g s) \<and> al_admins al = admins_of ms)"

definition brings :: "td_object option \<Rightarrow> td_message \<Rightarrow> bool" where
  "brings obj m \<longleftrightarrow> obj = Some (O_Message m) \<or> obj = Some (O_Update (U_NewMessage m))"

definition labels :: "td \<Rightarrow> 64 word \<Rightarrow> td_object option \<Rightarrow> label set" where
  "labels s i obj = L_List ` {al. fetched_list s i obj al} \<union> L_Said ` {m. brings obj m} \<union> range L_Reply"

text \<open>The four kinds of response.\<close>

lemma response_cases:
  assumes h: "honest s i obj" and inv: "trace_inv s" and resp: "t = process_response i obj s"
  obtains (plain) "acts (labels s i obj) s t"
  | (consumed) k where "continuations s i = Some k" "k \<noteq> K_Alarm" "acts (labels s i obj) (consume i s) t"
  | (alarm) "continuations s i = Some K_Alarm" "t = on_admin_alarm (consume i s)"
  | (authorization) a where "a \<in> {A_Ready, A_LoggingOut, A_Closed}" "t = on_authorization_state_update a s"
      "i = 0" "obj = Some (O_Update (U_AuthorizationState a))"
proof (cases obj)
  case None
  with resp plain show ?thesis by (simp add: process_response_def)
next
  case (Some ob)
  show ?thesis
  proof (cases "i = 0")
    case True
    show ?thesis
    proof (cases "\<exists>a. ob = O_Update (U_AuthorizationState a)")
      case auth: True
      then obtain a where a: "ob = O_Update (U_AuthorizationState a)" ..
      with True Some resp have t: "t = on_authorization_state_update a s"
        by (simp add: process_response_def)
      then show ?thesis
        using authorization [OF _ t True] authorization_acts [of a "labels s i obj" s] plain Some a by fastforce
    next
      case False
      have "acts (labels s i obj) s (process_update u s)" if u: "ob = O_Update u" for u
        using u True Some False inv
        by (intro acts_update) (auto simp: trace_inv_def files_announced_def labels_def fetched_list_def brings_def)
      with True Some resp have "acts (labels s i obj) s t"
        by (auto simp: process_response_def split: td_object.split)
      then show ?thesis by (rule plain)
    qed
  next
    case False
    show ?thesis
    proof (cases "continuations s i")
      case None
      with False Some resp have "t = s" by (simp add: process_response_def)
      with plain show ?thesis by simp
    next
      case k: (Some k)
      with False Some resp have t: "t = resume k ob (consume i s)"
        by (simp add: process_response_def consume_def)
      show ?thesis
      proof (cases "k = K_Alarm")
        case True
        with k t alarm show ?thesis by (simp add: resume_def)
      next
        case other: False
        have "acts (labels s i obj) (consume i s) (resume k ob (consume i s))"
          using inv k h Some False
          by (intro acts_resume [OF other])
            (auto simp: trace_inv_def replies_announced_def honest_def labels_def fetched_list_def brings_def)
        with t k other consumed show ?thesis by simp
      qed
    qed
  qed
qed

lemma acts_weaken: "acts A s t \<Longrightarrow> acts UNIV s t"
proof (induction rule: acts.induct)
  case (acts_step s t u)
  from acts_step(2) have "act UNIV t u" by cases (auto simp: reply_in_def intro: act.intros event_in_UNIV)
  with acts_step show ?case by (blast intro: acts.acts_step)
qed simp

lemma step_cases:
  assumes step: "td_step s t" and inv: "trace_inv s"
  obtains (plain) "acts UNIV s t"
  | (consumed) i k where "continuations s i = Some k" "k \<noteq> K_Alarm" "acts UNIV (consume i s) t"
  | (alarm) i where "continuations s i = Some K_Alarm" "t = on_admin_alarm (consume i s)"
  | (authorization) a where "a \<in> {A_Ready, A_LoggingOut, A_Closed}" "t = on_authorization_state_update a s"
  | (closing) "t = close_client s"
  using step
proof cases
  case (td_response i obj)
  note found = plain consumed alarm authorization
  from td_response(2) inv td_response(1) show ?thesis
  proof (cases rule: response_cases)
    case plain
    show ?thesis by (rule found(1) [OF acts_weaken [OF plain]])
  next
    case (consumed k)
    show ?thesis by (rule found(2) [OF consumed(1,2) acts_weaken [OF consumed(3)]])
  next
    case alarm
    show ?thesis by (rule found(3) [OF alarm])
  next
    case (authorization a)
    show ?thesis by (rule found(4) [OF authorization(1,2)])
  qed
qed (rule closing)

lemma close_flags: "close_client s = send_query Q_Close None (set_flags (is_authorized s) (stopped s) (admin_poll_started s) True s)"
  by (simp add: close_client_def set_flags_def)


lemma trace_inv_step:
  assumes "td_step s t" and inv: "trace_inv s"
  shows "trace_inv t"
  using assms
proof (cases rule: step_cases)
  case plain
  then show ?thesis using inv by (rule trace_inv_acts)
next
  case (consumed i k)
  then show ?thesis using trace_inv_consume [OF inv] trace_inv_acts by blast
next
  case (alarm i)
  have "trace_inv (poll_admin_batch (consume i s))"
    by (rule trace_inv_acts [OF acts_poll [OF acts_refl [of UNIV]] trace_inv_consume [OF inv]])
  then show ?thesis
    unfolding alarm(2) on_admin_alarm_def using trace_inv_consume [OF inv] by (auto intro: trace_inv_arm)
next
  case (authorization a)
  have "trace_inv (send_query Q_GetMe (Some K_Me) (set_flags au st sa cl s))" for au st sa cl
    by (rule trace_inv_acts [OF acts_send_plain(4) [OF acts_refl [of UNIV]]]) (simp add: inv)
  with inv authorization show ?thesis
    by (auto simp: authorization_flags authorization_ready Let_def intro!: trace_inv_arm
        simp del: on_authorization_state_update.simps)
next
  case closing
  show ?thesis
    unfolding closing close_flags
    by (rule trace_inv_acts [OF acts_send_plain(1) [OF acts_refl [of UNIV]]]) (simp add: inv)
qed
lemma fold_handlers [simp]:
  "events (fold set_handler hs s) = events s" "sent (fold set_handler hs s) = sent s"
  "continuations (fold set_handler hs s) = continuations s"
  "pending_message_file (fold set_handler hs s) = pending_message_file s"
  "current_query_id (fold set_handler hs s) = current_query_id s"
  "admin_poll_started (fold set_handler hs s) = admin_poll_started s"
  "installed (fold set_handler hs s) = set hs \<union> installed s"
  by (induction hs arbitrary: s) (auto simp: set_handler_def)

lemma fold_handlers2 [simp]:
  "chat_to_group (fold set_handler hs s) = chat_to_group s" "group_state (fold set_handler hs s) = group_state s"
  "admin_poll_set (fold set_handler hs s) = admin_poll_set s"
  "admin_poll_queue (fold set_handler hs s) = admin_poll_queue s"
  by (induction hs arbitrary: s) (auto simp: set_handler_def)

lemma start_trace:
  assumes "td_start s"
  shows "events s = [] \<and> sent s = [(1, Q_GetOption ''version'')] \<and> current_query_id s = 1 \<and>
    continuations s = (\<lambda>_. None) \<and> pending_message_file s = (\<lambda>_. None) \<and> \<not> admin_poll_started s \<and>
    chat_to_group s = (\<lambda>_. None) \<and> group_state s = (\<lambda>_. None) \<and> admin_poll_set s = {} \<and>
    admin_poll_queue s = [] \<and> 0 < admin_poll_batch s"
  using assms by (auto simp: td_start_def setAdminPollConfig_def Impl_def send_query_def Let_def)

lemma trace_inv_start: "td_start s \<Longrightarrow> trace_inv s"
  by (drule start_trace) (simp add: trace_inv_def events_ok_def files_announced_def replies_announced_def)

lemma trace_inv_reach: "reach td_start td_step s \<Longrightarrow> trace_inv s"
  by (erule reach_invariant) (auto intro: trace_inv_start trace_inv_step)

section \<open>Routing and order of the emitted messages\<close>

text \<open>C17: whatever TDLib sends, as long as \<open>getMessage\<close> answers with a message of the chat asked for, every
  message is handed on to the table of its chat kind, and links come after what they link. Private
  messages have positive chat ids and group messages others (so neither violates the foreign key of its
  table); a file or a reply is linked only after the message it belongs to has been handed on, to the
  same table, and as one of the seven kinds of media; and no empty administrator list is ever handed on.\<close>

theorem events_routed_and_ordered:
  assumes "reach td_start td_step s" and "events s = xs @ e # ys"
  shows "(\<forall>pm. e = E_Private pm \<longrightarrow> 0 < pm_chat_id pm) \<and>
    (\<forall>gm. e = E_Group_Message gm \<longrightarrow> \<not> 0 < gm_chat_id gm) \<and>
    (\<forall>mf. e = E_File mf \<longrightarrow> mf_content_type mf \<in> set media_categories \<and> announced (mf_chat_id mf) (mf_message_id mf) (mf_is_group mf) xs) \<and>
    (\<forall>mr. e = E_Reply mr \<longrightarrow> announced (mr_chat_id mr) (mr_message_id mr) (mr_is_group mr) xs) \<and>
    (\<forall>al. e = E_Admins al \<longrightarrow> al_admins al \<noteq> [])"
proof -
  have ok: "events_ok (events s)" using trace_inv_reach [OF assms(1)] by (simp add: trace_inv_def)
  have "length xs < length (events s)" by (simp add: assms(2))
  with ok have "event_ok (take (length xs) (events s)) (events s ! length xs)"
    unfolding events_ok_def by blast
  then have "event_ok xs e" using assms(2) by simp
  then show ?thesis by (auto simp: event_ok_def is_private_chat_def reply_announced_def)
qed
section \<open>A run\<close>

definition sample_client :: td where
  "sample_client = setAdminPollConfig 300 4
     (fold set_handler [H_User, H_FullInfo, H_Photo, H_Group, H_Admins, H_Group_Photo, H_Text, H_Private,
        H_Group_Message, H_File, H_Reply] (Impl 1 ''hash'' ''dir'' []))"

text \<open>Message 2 of chat 7 replies to message 1, which TDLib then delivers.\<close>

definition first_message :: td_message where
  "first_message = sample_message 7 1 (Some (Content_Text (Some ''hi''))) None"

definition replying_client :: td where
  "replying_client = process_response 0 (Some (O_Update (U_NewMessage
     (sample_message 7 2 (Some (Content_Text (Some ''yes''))) (Some (Reply_Message 0 1)))))) sample_client"

definition replied_client :: td where
  "replied_client = process_response 2 (Some (O_Message first_message)) replying_client"

lemmas client_eval = sample_client_def replying_client_def replied_client_def first_message_def
  sample_message_def setAdminPollConfig_def set_handler_def Impl_def send_query_def Let_def
  process_response_def handle_new_message_def route_message_def is_private_chat_def
  handle_message_for_private_chat_def build_private_message_def extract_forward_info_def
  forward_origin_def maybe_download_message_file_def message_content_file_def resolve_reply_message_def
  reply_target_def kMaxReplyDepth_def text_message_def sender_id_of_def emit_def

lemmas client_eval2 = resume_def message_of_def on_reply_def mark_reply_resolved_def kReplyDedupCap_def
  ensure_message_entities_def ensure_user_saved_def

lemma sample_start: "td_start sample_client"
  unfolding td_start_def sample_client_def by blast

lemma replying_events:
  "\<exists>pm xm. events replying_client = [E_Private pm, E_Text xm] \<and> pm_chat_id pm = 7 \<and> pm_message_id pm = 2"
  by (simp add: client_eval)

lemma replying_continuation:
  "continuations replying_client 2 = Some (K_Reply \<lparr>mr_chat_id = 7, mr_message_id = 2,
     mr_reply_to_chat_id = 7, mr_reply_to_msg_id = 1, mr_is_group = False\<rparr> 0)"
  by (simp add: client_eval)

lemma replying_reach: "reach td_start td_step replying_client"
  unfolding replying_client_def
  by (rule reach_step, rule reach_init, rule sample_start, rule td_response) (simp add: honest_def)

lemma replied_reach: "reach td_start td_step replied_client"
  unfolding replied_client_def
  by (rule reach_step [OF replying_reach], rule td_response)
    (simp add: honest_def replying_continuation first_message_def sample_message_def)

lemma replied_events: "\<exists>pm xm pm1. events replied_client = [E_Private pm, E_Text xm, E_Private pm1]
     @ E_Reply \<lparr>mr_chat_id = 7, mr_message_id = 2, mr_reply_to_chat_id = 7, mr_reply_to_msg_id = 1,
                 mr_is_group = False\<rparr> # []"
  unfolding replied_client_def
  by (simp add: process_response_def replying_continuation)
    (simp add: client_eval client_eval2)
theorem events_routed_and_ordered_witness:
  "\<exists>pm xm pm1. announced 7 2 False [E_Private pm, E_Text xm, E_Private pm1] \<and>
     events replied_client = [E_Private pm, E_Text xm, E_Private pm1, E_Reply
       \<lparr>mr_chat_id = 7, mr_message_id = 2, mr_reply_to_chat_id = 7, mr_reply_to_msg_id = 1,
        mr_is_group = False\<rparr>]"
proof -
  obtain pm xm pm1 where ev: "events replied_client = [E_Private pm, E_Text xm, E_Private pm1]
     @ E_Reply \<lparr>mr_chat_id = 7, mr_message_id = 2, mr_reply_to_chat_id = 7, mr_reply_to_msg_id = 1,
                 mr_is_group = False\<rparr> # []"
    using replied_events by blast
  from events_routed_and_ordered [OF replied_reach ev] ev show ?thesis by auto
qed
section \<open>Query ids\<close>

definition ids_inv :: "td \<Rightarrow> bool" where
  "ids_inv s \<longleftrightarrow> map fst (sent s) = map (\<lambda>n. of_nat (Suc n)) [0..<length (sent s)] \<and>
     current_query_id s = of_nat (length (sent s)) \<and>
     (\<forall>i. continuations s i \<noteq> None \<longrightarrow> i \<in> fst ` set (sent s))"

lemma ids_send: "ids_inv s \<Longrightarrow> ids_inv (send_query q k s)"
  by (auto simp: ids_inv_def send_query_def Let_def split: option.splits)

lemma ids_act: "act A s t \<Longrightarrow> ids_inv s \<Longrightarrow> ids_inv t"
proof (induction rule: act.induct)
  case (act_send s k q)
  then show ?case by (intro ids_send)
qed (auto simp: ids_inv_def same_trace_def)

lemma ids_acts: "acts A s t \<Longrightarrow> ids_inv s \<Longrightarrow> ids_inv t"
  using acts_invariant [of A s t ids_inv] ids_act by blast

lemma ids_consume: "ids_inv s \<Longrightarrow> ids_inv (consume i s)"
  by (auto simp: ids_inv_def)

lemma ids_flags [simp]: "ids_inv (set_flags au st sa cl s) = ids_inv s"
  by (simp add: ids_inv_def)

text \<open>Ids are the numbers of the queries, as long as they fit 64 bits.\<close>

lemma of_nat_word_inj:
  "of_nat m = (of_nat n :: 'a::len word) \<Longrightarrow> m < 2 ^ LENGTH('a) \<Longrightarrow> n < 2 ^ LENGTH('a) \<Longrightarrow> m = n"
  by (metis take_bit_nat_eq_self word_of_nat_eq_iff)

lemma of_nat_64_inj: "of_nat m = (of_nat n :: 64 word) \<Longrightarrow> m < 2 ^ 64 \<Longrightarrow> n < 2 ^ 64 \<Longrightarrow> m = n"
  by (erule of_nat_word_inj) simp_all

lemma sent_ids: "ids_inv s \<Longrightarrow> i \<in> fst ` set (sent s) \<Longrightarrow> \<exists>n<length (sent s). i = of_nat (Suc n)"
proof -
  assume "ids_inv s" and "i \<in> fst ` set (sent s)"
  then have "i \<in> set (map (\<lambda>n. of_nat (Suc n)) [0..<length (sent s)])"
    unfolding ids_inv_def by (metis set_map)
  then show ?thesis by auto
qed

lemma fresh_id:
  assumes "ids_inv s" and "Suc (length (sent s)) < 2 ^ 64"
  shows "current_query_id s + 1 \<notin> fst ` set (sent s)" and "continuations s (current_query_id s + 1) = None"
proof -
  show new: "current_query_id s + 1 \<notin> fst ` set (sent s)"
  proof
    assume "current_query_id s + 1 \<in> fst ` set (sent s)"
    with sent_ids [OF assms(1)] obtain n where n: "n < length (sent s)"
      and eq: "current_query_id s + 1 = of_nat (Suc n)" by blast
    from eq assms(1) have "(of_nat (Suc (length (sent s))) :: 64 word) = of_nat (Suc n)"
      by (simp add: ids_inv_def add.commute)
    then have "Suc (length (sent s)) = Suc n" by (rule of_nat_64_inj) (use assms(2) n in auto)
    with n show False by simp
  qed
  with assms(1) show "continuations s (current_query_id s + 1) = None"
    by (auto simp: ids_inv_def)
qed

lemma distinct_ids:
  assumes inv: "ids_inv s" and len: "length (sent s) < 2 ^ 64"
  shows "distinct (map fst (sent s)) \<and> 0 \<notin> set (map fst (sent s))"
proof -
  let ?id = "\<lambda>n. of_nat (Suc n) :: 64 word"
  have ids: "map fst (sent s) = map ?id [0..<length (sent s)]" using inv by (simp add: ids_inv_def)
  have inj: "m = n" if "?id m = ?id n" and "m < length (sent s)" and "n < length (sent s)" for m n
    using of_nat_64_inj [OF that(1)] that(2,3) len by simp
  have "?id n \<noteq> 0" if "n < length (sent s)" for n
    using of_nat_64_inj [of "Suc n" 0] that len by auto
  with inj show ?thesis unfolding ids by (auto simp: distinct_map inj_on_def)
qed

text \<open>A query that has been answered stays answered.\<close>

lemma act_sent: "act A s t \<Longrightarrow> \<exists>qs. sent t = sent s @ qs"
  by (induction rule: act.induct) (auto simp: same_trace_def)

lemma acts_sent: "acts A s t \<Longrightarrow> \<exists>qs. sent t = sent s @ qs"
proof (induction rule: acts.induct)
  case (acts_step s t u)
  then show ?case using act_sent [of A t u] by auto
qed simp

definition answered :: "64 word \<Rightarrow> td \<Rightarrow> bool" where
  "answered i s \<longleftrightarrow> i \<in> fst ` set (sent s) \<and> continuations s i = None"

lemma answered_send:
  assumes "answered i s" and "ids_inv s" and "length (sent (send_query q k s)) < 2 ^ 64"
  shows "answered i (send_query q k s)"
proof -
  have "Suc (length (sent s)) < 2 ^ 64" using assms(3) by simp
  from fresh_id(1) [OF assms(2) this] assms(1) have "i \<noteq> current_query_id s + 1"
    unfolding answered_def by metis
  with assms(1) show ?thesis by (auto simp: answered_def send_query_def Let_def split: option.splits)
qed

lemma answered_act:
  assumes "act A s t" and "answered i s" and "ids_inv s" and len: "length (sent t) < 2 ^ 64"
  shows "answered i t"
  using assms(1)
proof cases
  case (act_send k q)
  show ?thesis unfolding act_send(1) using assms(2,3) len act_send(1) by (auto intro: answered_send)
qed (use assms(2) in \<open>auto simp: answered_def same_trace_def\<close>)

lemma answered_acts:
  assumes "acts A s t" and "answered i s" and "ids_inv s" and len: "length (sent t) < 2 ^ 64"
  shows "answered i t"
  using assms
proof (induction rule: acts.induct)
  case (acts_step s t u)
  then have "length (sent t) < 2 ^ 64" using act_sent [of A t u] by auto
  with acts_step have "answered i t" by blast
  moreover have "ids_inv t" using acts_step by (blast intro: ids_acts)
  ultimately show ?case using acts_step answered_act by blast
qed

section \<open>The alarm\<close>

definition alarms :: "td \<Rightarrow> 64 word set" where
  "alarms s = {i. continuations s i = Some K_Alarm}"

definition alarm_inv :: "td \<Rightarrow> bool" where
  "alarm_inv s \<longleftrightarrow> (\<exists>i. alarms s \<subseteq> {i}) \<and> (\<not> admin_poll_started s \<longrightarrow> alarms s = {}) \<and>
     (admin_poll_started s \<and> \<not> stopped s \<and> \<not> closing s \<longrightarrow> alarms s \<noteq> {})"

lemma alarms_flags [simp]: "alarms (set_flags au st sa cl s) = alarms s"
  by (simp add: alarms_def)

lemma alarms_consume [simp]: "alarms (consume i s) = alarms s - {i}"
  by (auto simp: alarms_def)

lemma alarms_send [simp]: "k \<noteq> Some K_Alarm \<Longrightarrow> alarms (send_query q k s) = alarms s"
  by (auto simp: alarms_def send_query_def Let_def split: option.splits)

lemma alarms_act: "act A s t \<Longrightarrow> alarms t = alarms s"
proof (induction rule: act.induct)
  case (act_send s k q)
  then have "k \<noteq> Some K_Alarm" by (auto simp: query_ok_def)
  then show ?case by simp
qed (auto simp: alarms_def same_trace_def)

lemma alarms_acts: "acts A s t \<Longrightarrow> alarms t = alarms s"
  by (induction rule: acts.induct) (auto dest: alarms_act)

lemma act_flags:
  "act A s t \<Longrightarrow> (stopped t, closing t, admin_poll_started t) = (stopped s, closing s, admin_poll_started s)"
  by (induction rule: act.induct) (auto simp: same_trace_def)

lemma acts_flags:
  "acts A s t \<Longrightarrow> (stopped t, closing t, admin_poll_started t) = (stopped s, closing s, admin_poll_started s)"
  by (induction rule: acts.induct) (auto dest: act_flags)

lemma alarm_inv_acts: "acts A s t \<Longrightarrow> alarm_inv t = alarm_inv s"
  using alarms_acts [of A s t] acts_flags [of A s t] by (simp add: alarm_inv_def)

lemma arm_alarms:
  assumes "ids_inv s" and "length (sent (arm_admin_alarm s)) < 2 ^ 64"
  shows "alarms (arm_admin_alarm s) = insert (current_query_id s + 1) (alarms s)"
  using fresh_id [OF assms(1)] assms(2)
  by (auto simp: alarms_def arm_admin_alarm_def send_query_def Let_def)
definition heart_inv :: "td \<Rightarrow> bool" where
  "heart_inv s \<longleftrightarrow> trace_inv s \<and> ids_inv s \<and> (length (sent s) < 2 ^ 64 \<longrightarrow> alarm_inv s)"

lemma step_sent:
  assumes "td_step s t" and "trace_inv s"
  shows "\<exists>qs. sent t = sent s @ qs"
  using assms
proof (cases rule: step_cases)
  case plain
  then show ?thesis by (rule acts_sent)
next
  case (consumed i k)
  with acts_sent [of UNIV "consume i s" t] show ?thesis by simp
next
  case (alarm i)
  with acts_sent [OF acts_poll [OF acts_refl [of UNIV]], of "consume i s"] show ?thesis
    by (auto simp: on_admin_alarm_def arm_admin_alarm_def)
next
  case (authorization a)
  then show ?thesis
    by (auto simp: authorization_flags authorization_ready Let_def arm_admin_alarm_def
        simp del: on_authorization_state_update.simps)
qed (simp add: close_flags)

lemma ids_step:
  assumes "td_step s t" and "trace_inv s" and ids: "ids_inv s"
  shows "ids_inv t"
  using assms(1,2)
proof (cases rule: step_cases)
  case plain
  then show ?thesis using ids by (rule ids_acts)
next
  case (consumed i k)
  then show ?thesis using ids_consume [OF ids] ids_acts by blast
next
  case (alarm i)
  have "ids_inv (poll_admin_batch (consume i s))"
    by (rule ids_acts [OF acts_poll [OF acts_refl [of UNIV]] ids_consume [OF ids]])
  with alarm ids_consume [OF ids] show ?thesis
    by (auto simp: on_admin_alarm_def arm_admin_alarm_def intro: ids_send)
next
  case (authorization a)
  with ids show ?thesis
    by (auto simp: authorization_flags authorization_ready Let_def arm_admin_alarm_def intro!: ids_send
        simp del: on_authorization_state_update.simps)
next
  case closing
  with ids show ?thesis by (auto simp: close_flags intro!: ids_send)
qed

text \<open>The alarm that fires is gone; unless the client is dying, it is armed again.\<close>

lemma alarm_fired:
  assumes ids: "ids_inv s" and inv: "alarm_inv s" and i: "continuations s i = Some K_Alarm"
    and len: "length (sent (on_admin_alarm (consume i s))) < 2 ^ 64"
  shows "alarm_inv (on_admin_alarm (consume i s))"
proof -
  let ?s = "consume i s"
  from inv i have none: "alarms ?s = {}" by (auto simp: alarm_inv_def alarms_def)
  from inv i have started: "admin_poll_started s" by (auto simp: alarm_inv_def alarms_def)
  show ?thesis
  proof (cases "stopped s \<or> closing s")
    case True
    with none started show ?thesis by (auto simp: on_admin_alarm_def alarm_inv_def)
  next
    case False
    define t where "t = (if is_authorized ?s \<and> H_Admins \<in> installed ?s then poll_admin_batch ?s else ?s)"
    have act: "acts UNIV ?s t" by (auto simp: t_def intro: acts_poll)
    have t: "on_admin_alarm ?s = arm_admin_alarm t" using False by (simp add: on_admin_alarm_def t_def)
    have "ids_inv t" by (rule ids_acts [OF act ids_consume [OF ids]])
    then have "alarms (arm_admin_alarm t) = insert (current_query_id t + 1) (alarms t)"
      by (rule arm_alarms) (use len t in simp)
    then have "alarms (on_admin_alarm ?s) = {current_query_id t + 1}"
      unfolding t alarms_acts [OF act] none .
    moreover have "admin_poll_started (on_admin_alarm ?s)"
      using acts_flags [OF act] started unfolding t by (simp add: arm_admin_alarm_def)
    ultimately show ?thesis by (auto simp: alarm_inv_def)
  qed
qed

lemma alarm_ready:
  assumes ids: "ids_inv s" and inv: "alarm_inv s"
    and len: "length (sent (on_authorization_state_update A_Ready s)) < 2 ^ 64"
  shows "alarm_inv (on_authorization_state_update A_Ready s)"
proof -
  let ?t = "send_query Q_GetMe (Some K_Me) (set_flags True (stopped s) (admin_poll_started s) (closing s) s)"
  let ?u = "set_flags True (stopped s) True (closing s) ?t"
  show ?thesis
  proof (cases "first_alarm s")
    case True
    then have t: "on_authorization_state_update A_Ready s = arm_admin_alarm ?u"
      by (simp add: authorization_ready del: on_authorization_state_update.simps)
    have "ids_inv ?u" using ids by (auto intro: ids_send)
    from arm_alarms [OF this] len inv True have "alarms (arm_admin_alarm ?u) = {current_query_id ?u + 1}"
      unfolding t by (simp add: alarm_inv_def first_alarm_def)
    then show ?thesis unfolding t by (auto simp: alarm_inv_def arm_admin_alarm_def)
  next
    case False
    then have t: "on_authorization_state_update A_Ready s = ?t"
      by (simp add: authorization_ready del: on_authorization_state_update.simps)
    show ?thesis unfolding t using inv by (simp add: alarm_inv_def)
  qed
qed

lemma heart_step:
  assumes step: "td_step s t" and inv: "heart_inv s"
  shows "heart_inv t"
proof -
  from inv have trace: "trace_inv s" and ids: "ids_inv s" by (simp_all add: heart_inv_def)
  have "alarm_inv t" if len: "length (sent t) < 2 ^ 64"
  proof -
    from step_sent [OF step trace] len have "length (sent s) < 2 ^ 64" by auto
    with inv have alarm: "alarm_inv s" by (simp add: heart_inv_def)
    from step trace show ?thesis
    proof (cases rule: step_cases)
      case plain
      with alarm show ?thesis by (simp add: alarm_inv_acts)
    next
      case (consumed i k)
      then have "alarms (consume i s) = alarms s" by (auto simp: alarms_def)
      with alarm have "alarm_inv (consume i s)" by (simp add: alarm_inv_def)
      with alarm_inv_acts [OF consumed(3)] show ?thesis by simp
    next
      case (alarm i)
      then show ?thesis using alarm_fired [OF ids \<open>alarm_inv s\<close>] len by simp
    next
      case (authorization a)
      then consider "a = A_Ready" | "a = A_LoggingOut" | "a = A_Closed" by blast
      then show ?thesis
      proof cases
        case 1
        with authorization len show ?thesis using alarm_ready [OF ids alarm] by simp
      qed (use alarm authorization in \<open>auto simp: authorization_flags alarm_inv_def
        simp del: on_authorization_state_update.simps\<close>)
    next
      case closing
      with alarm show ?thesis by (auto simp: close_flags alarm_inv_def)
    qed
  qed
  with trace_inv_step [OF step trace] ids_step [OF step trace ids] show ?thesis
    by (simp add: heart_inv_def)
qed

lemma heart_start: "td_start s \<Longrightarrow> heart_inv s"
  using trace_inv_start [of s] start_trace [of s]
  by (simp add: heart_inv_def ids_inv_def alarm_inv_def alarms_def)

lemma heart_reach: "reach td_start td_step s \<Longrightarrow> heart_inv s"
  by (erule reach_invariant) (auto intro: heart_start heart_step)

text \<open>
  Polling starts with a login, if it is configured: with a positive interval, and a handler for the
  lists. A run of the client in which is noted whether TDLib has reported a login.
\<close>

definition polls :: "td \<Rightarrow> bool" where
  "polls s \<longleftrightarrow> 0 < admin_poll_interval s \<and> H_Admins \<in> installed s"

definition login :: "64 word \<Rightarrow> td_object option \<Rightarrow> bool" where
  "login i obj \<longleftrightarrow> i = 0 \<and> obj = Some (O_Update (U_AuthorizationState A_Ready))"

definition login_start :: "bool \<times> td \<Rightarrow> bool" where
  "login_start x \<longleftrightarrow> \<not> fst x \<and> td_start (snd x)"

inductive login_step :: "bool \<times> td \<Rightarrow> bool \<times> td \<Rightarrow> bool" where
  login_response: "honest s i obj \<Longrightarrow> login_step (seen, s) (seen \<or> login i obj, process_response i obj s)"
| login_close: "login_step (seen, s) (seen, close_client s)"

lemma login_td_step: "login_step x y \<Longrightarrow> td_step (snd x) (snd y)"
  by (auto elim!: login_step.cases intro: td_step.intros)

lemma login_reach: "reach login_start login_step x \<Longrightarrow> reach td_start td_step (snd x)"
  by (induction rule: reach.induct) (auto simp: login_start_def intro: reach_init reach_step login_td_step)

lemma act_polls: "act A s t \<Longrightarrow> polls t = polls s"
  by (induction rule: act.induct) (auto simp: polls_def same_trace_def)

lemma acts_started: "acts A s t \<Longrightarrow> (admin_poll_started t, polls t) = (admin_poll_started s, polls s)"
proof (induction rule: acts.induct)
  case (acts_step s t u)
  then show ?case using act_polls [of A t u] act_flags [of A t u] by simp
qed simp

lemma polls_simps [simp]: "polls (consume i s) = polls s" "polls (send_query q k s) = polls s"
  "polls (set_flags au st sa cl s) = polls s" "polls (arm_admin_alarm s) = polls s"
  by (simp_all add: polls_def arm_admin_alarm_def set_flags_def)

lemma arm_started [simp]: "admin_poll_started (arm_admin_alarm s) = admin_poll_started s"
  by (simp add: arm_admin_alarm_def)

lemma response_started:
  assumes h: "honest s i obj" and inv: "trace_inv s"
  shows "(admin_poll_started (process_response i obj s), polls (process_response i obj s)) =
    (admin_poll_started s \<or> login i obj \<and> polls s, polls s)"
proof (cases "login i obj")
  case True
  then have "process_response i obj s = on_authorization_state_update A_Ready s"
    by (simp add: login_def process_response_def)
  with True show ?thesis
    by (auto simp: authorization_ready first_alarm_def polls_def [symmetric] Let_def
        simp del: on_authorization_state_update.simps)
next
  case False
  note h inv refl [of "process_response i obj s"]
  then show ?thesis
  proof (cases rule: response_cases)
    case plain
    with acts_started [OF plain] False show ?thesis by simp
  next
    case (consumed k)
    with acts_started [OF consumed(3)] False show ?thesis by simp
  next
    case alarm
    have "(admin_poll_started (poll_admin_batch (consume i s)), polls (poll_admin_batch (consume i s))) =
        (admin_poll_started s, polls s)"
      using acts_started [OF acts_poll [OF acts_refl [of UNIV]], of "consume i s"] by simp
    with alarm False show ?thesis by (simp add: on_admin_alarm_def)
  next
    case (authorization a)
    with False show ?thesis
      by (auto simp: login_def authorization_flags simp del: on_authorization_state_update.simps)
  qed
qed

lemma started_login:
  assumes "reach login_start login_step x"
  shows "admin_poll_started (snd x) \<longleftrightarrow> fst x \<and> polls (snd x)"
  using assms
proof (induction rule: reach.induct)
  case (reach_init x)
  with start_trace [of "snd x"] show ?case by (simp add: login_start_def)
next
  case (reach_step x y)
  from trace_inv_reach [OF login_reach [OF reach_step(1)]] have inv: "trace_inv (snd x)" .
  from reach_step(2) show ?case
  proof cases
    case (login_response s i obj seen)
    with response_started [OF login_response(3)] inv reach_step(3) show ?thesis by auto
  next
    case (login_close seen s)
    with reach_step(3) show ?thesis by (simp add: close_flags)
  qed
qed

text \<open>C29: exactly one alarm. If polling is configured (the interval is positive and a handler for the
  lists is installed), exactly one alarm of the administrator poll is in flight from the moment TDLib
  reports the first login until the client is stopped or closing, whatever TDLib answered in between
  and however often it reports a login again. There are never two. Before the first login, or if
  polling is not configured (an interval of 0 disables it), there is none. All this as long as fewer
  than \<open>2 ^ 64\<close> queries have been sent.\<close>

theorem one_alarm_in_flight:
  assumes "reach login_start login_step (seen, s)" and "length (sent s) < 2 ^ 64"
  shows "(seen \<and> 0 < admin_poll_interval s \<and> H_Admins \<in> installed s \<and> \<not> stopped s \<and> \<not> closing s \<longrightarrow>
      (\<exists>!i. continuations s i = Some K_Alarm)) \<and>
    (\<forall>i j. continuations s i = Some K_Alarm \<and> continuations s j = Some K_Alarm \<longrightarrow> i = j) \<and>
    (\<not> seen \<or> admin_poll_interval s \<le> 0 \<or> H_Admins \<notin> installed s \<longrightarrow> (\<forall>i. continuations s i \<noteq> Some K_Alarm))"
proof -
  from heart_reach [OF login_reach [OF assms(1)]] assms(2) have "alarm_inv s" by (simp add: heart_inv_def)
  moreover have "admin_poll_started s \<longleftrightarrow> seen \<and> 0 < admin_poll_interval s \<and> H_Admins \<in> installed s"
    using started_login [OF assms(1)] by (simp add: polls_def)
  ultimately show ?thesis unfolding alarm_inv_def alarms_def by (auto simp: not_less)
qed

definition ready_client :: td where
  "ready_client = process_response 0 (Some (O_Update (U_AuthorizationState A_Ready))) sample_client"

lemma ready_reach: "reach td_start td_step ready_client"
  unfolding ready_client_def
  by (rule reach_step, rule reach_init, rule sample_start, rule td_response) (simp add: honest_def)

theorem one_alarm_in_flight_witness: "\<exists>!i. continuations ready_client i = Some K_Alarm"
proof -
  have "login_step (False, sample_client) (False \<or> login 0 (Some (O_Update (U_AuthorizationState A_Ready))), ready_client)"
    unfolding ready_client_def by (rule login_response) (simp add: honest_def)
  then have "reach login_start login_step (True, ready_client)"
    using reach_init [of login_start "(False, sample_client)"] sample_start
    by (auto simp: login_start_def login_def intro: reach_step)
  moreover have "length (sent ready_client) = 3" "0 < admin_poll_interval ready_client" "H_Admins \<in> installed ready_client"
    "\<not> stopped ready_client" "\<not> closing ready_client"
    by (simp_all add: ready_client_def client_eval arm_admin_alarm_def)
  ultimately show ?thesis using one_alarm_in_flight [of True ready_client] by simp
qed

lemma answered_alarm:
  assumes "answered i s" and "ids_inv s" and "length (sent (on_admin_alarm s)) < 2 ^ 64"
  shows "answered i (on_admin_alarm s)"
proof (cases "stopped s \<or> closing s")
  case True
  with assms(1) show ?thesis by (simp add: on_admin_alarm_def)
next
  case False
  define t where "t = (if is_authorized s \<and> H_Admins \<in> installed s then poll_admin_batch s else s)"
  have act: "acts UNIV s t" by (auto simp: t_def intro: acts_poll)
  have t: "on_admin_alarm s = send_query (Q_SetAlarm (admin_poll_interval t)) (Some K_Alarm) t"
    using False by (simp add: on_admin_alarm_def t_def arm_admin_alarm_def)
  with assms(3) have "length (sent t) < 2 ^ 64" by simp
  with act assms(1,2) have "answered i t" by (rule answered_acts)
  with t assms(3) ids_acts [OF act assms(2)] show ?thesis by (auto intro: answered_send)
qed

text \<open>C27: query ids are fresh and answers are used once. As long as fewer than \<open>2 ^ 64\<close> queries have been
  sent, no two queries have the same id and none has the id 0 of an update; a continuation waits only
  for a query that was sent; and processing a response removes its continuation for good, so that a
  second response with the same id changes nothing.\<close>

theorem query_ids_fresh:
  assumes r: "reach td_start td_step s" and h: "honest s i (Some obj)" and i: "i \<noteq> 0"
    and len: "length (sent (process_response i (Some obj) s)) < 2 ^ 64"
  shows "distinct (map fst (sent s)) \<and> 0 \<notin> set (map fst (sent s)) \<and>
    (\<forall>j. continuations s j \<noteq> None \<longrightarrow> j \<in> set (map fst (sent s))) \<and>
    continuations (process_response i (Some obj) s) i = None \<and>
    process_response i obj2 (process_response i (Some obj) s) = process_response i (Some obj) s"
proof -
  let ?t = "process_response i (Some obj) s"
  from heart_reach [OF r] have trace: "trace_inv s" and ids: "ids_inv s" by (simp_all add: heart_inv_def)
  from step_sent [OF td_response [OF h] trace] len have "length (sent s) < 2 ^ 64" by auto
  note distinct_ids [OF ids this]
  moreover have "\<forall>j. continuations s j \<noteq> None \<longrightarrow> j \<in> set (map fst (sent s))" using ids unfolding ids_inv_def set_map by blast
  moreover have none: "continuations ?t i = None"
  proof (cases "continuations s i")
    case None
    with i show ?thesis by (simp add: process_response_def)
  next
    case (Some k)
    with i have t: "?t = resume k obj (consume i s)" by (simp add: process_response_def consume_def)
    from Some ids have "i \<in> fst ` set (sent s)" by (simp add: ids_inv_def)
    then have ans: "answered i (consume i s)" by (simp add: answered_def)
    have "answered i ?t"
    proof (cases "k = K_Alarm")
      case True
      with t answered_alarm [OF ans ids_consume [OF ids]] len show ?thesis by (simp add: resume_def)
    next
      case False
      have "acts UNIV (consume i s) (resume k obj (consume i s))"
        using trace Some h i
        by (intro acts_resume [OF False]) (auto simp: trace_inv_def replies_announced_def honest_def)
      from answered_acts [OF this ans ids_consume [OF ids]] len t show ?thesis by simp
    qed
    then show ?thesis by (simp add: answered_def)
  qed
  moreover have "process_response i obj2 ?t = ?t"
    using none i by (simp add: process_response_def [of i obj2] split: option.split)
  ultimately show ?thesis by blast
qed

theorem query_ids_fresh_witness:
  "process_response 2 (Some O_Other) replied_client = replied_client \<and>
   continuations replied_client 2 = None"
proof -
  have "honest replying_client 2 (Some (O_Message first_message))"
    by (simp add: honest_def replying_continuation first_message_def sample_message_def)
  moreover have "length (sent (process_response 2 (Some (O_Message first_message)) replying_client)) = 4"
    by (simp add: process_response_def replying_continuation) (simp add: client_eval client_eval2)
  ultimately show ?thesis
    using query_ids_fresh [OF replying_reach, of 2 "O_Message first_message" "Some O_Other"]
    by (simp add: replied_client_def)
qed
section \<open>Administrator lists\<close>

lemma response_lists:
  assumes h: "honest s i obj" and inv: "trace_inv s"
  shows "\<exists>es. events (process_response i obj s) = events s @ es \<and> events_in (labels s i obj) es"
  using h inv refl [of "process_response i obj s"]
proof (cases rule: response_cases)
  case plain
  then show ?thesis by (rule acts_said)
next
  case (consumed k)
  from acts_said [OF consumed(3)] show ?thesis by simp
next
  case alarm
  obtain es where "events (poll_admin_batch (consume i s)) = events s @ es" "events_in (labels s i obj) es"
    using acts_said [OF acts_poll [OF acts_refl], of "consume i s" "labels s i obj"] by auto
  then show ?thesis
    unfolding alarm by (auto simp: on_admin_alarm_def arm_admin_alarm_def)
next
  case (authorization a)
  then show ?thesis
    by (auto simp: authorization_flags authorization_ready Let_def arm_admin_alarm_def
        simp del: on_authorization_state_update.simps)
qed

text \<open>C28: the data-loss guard. An administrator list is handed on only on a response that really brings
  one: the member list asked for that very group, or the members of a basic group that is polled
  (then it is the mapped administrators of that response, in order), and it is never empty. In
  particular an error, whatever its code, never empties the stored list.\<close>

theorem admins_only_from_lists:
  assumes r: "reach td_start td_step s" and h: "honest s i obj"
  shows "\<exists>es. events (process_response i obj s) = events s @ es \<and>
    (\<forall>al. E_Admins al \<in> set es \<longrightarrow> al_admins al \<noteq> [] \<and>
      (i \<noteq> 0 \<and> continuations s i = Some (K_Admins (al_group_id al)) \<and>
         (\<exists>ms. obj = Some (O_Members ms) \<and> al_admins al = admins_of ms) \<or>
       i = 0 \<and> al_group_id al \<in> admin_poll_set s \<and>
         (\<exists>g d ms. obj = Some (O_Update (U_BasicGroupFullInfo g (Some (d, ms)))) \<and>
            al_group_id al = st_chat_id (known_group g s) \<and> al_admins al = admins_of ms)))"
proof -
  let ?t = "process_response i obj s"
  from response_lists [OF h] heart_reach [OF r] obtain es
    where es: "events ?t = events s @ es" and lists: "events_in (labels s i obj) es"
    by (auto simp: heart_inv_def)
  have "al_admins al \<noteq> []" if mem: "E_Admins al \<in> set es" for al
  proof -
    from mem es obtain xs ys where "events ?t = xs @ E_Admins al # ys"
      by (metis append_assoc append_Cons split_list)
    moreover have "trace_inv ?t"
      using trace_inv_step [OF td_response [OF h]] heart_reach [OF r] by (simp add: heart_inv_def)
    ultimately have "event_ok xs (E_Admins al)"
      unfolding trace_inv_def events_ok_def
      by (metis append_eq_conv_conj length_append less_add_same_cancel1 length_greater_0_conv list.discI nth_append_length)
    then show ?thesis by (simp add: event_ok_def)
  qed
  with es events_in_admins [OF lists] show ?thesis by (auto simp: labels_def fetched_list_def image_iff)
qed
definition group_chat :: td_chat where
  "group_chat = \<lparr>ch_id = - 100, ch_title = ''club'', ch_type = Some (Chat_Supergroup 5 False), ch_photo_big = None\<rparr>"

definition polling_client :: td where
  "polling_client = process_response 0 (Some (O_Update (U_NewChat (Some group_chat)))) sample_client"

lemma polling_reach: "reach td_start td_step polling_client"
  unfolding polling_client_def
  by (rule reach_step, rule reach_init, rule sample_start, rule td_response) (simp add: honest_def)

lemmas client_eval3 = polling_client_def group_chat_def handle_new_chat_def new_group_chat_def
  enter_group_def known_group_def new_group_state_def merge_supergroup_def emit_group_def
  request_group_info_def maybe_download_group_photo_def track_group_def fetch_group_admins_def

lemma polling_continuation: "continuations polling_client 3 = Some (K_Admins (- 100))"
  by (simp add: client_eval client_eval3)

theorem admins_only_from_lists_witness:
  "\<exists>es. events (process_response 3 (Some (O_Error 403 ''CHAT_ADMIN_REQUIRED'')) polling_client) =
     events polling_client @ es \<and> (\<forall>al. E_Admins al \<notin> set es)"
proof -
  have "honest polling_client 3 (Some (O_Error 403 ''CHAT_ADMIN_REQUIRED''))" by (simp add: honest_def)
  from admins_only_from_lists [OF polling_reach this] show ?thesis by auto
qed
end
