(* ===== verification/Db_Types.thy ===== *)
theory Db_Types
  imports Tg_App Td_Client_Props
begin

text \<open>
  The SQL types of the columns, from migrations/000001 to 000008: which columns may be NULL, which
  hold numbers, text, byte strings of a fixed length, or one of the values of an ENUM. A statement
  with its parameters is checked against them by a function; the programs of the model classes
  execute only statements that pass, so every stored row conforms to its table. The widths of
  numbers and character columns are not part of this: the program does not check them.
\<close>

section \<open>Types of columns\<close>

datatype sql_type = Number | Text | Enum "string list" | Binary nat

type_synonym column_type = "sql_type \<times> bool"   \<comment> \<open>whether NULL is allowed\<close>

definition conforms :: "column_type \<Rightarrow> sql_val \<Rightarrow> bool" where
  "conforms ty v =
     (case v of
        Null \<Rightarrow> snd ty
      | IntV i \<Rightarrow> fst ty = Number
      | TextV s \<Rightarrow> (case fst ty of Text \<Rightarrow> True | Enum vs \<Rightarrow> s \<in> set vs | _ \<Rightarrow> False)
      | BytesV bs \<Rightarrow> fst ty = Binary (length bs))"

abbreviation number :: column_type where "number \<equiv> (Number, False)"
abbreviation text_col :: column_type where "text_col \<equiv> (Text, False)"
abbreviation or_null :: "sql_type \<Rightarrow> column_type" where "or_null t \<equiv> (t, True)"

definition file_kinds :: "string list" where
  "file_kinds = [''photo'', ''video'', ''document'', ''audio'', ''voice'', ''sticker'', ''animation'', ''unknown'']"

definition content_kinds :: "string list" where
  "content_kinds = [''text'', ''photo'', ''video'', ''document'', ''audio'', ''voice'', ''sticker'',
     ''animation'', ''unknown'']"

definition user_kinds :: "string list" where
  "user_kinds = [''regular'', ''deleted'', ''bot'', ''unknown'']"

definition group_kinds :: "string list" where
  "group_kinds = [''basic_group'', ''supergroup'', ''channel'']"

definition name_kinds :: "string list" where
  "name_kinds = [''active'', ''disabled'', ''collectible'']"

definition name_actions :: "string list" where
  "name_actions = [''added'', ''removed'', ''reordered'', ''kind_changed'']"

definition origin_kinds :: "string list" where
  "origin_kinds = [''user'', ''hidden_user'', ''chat'', ''channel'']"

definition admin_kinds :: "string list" where
  "admin_kinds = [''creator'', ''administrator'']"

definition admin_actions :: "string list" where
  "admin_actions = [''added'', ''removed'', ''updated'']"

type_synonym table_type = "(string \<times> column_type) list"

definition files_types :: table_type where
  "files_types = [(''id'', number), (''tg_file_id'', text_col), (''file_type'', (Enum file_kinds, False)),
     (''file_size'', number), (''sha256'', (Binary 32, False)), (''file_ext'', or_null Text),
     (''orig_file_name'', text_col), (''hit_count'', number)]"

definition users_types :: table_type where
  "users_types = [(''id'', number), (''first_name'', text_col), (''last_name'', text_col), (''phone_number'', text_col),
     (''type'', (Enum user_kinds, False)), (''profile_photo_file_id'', or_null Number),
     (''accent_color_id'', number), (''background_custom_emoji_id'', number),
     (''profile_accent_color_id'', number), (''profile_background_custom_emoji_id'', number),
     (''emoji_status_custom_emoji_id'', or_null Number), (''emoji_status_expiration_date'', or_null Number),
     (''is_verified'', number), (''is_scam'', number), (''is_fake'', number), (''is_premium'', number),
     (''is_support'', number), (''restriction_reason'', text_col), (''has_sensitive_content'', number),
     (''restricts_new_chats'', number), (''paid_message_star_count'', number), (''is_contact'', number),
     (''is_mutual_contact'', number), (''is_close_friend'', number), (''have_access'', number),
     (''language_code'', text_col), (''bio'', text_col), (''personal_chat_id'', number),
     (''birthday_day'', or_null Number), (''birthday_month'', or_null Number), (''birthday_year'', or_null Number)]"

definition usernames_types :: "string \<Rightarrow> table_type" where
  "usernames_types owner = [(''id'', number), (owner, or_null Number), (''username'', text_col),
     (''kind'', (Enum name_kinds, False)), (''position'', number)]"

definition usernames_events_types :: "string \<Rightarrow> table_type" where
  "usernames_events_types owner = [(''id'', number), (owner, number), (''username'', text_col),
     (''action'', (Enum name_actions, False)), (''kind'', or_null (Enum name_kinds)), (''position'', or_null Number)]"

definition hist_types :: "string \<Rightarrow> string list \<Rightarrow> table_type" where
  "hist_types owner cols = [(''id'', number), (owner, number)] @ map (\<lambda>c. (c, text_col)) cols"

definition photo_hist_types :: "string \<Rightarrow> table_type" where
  "photo_hist_types owner = [(''id'', number), (owner, number), (''file_id'', or_null Number)]"

definition groups_types :: table_type where
  "groups_types = [(''id'', number), (''type'', (Enum group_kinds, False)), (''title'', text_col),
     (''description'', text_col), (''photo_file_id'', or_null Number)]"

definition private_messages_types :: table_type where
  "private_messages_types = [(''id'', number), (''chat_id'', number), (''message_id'', number),
     (''sender_id'', or_null Number), (''is_outgoing'', number), (''date'', number), (''edit_date'', number),
     (''content_type'', (Enum content_kinds, False)), (''text'', or_null Text), (''file_id'', or_null Number),
     (''is_deleted'', number), (''is_forwarded'', number), (''reply_to_chat_id'', or_null Number),
     (''reply_to_msg_id'', or_null Number), (''reply_to_id'', or_null Number)]"

definition group_messages_types :: table_type where
  "group_messages_types = [(''id'', number), (''chat_id'', number), (''message_id'', number),
     (''sender_user_id'', or_null Number), (''sender_chat_id'', or_null Number), (''is_outgoing'', number),
     (''is_channel_post'', number), (''author_signature'', or_null Text), (''date'', number),
     (''edit_date'', number), (''content_type'', (Enum content_kinds, False)), (''text'', or_null Text),
     (''file_id'', or_null Number), (''is_deleted'', number), (''is_forwarded'', number),
     (''reply_to_chat_id'', or_null Number), (''reply_to_msg_id'', or_null Number), (''reply_to_id'', or_null Number)]"

definition edits_types :: "string \<Rightarrow> table_type" where
  "edits_types fk = [(''id'', number), (fk, number), (''content_type'', (Enum content_kinds, False)),
     (''text'', or_null Text), (''file_id'', or_null Number), (''edit_date'', number)]"

definition fwd_info_types :: "string \<Rightarrow> table_type" where
  "fwd_info_types fk = [(''id'', number), (fk, number), (''origin_type'', (Enum origin_kinds, False)),
     (''origin_sender_user_id'', or_null Number), (''origin_sender_name'', or_null Text),
     (''origin_chat_id'', or_null Number), (''origin_message_id'', or_null Number), (''origin_date'', number)]"

definition group_admins_types :: table_type where
  "group_admins_types = [(''id'', number), (''group_id'', number), (''user_id'', number),
     (''status'', (Enum admin_kinds, False)), (''custom_title'', text_col), (''inviter_user_id'', number),
     (''joined_date'', number)] @ map (\<lambda>c. (c, number)) admin_right_columns"

definition group_admin_hist_types :: table_type where
  "group_admin_hist_types = [(''id'', number), (''group_id'', number), (''user_id'', number),
     (''action'', (Enum admin_actions, False)), (''status'', (Enum admin_kinds, False)), (''custom_title'', text_col)]
     @ map (\<lambda>c. (c, number)) admin_right_columns"

primrec column_types :: "tname \<Rightarrow> table_type" where
  "column_types T_files = files_types"
| "column_types T_users = users_types"
| "column_types T_user_usernames = usernames_types ''user_id''"
| "column_types T_user_hist_name = hist_types ''user_id'' [''first_name'', ''last_name'']"
| "column_types T_user_hist_profile_photo = photo_hist_types ''user_id''"
| "column_types T_user_hist_phone_num = hist_types ''user_id'' [''phone_number'']"
| "column_types T_user_hist_bio = hist_types ''user_id'' [''bio'']"
| "column_types T_user_hist_usernames_events = usernames_events_types ''user_id''"
| "column_types T_groups = groups_types"
| "column_types T_group_usernames = usernames_types ''group_id''"
| "column_types T_group_hist_title = hist_types ''group_id'' [''title'']"
| "column_types T_group_hist_description = hist_types ''group_id'' [''description'']"
| "column_types T_group_hist_photo = photo_hist_types ''group_id''"
| "column_types T_group_hist_usernames_events = usernames_events_types ''group_id''"
| "column_types T_private_messages = private_messages_types"
| "column_types T_private_message_edits = edits_types ''private_message_id''"
| "column_types T_private_message_fwd_info = fwd_info_types ''private_message_id''"
| "column_types T_group_messages = group_messages_types"
| "column_types T_group_message_edits = edits_types ''group_message_id''"
| "column_types T_group_message_fwd_info = fwd_info_types ''group_message_id''"
| "column_types T_group_admins = group_admins_types"
| "column_types T_group_admin_hist = group_admin_hist_types"

lemmas type_defs = files_types_def users_types_def usernames_types_def usernames_events_types_def
  hist_types_def photo_hist_types_def groups_types_def private_messages_types_def
  group_messages_types_def edits_types_def fwd_info_types_def group_admins_types_def group_admin_hist_types_def

text \<open>The typed columns are those of the schema, in its order.\<close>

lemma column_types_columns: "map fst (column_types t) = schema_columns t"
  by (cases t) (simp_all add: type_defs schema_columns_def table_defs o_def)

lemma id_type: "(''id'', number) \<in> set (column_types t)"
  by (cases t) (simp_all add: type_defs)

section \<open>Checking a statement\<close>

text \<open>A value of an INSERT, and an expression of an UPDATE over a row of \<open>t\<close>, of the given type.\<close>

fun value_ok :: "sql_val list \<Rightarrow> column_type \<Rightarrow> sql_expr \<Rightarrow> bool" where
  "value_ok args ty (sql_expr.Arg n) = (n < length args \<and> conforms ty (args ! n))"
| "value_ok args ty (Lit v) = conforms ty v"
| "value_ok args ty (Unhex (sql_expr.Arg n)) = (n < length args \<and> conforms ty (unhex_val (args ! n)))"
| "value_ok args ty _ = False"

fun expr_ok :: "tname \<Rightarrow> sql_val list \<Rightarrow> column_type \<Rightarrow> sql_expr \<Rightarrow> bool" where
  "expr_ok t args ty (Col c) = ((c, ty) \<in> set (column_types t))"
| "expr_ok t args ty (Plus a e) = (ty = number \<and> expr_ok t args number a \<and> expr_ok t args number e)"
| "expr_ok t args ty (IfEq a c d e) = (expr_ok t args ty d \<and> expr_ok t args ty e)"
| "expr_ok t args ty JoinId = (ty = or_null Number)"
| "expr_ok t args ty e = value_ok args ty e"

definition set_ok :: "tname \<Rightarrow> (column_type \<Rightarrow> bool) \<Rightarrow> string \<Rightarrow> bool" where
  "set_ok t P k = list_all (\<lambda>(c, ty). c = k \<longrightarrow> P ty) (column_types t)"

primrec stmt_typed :: "sql_stmt \<Rightarrow> sql_val list \<Rightarrow> bool" where
  "stmt_typed (Insert t cols vals odku) args =
     (list_all (\<lambda>(k, e). set_ok t (\<lambda>ty. value_ok args ty e) k) (zip cols vals) \<and> length cols = length vals \<and>
      list_all (\<lambda>(c, ty). c \<in> set cols \<or> (c = ''id'' \<and> td_auto (schema t)) \<or> conforms ty (blank_row t c))
        (column_types t))"
| "stmt_typed (Update t join sets wh) args =
     list_all (\<lambda>(k, e). set_ok t (\<lambda>ty. expr_ok t args ty e) k) sets"
| "stmt_typed (Delete t wh) args = True"

definition typed_row :: "tname \<Rightarrow> row \<Rightarrow> bool" where
  "typed_row t r = list_all (\<lambda>(c, ty). conforms ty (r c)) (column_types t)"

definition typed_rows :: row_pred where
  "typed_rows w d au \<longleftrightarrow> (\<forall>t. list_all (typed_row t) (d t))"

section \<open>A checked statement keeps the rows typed\<close>

lemma conforms_number: "conforms number v \<longleftrightarrow> (\<exists>i. v = IntV i)"
  by (cases v) (auto simp: conforms_def)

lemma typed_rowD: "typed_row t r \<Longrightarrow> (c, ty) \<in> set (column_types t) \<Longrightarrow> conforms ty (r c)"
  by (auto simp: typed_row_def list_all_iff)

lemma set_okD: "set_ok t P k \<Longrightarrow> (k, ty) \<in> set (column_types t) \<Longrightarrow> P ty"
  by (auto simp: set_ok_def list_all_iff)

lemma value_ok_eval: "value_ok args ty e \<Longrightarrow> conforms ty (eval_expr w args r j e)"
  by (induction args ty e rule: value_ok.induct) simp_all

lemmas value_ok_unhex = value_ok_eval [where e = "Unhex v" for v, simplified]

lemma expr_ok_eval:
  assumes "conforms (or_null Number) j"
  shows "typed_row t r \<Longrightarrow> expr_ok t args ty e \<Longrightarrow> conforms ty (eval_expr w args r j e)"
  using assms
  by (induction t args ty e rule: expr_ok.induct)
    (auto simp: conforms_number dest: typed_rowD intro: value_ok_eval value_ok_unhex)

lemma typed_row_upd:
  "typed_row t r \<Longrightarrow> set_ok t (\<lambda>ty. conforms ty v) k \<Longrightarrow> typed_row t (r(k := v))"
  by (auto simp: typed_row_def set_ok_def list_all_iff)

lemma set_ok_mono: "set_ok t P k \<Longrightarrow> (\<And>ty. P ty \<Longrightarrow> Q ty) \<Longrightarrow> set_ok t Q k"
  by (auto simp: set_ok_def list_all_iff)

lemma apply_sets_typed:
  assumes "typed_row t r" and "conforms (or_null Number) j"
    and "list_all (\<lambda>(k, e). set_ok t (\<lambda>ty. expr_ok t args ty e) k) sets"
  shows "typed_row t (apply_sets w args j sets r)"
  unfolding apply_sets_def
proof (rule foldl_invariant [where P = "typed_row t"])
  fix r' x
  assume r: "typed_row t r'" and "x \<in> set sets"
  moreover obtain k e where x: "x = (k, e)" by (cases x)
  ultimately have "set_ok t (\<lambda>ty. expr_ok t args ty e) k" using assms(3) by (auto simp: list_all_iff)
  then have "set_ok t (\<lambda>ty. conforms ty (eval_expr w args r' j e)) k"
    by (rule set_ok_mono) (rule expr_ok_eval [OF assms(2) r])
  with r show "typed_row t ((case x of (c, e) \<Rightarrow> r'(c := eval_expr w args r' j e)))"
    unfolding x by (simp add: typed_row_upd)
qed (rule assms(1))

lemma copy_cols_typed: "typed_row t new \<Longrightarrow> typed_row t r \<Longrightarrow> typed_row t (copy_cols cols new r)"
  unfolding copy_cols_def
  by (rule foldl_invariant [where P = "typed_row t"])
    (auto intro!: typed_row_upd simp: set_ok_def list_all_iff dest: typed_rowD)

text \<open>The row of an INSERT: a listed column has a checked value, any other its default.\<close>

lemma apply_values:
  assumes "\<And>e r. (c, e) \<in> set sets \<Longrightarrow> P (eval_expr w args r j e)" and "c \<in> fst ` set sets \<or> P (r c)"
  shows "P (apply_sets w args j sets r c)"
  using assms
proof (induction sets arbitrary: r)
  case (Cons x sets)
  obtain k e where "x = (k, e)" by (cases x)
  with Cons.prems show ?case
    by simp (rule Cons.IH, auto)
qed simp

lemma new_row_typed:
  assumes "stmt_typed (Insert t cols vals odku) args"
  shows "typed_row t (new_row w args t cols vals au)"
proof -
  let ?sets = "zip cols vals"
  let ?r = "apply_sets w args Null ?sets (blank_row t)"
  have vals: "\<And>k e. (k, e) \<in> set ?sets \<Longrightarrow> set_ok t (\<lambda>ty. value_ok args ty e) k"
    and len: "length cols = length vals"
    and rest: "\<And>c ty. (c, ty) \<in> set (column_types t) \<Longrightarrow>
      c \<in> set cols \<or> c = ''id'' \<and> td_auto (schema t) \<or> conforms ty (blank_row t c)"
    using assms by (auto simp: list_all_iff)
  have "conforms ty (?r c)" if ty: "(c, ty) \<in> set (column_types t)" and "\<not> (c = ''id'' \<and> td_auto (schema t))" for c ty
  proof (rule apply_values [where P = "conforms ty"])
    show "conforms ty (eval_expr w args r Null e)" if "(c, e) \<in> set ?sets" for e r
      using set_okD [OF vals [OF that] ty] by (rule value_ok_eval)
    show "c \<in> fst ` set ?sets \<or> conforms ty (blank_row t c)"
      using rest [OF ty] that(2) len by (metis list.set_map map_fst_zip)
  qed
  moreover have "conforms ty (IntV i)" if "(''id'', ty) \<in> set (column_types t)" for ty i
  proof -
    have "distinct (map fst (column_types t))"
      by (cases t) (simp_all add: type_defs o_def admin_right_columns_def)
    with that id_type [of t] have "ty = number" by (metis eq_key_imp_eq_value)
    then show ?thesis by (simp add: conforms_def)
  qed
  ultimately show ?thesis
    unfolding new_row_def Let_def typed_row_def list_all_iff by auto
qed

lemma exec_stmt_typed:
  assumes "stmt_typed st args" and run: "exec_stmt w args st d au = Inr (d', au')" and ok: "typed_rows w d au"
  shows "typed_rows w d' au'"
proof -
  have old: "typed_row t r" if "r \<in> set (d t)" for t r
    using ok that by (auto simp: typed_rows_def list_all_iff)
  have "list_all (typed_row (stmt_table st)) (d' (stmt_table st))"
  proof (cases st)
    case (Insert t cols vals odku)
    let ?new = "new_row w args t cols vals au"
    have new: "typed_row t ?new" using assms(1) unfolding Insert by (rule new_row_typed)
    have "set (map_first P (\<lambda>_. u) rs) \<subseteq> insert u (set rs)" for P u and rs :: "row list"
      by (induction rs) auto
    then have "list_all (typed_row t) (map_first P (\<lambda>_. copy_cols ups ?new r) (d t))" if "r \<in> set (d t)" for P ups r
      using copy_cols_typed [OF new old [OF that]] old unfolding list_all_iff by blast
    with run new old Insert show ?thesis
      by (auto simp: exec_stmt_def exec_insert_def Let_def list_all_iff
          dest!: put_rows_frame find_Some_mem split: if_splits sum.splits option.splits)
  next
    case (Update t join sets wh)
    have "conforms (or_null Number) (join_id w args join (d t))"
    proof -
      have "conforms (or_null Number) (r ''id'')" if "r \<in> set (d t)" for r
        using typed_rowD [OF old [OF that] id_type] by (auto simp: conforms_number) (simp add: conforms_def)
      then show ?thesis
        by (auto simp: join_id_def conforms_def split: option.split dest!: find_Some_mem)
    qed
    with assms(1) run old Update show ?thesis
      by (auto simp: exec_stmt_def exec_update_def Let_def list_all_iff
          dest!: put_rows_frame intro!: apply_sets_typed split: if_splits sum.splits)
  next
    case (Delete t wh)
    with run old show ?thesis
      by (auto simp: exec_stmt_def list_all_iff split: if_splits)
  qed
  moreover have "d' t = d t" if "t \<noteq> stmt_table st" for t
    using exec_stmt_frame [OF run] that by simp
  ultimately show ?thesis using ok unfolding typed_rows_def by metis
qed

section \<open>Programs\<close>

interpretation typing: row_invariant typed_rows "\<lambda>st. \<forall>args. stmt_typed st args"
proof unfold_locales
  show "typed_rows w d au'" if "typed_rows w d au" for w d au au'
    using that by (simp add: typed_rows_def)
qed (blast intro: exec_stmt_typed)

abbreviation typed :: "'a tx \<Rightarrow> bool" where
  "typed m \<equiv> keeps (on_view typed_rows) m"

lemma after_typed:
  assumes "stmt_typed st args" and "exec_stmt (weight sv) args st (view s) (autos s) = Inr (d, au)"
  shows "on_view typed_rows sv s (after_stmt st d au s)"
  using exec_stmt_typed [OF assms] by (simp add: on_view_def after_stmt_def)

lemma execute_typed: "stmt_typed st args \<Longrightarrow> typed (do_execute st args)"
  unfolding do_execute_def executeUpdate_def
  by (rule typing.keeps_drv) (auto intro: after_typed split: sum.splits)

lemma insert_typed: "stmt_typed st args \<Longrightarrow> typed (do_insert st args)"
  unfolding do_insert_def executeUpdate_def selectLastInsertId_def
  by (intro typing.keeps_bind typing.keeps_drv) (auto intro: after_typed typing.R_refl split: sum.splits)

text \<open>What a query returns from typed rows may be used.\<close>

lemma query_typed:
  assumes "\<And>w args' rs. list_all (typed_row t) rs \<Longrightarrow>
      typed (f (map (\<lambda>r. map (eval_expr w args' r Null) es) rs))"
  shows "typed (tx_bind (do_query (Select es (Some t) wh) args) f)"
proof (rule keepsI)
  fix sv s
  obtain x u where q: "do_query (Select es (Some t) wh) args sv s = (x, u)"
    by (cases "do_query (Select es (Some t) wh) args sv s")
  with typing.keeps_query have u: "on_view typed_rows sv s u" by (rule keepsD)
  show "on_view typed_rows sv s (snd (tx_bind (do_query (Select es (Some t) wh) args) f sv s))"
  proof (cases "\<exists>rows. x = Inr rows \<and> typed_rows (weight sv) (view s) (autos s)")
    case True
    then obtain rows where x: "x = Inr rows" and ok: "typed_rows (weight sv) (view s) (autos s)" by blast
    from q x have "exec_query (weight sv) args (Select es (Some t) wh) (view s) = Inr rows"
      by (auto elim: do_queryE)
    then have "rows = map (\<lambda>r. map (eval_expr (weight sv) args r Null) es)
        (filter (match (weight sv) args wh) (view s t))"
      by (simp add: exec_query_def split: if_splits)
    moreover have "list_all (typed_row t) (filter (match (weight sv) args wh) (view s t))"
      using ok by (simp add: typed_rows_def list_all_iff)
    ultimately have "typed (f rows)" using assms by simp
    then have "on_view typed_rows sv u (snd (f rows sv u))" by (simp add: keeps_def)
    with u show ?thesis by (auto simp: tx_bind_def q x intro: typing.R_trans)
  next
    case False
    with u show ?thesis by (cases x) (auto simp: tx_bind_def q on_view_def)
  qed
qed

lemmas typed_rules = typing.keeps_if typing.keeps_option typing.keeps_list typing.keeps_iterate
  typing.keeps_return typing.keeps_throw typing.keeps_stoll typing.keeps_query typing.keeps_bind
  typing.keeps_then typing.keeps_for

text \<open>Parameters.\<close>

lemma conforms_simps [simp]:
  "conforms ty (IntV i) \<longleftrightarrow> fst ty = Number"
  "conforms ty Null \<longleftrightarrow> snd ty"
  "conforms (Text, n) (TextV s)" "conforms (Enum vs, n) (TextV s) \<longleftrightarrow> s \<in> set vs"
  "conforms ty (b x) \<longleftrightarrow> fst ty = Number"
  "conforms (or_null Number) (opt_int v)" "conforms (or_null Text) (opt_text w)"
  by (simp_all add: conforms_def b_def opt_int_def opt_text_def split: option.split)

lemmas kinds_defs = file_kinds_def content_kinds_def user_kinds_def group_kinds_def name_kinds_def
  name_actions_def origin_kinds_def admin_kinds_def admin_actions_def

lemma to_string_kinds [simp]:
  "content_type_to_string ct \<in> set content_kinds" "origin_type_to_string ot \<in> set origin_kinds"
  "user_type_to_string ut \<in> set user_kinds" "group_type_to_string gt \<in> set group_kinds"
  "admin_status a \<in> set admin_kinds"
proof -
  show "content_type_to_string ct \<in> set content_kinds" by (cases ct) (simp_all add: kinds_defs)
  show "origin_type_to_string ot \<in> set origin_kinds" by (cases ot) (simp_all add: kinds_defs)
  show "user_type_to_string ut \<in> set user_kinds" by (cases ut) (simp_all add: kinds_defs)
  show "group_type_to_string gt \<in> set group_kinds" by (cases gt) (simp_all add: kinds_defs)
  show "admin_status a \<in> set admin_kinds" by (simp add: admin_status_def kinds_defs)
qed

lemmas stmt_eval = sql_defs set_ok_def type_defs blank_row_def table_defs

section \<open>Messages\<close>

lemma snapshot_typed:
  assumes "(t, fk) \<in> {(T_private_message_edits, ''private_message_id''), (T_group_message_edits, ''group_message_id'')}"
  shows "typed (snapshotMessageEditIfChanged t fk i oc od nc nd)"
  unfolding snapshotMessageEditIfChanged_def
  by (intro typed_rules execute_typed) (use assms in \<open>auto simp: stmt_eval\<close>)

lemma forward_typed:
  assumes "(t, fk) \<in> {(T_private_message_fwd_info, ''private_message_id''), (T_group_message_fwd_info, ''group_message_id'')}"
  shows "typed (insertForwardInfo t fk i info)"
  unfolding insertForwardInfo_def
  by (intro typed_rules execute_typed) (use assms in \<open>auto simp: stmt_eval\<close>)

lemma message_statements_typed:
  "stmt_typed pm_upsert_sql (pm_params pm)" "stmt_typed gm_upsert_sql (gm_params gm)"
  "stmt_typed pm_delete_sql [IntV i]" "stmt_typed gm_delete_sql [IntV i]"
  "stmt_typed pm_file_sql [IntV i, v, w]" "stmt_typed gm_file_sql [IntV i, v, w]"
  "stmt_typed pm_reply_sql [v, w, IntV i, IntV j, x, y]" "stmt_typed gm_reply_sql [v, w, IntV i, IntV j, x, y]"
  by (simp_all add: stmt_eval pm_params_def gm_params_def)

lemma message_bodies_typed: "typed (upsertPrivateMessage_body pm)" "typed (upsertGroupMessage_body gm)"
  unfolding upsertPrivateMessage_body_def upsertGroupMessage_body_def old_content_of_def Let_def
  by (intro typed_rules execute_typed message_statements_typed snapshot_typed forward_typed; simp)+
lemma args_from_nth: "n < length cols \<Longrightarrow> args_from k cols ! n = sql_expr.Arg (k + n)"
  by (induction cols arbitrary: k n) (auto simp: nth_Cons split: nat.split)

text \<open>An INSERT with one parameter per column.\<close>

lemma insert_args_typed:
  assumes "list_all2 (\<lambda>k v. set_ok t (\<lambda>ty. conforms ty v) k) cols args"
    and "list_all (\<lambda>(c, ty). c \<in> set cols \<or> (c = ''id'' \<and> td_auto (schema t)) \<or> conforms ty (blank_row t c))
      (column_types t)"
  shows "stmt_typed (Insert t cols (args_from 0 cols) odku) args"
proof -
  have len: "length args = length cols" using assms(1) by (simp add: list_all2_lengthD)
  have "set_ok t (\<lambda>ty. value_ok args ty e) k" if ke: "(k, e) \<in> set (zip cols (args_from 0 cols))" for k e
  proof -
    from ke obtain n where n: "n < length cols" "k = cols ! n" "e = args_from 0 cols ! n"
      by (auto simp: set_zip)
    with assms(1) have "set_ok t (\<lambda>ty. conforms ty (args ! n)) k" by (auto dest: list_all2_nthD)
    with n len show ?thesis by (simp add: args_from_nth)
  qed
  with assms(2) show ?thesis by (auto simp: list_all_iff)
qed

section \<open>Profiles\<close>

lemma new_usernames_kinds: "(n, k, p) \<in> set (new_usernames active disabled collectible) \<Longrightarrow> k \<in> set name_kinds"
  by (auto simp: new_usernames_def collect_def kinds_defs)

lemma user_statements_typed:
  "k \<in> set name_kinds \<Longrightarrow> a \<in> set name_actions \<Longrightarrow>
     stmt_typed user_event_sql [IntV i, TextV n, TextV a, TextV k, IntV p]"
  "a \<in> set name_actions \<Longrightarrow> stmt_typed user_event_sql [IntV i, TextV n, TextV a, Null, Null]"
  "k \<in> set name_kinds \<Longrightarrow> stmt_typed user_claim_sql [IntV i, TextV n, TextV k, IntV p]"
  "stmt_typed user_release_sql [v, x]"
  "stmt_typed user_name_sql [IntV i, TextV f, TextV l]" "stmt_typed user_phone_sql [IntV i, TextV f]"
  "stmt_typed user_bio_hist_sql [IntV i, TextV f]" "stmt_typed user_photo_hist_sql [IntV i, IntV j]"
  "stmt_typed user_photo_sql [IntV i, x]"
  "stmt_typed user_full_sql [TextV f, IntV i, opt_int d, opt_int m, opt_int y, x]"
  by (simp_all add: stmt_eval)

lemma user_upsert_typed: "stmt_typed user_upsert_sql (user_params u)"
proof -
  have upsert: "user_upsert_sql = Insert T_users (''id'' # user_columns) (args_from 0 (''id'' # user_columns)) (Some user_columns)"
    by (simp add: user_upsert_sql_def user_columns_def)
  show ?thesis
    unfolding upsert by (rule insert_args_typed;
      simp add: user_columns_def user_params_def set_ok_def type_defs users_def_def blank_row_def)
qed

lemma group_statements_typed:
  "k \<in> set name_kinds \<Longrightarrow> a \<in> set name_actions \<Longrightarrow>
     stmt_typed group_event_sql [IntV i, TextV n, TextV a, TextV k, IntV p]"
  "a \<in> set name_actions \<Longrightarrow> stmt_typed group_event_sql [IntV i, TextV n, TextV a, Null, Null]"
  "k \<in> set name_kinds \<Longrightarrow> stmt_typed group_claim_sql [IntV i, TextV n, TextV k, IntV p]"
  "stmt_typed group_release_sql [v, x]" "stmt_typed group_upsert_sql (group_params g)"
  "stmt_typed group_title_sql [IntV i, TextV f]" "stmt_typed group_description_sql [IntV i, TextV f]"
  "stmt_typed group_photo_hist_sql [IntV i, IntV j]" "stmt_typed group_photo_sql [IntV i, x]"
  by (simp_all add: stmt_eval group_params_def)

lemma name_actions_simps [simp]: "''added'' \<in> set name_actions" "''removed'' \<in> set name_actions"
  "''reordered'' \<in> set name_actions" "''kind_changed'' \<in> set name_actions"
  by (simp_all add: kinds_defs)

lemma sync_names_typed: "typed (syncUsernames u)" "typed (syncGroupUsernames g)"
proof -
  note rules = typed_rules typing.load_keeps execute_typed user_statements_typed(1-4) group_statements_typed(1-4)
  show "typed (syncUsernames u)"
    unfolding syncUsernames_def user_event_def user_removal_def user_claim_def Let_def
    by (intro rules) (auto intro!: rules simp: new_usernames_kinds split: prod.split)
  show "typed (syncGroupUsernames g)"
    unfolding syncGroupUsernames_def group_event_def group_removal_def group_claim_def Let_def
    by (intro rules) (auto intro!: rules simp: new_usernames_kinds split: prod.split)
qed

lemma profile_bodies_typed: "typed (upsertUser_body u)" "typed (upsertUserFullInfo_body fi)"
  "typed (setUserProfilePhoto_body i f)" "typed (upsertGroup_body g)" "typed (setGroupPhoto_body i f)"
  unfolding upsertUser_body_def user_history_def upsertUserFullInfo_body_def setUserProfilePhoto_body_def
    trackProfilePhotoChange_def upsertGroup_body_def group_history_def setGroupPhoto_body_def
    trackGroupPhotoChange_def Let_def
  by (intro typed_rules sync_names_typed execute_typed insert_typed user_upsert_typed user_statements_typed group_statements_typed)+
section \<open>Administrators\<close>

lemma right_columns_typed:
  assumes "t = T_group_admins \<or> t = T_group_admin_hist" and "length vs = 17" and "\<forall>v\<in>set vs. \<exists>i. v = IntV i"
  shows "list_all2 (\<lambda>k v. set_ok t (\<lambda>ty. conforms ty v) k) admin_right_columns vs"
proof (rule list_all2I)
  have number: "ty = number" if "k \<in> set admin_right_columns" "(k, ty) \<in> set (column_types t)" for k ty
    using assms(1) that by (auto simp: type_defs admin_right_columns_def)
  show "\<forall>(k, v)\<in>set (zip admin_right_columns vs). set_ok t (\<lambda>ty. conforms ty v) k"
  proof clarify
    fix k v assume kv: "(k, v) \<in> set (zip admin_right_columns vs)"
    then obtain i where "v = IntV i" using assms(3) by (meson set_zip_rightD)
    with number [OF set_zip_leftD [OF kv]] show "set_ok t (\<lambda>ty. conforms ty v) k"
      by (auto simp: set_ok_def list_all_iff)
  qed
qed (simp add: assms(2))

lemma admin_insert_typed:
  assumes "list_all2 (\<lambda>k v. set_ok t (\<lambda>ty. conforms ty v) k) cols vs"
    and "t = T_group_admins \<and> set cols = {''group_id'', ''user_id'', ''status'', ''custom_title'', ''inviter_user_id'', ''joined_date''} \<or>
      t = T_group_admin_hist \<and> set cols = {''group_id'', ''user_id'', ''action'', ''status'', ''custom_title''}"
    and "length rs = 17" and "\<forall>v\<in>set rs. \<exists>i. v = IntV i"
  shows "stmt_typed (Insert t (cols @ admin_right_columns) (args_from 0 (cols @ admin_right_columns)) odku) (vs @ rs)"
proof (rule insert_args_typed)
  show "list_all2 (\<lambda>k v. set_ok t (\<lambda>ty. conforms ty v) k) (cols @ admin_right_columns) (vs @ rs)"
    by (intro list_all2_appendI assms(1) right_columns_typed) (use assms in auto)
  show "list_all (\<lambda>(c, ty). c \<in> set (cols @ admin_right_columns) \<or> (c = ''id'' \<and> td_auto (schema t)) \<or>
      conforms ty (blank_row t c)) (column_types t)"
    using assms(2) by (elim disjE conjE) (simp_all add: type_defs table_defs list_all_iff)
qed

lemma admin_statements_typed:
  "stmt_typed admin_upsert_sql (push_rights [IntV g, IntV i, TextV (admin_status a), TextV n, IntV j, IntV k] a)"
  "e \<in> set admin_actions \<Longrightarrow>
     stmt_typed admin_hist_sql (push_rights [IntV g, IntV i, TextV e, TextV (admin_status a), TextV n] a)"
  "s \<in> set admin_kinds \<Longrightarrow>
     stmt_typed admin_hist_sql ([IntV g, IntV i, TextV ''removed'', TextV s, TextV n] @ map (\<lambda>i. b (f i)) [0..<17])"
  "stmt_typed admin_delete_sql vs"
proof -
  have cols: "[''group_id'', ''user_id''] @ admin_value_columns =
      [''group_id'', ''user_id'', ''status'', ''custom_title'', ''inviter_user_id'', ''joined_date''] @ admin_right_columns"
    by (simp add: admin_value_columns_def)
  have hist: "stmt_typed admin_hist_sql ([IntV g, IntV i, TextV e, TextV s, TextV n] @ rs)"
    if "e \<in> set admin_actions" "s \<in> set admin_kinds" "length rs = 17" "\<forall>v\<in>set rs. \<exists>i. v = IntV i" for e s rs
    unfolding admin_hist_sql_def admin_args(2)
    by (rule admin_insert_typed) (use that in \<open>simp_all add: set_ok_def type_defs admin_right_columns_def\<close>)
  show "stmt_typed admin_upsert_sql (push_rights [IntV g, IntV i, TextV (admin_status a), TextV n, IntV j, IntV k] a)"
    unfolding admin_upsert_sql_def admin_args(1) cols push_rights_def
    by (rule admin_insert_typed) (auto simp: set_ok_def type_defs admin_right_columns_def b_def)
  show "stmt_typed admin_hist_sql (push_rights [IntV g, IntV i, TextV e, TextV (admin_status a), TextV n] a)"
    if "e \<in> set admin_actions"
    unfolding push_rights_def by (rule hist) (use that in \<open>auto simp: b_def\<close>)
  show "stmt_typed admin_hist_sql ([IntV g, IntV i, TextV ''removed'', TextV s, TextV n] @ map (\<lambda>i. b (f i)) [0..<17])"
    if "s \<in> set admin_kinds"
    by (rule hist) (use that in \<open>auto simp: b_def kinds_defs\<close>)
qed (simp add: sql_defs)

lemma admin_upsert_typed: "typed (admin_upsert gid m a)"
  unfolding admin_upsert_def Let_def
  by (intro typed_rules execute_typed admin_statements_typed) (simp add: kinds_defs)

text \<open>The status of a removed administrator is the stored one.\<close>

lemma admin_removal_typed:
  assumes "conforms (Enum admin_kinds, False) (r ! 1)"
  shows "typed (admin_removal gid admins r)"
proof -
  obtain s where "r ! 1 = TextV s" and "s \<in> set admin_kinds"
    using assms by (cases "r ! 1") (simp_all add: conforms_def)
  then show ?thesis
    unfolding admin_removal_def
    by (intro typed_rules execute_typed admin_statements_typed) simp
qed

lemma admin_body_typed: "typed (syncGroupAdmins_body l)"
proof -
  let ?cols = "[''user_id'', ''status'', ''custom_title''] @ admin_right_columns"
  have status: "conforms (Enum admin_kinds, False) (r ! 1)"
    if "list_all (typed_row T_group_admins) rs" and "r \<in> set (map (\<lambda>r. map (eval_expr w args r Null) (map Col ?cols)) rs)"
    for rs :: "row list" and w args r
  proof -
    from that obtain row where "typed_row T_group_admins row" and r: "r = map (eval_expr w args row Null) (map Col ?cols)"
      by (auto simp: list_all_iff)
    then have "conforms (Enum admin_kinds, False) (row ''status'')"
      by (auto simp: type_defs intro: typed_rowD [of T_group_admins])
    then show ?thesis by (simp add: r)
  qed
  show ?thesis
    unfolding syncGroupAdmins_body_def admin_old_sql_def
    by (rule query_typed)
      (intro typed_rules typing.load_admins_keeps admin_upsert_typed admin_removal_typed, rule status)
qed

section \<open>Files\<close>

definition file_ok :: "stored_file \<Rightarrow> bool" where
  "file_ok f \<longleftrightarrow> f_file_type f \<in> set file_kinds \<and>
     (\<exists>digest. unhex (f_sha256_hex f) = Some digest \<and> length digest = 32)"

lemma file_body_typed:
  assumes "file_ok f"
  shows "typed (upsertFile_body f)"
proof -
  obtain digest where "unhex (f_sha256_hex f) = Some digest" and "length digest = 32"
    using assms by (auto simp: file_ok_def)
  then have "conforms (Binary 32, False) (unhex_val (TextV (f_sha256_hex f)))" by (simp add: conforms_def)
  then have "stmt_typed file_insert_sql [TextV (f_tg_file_id f), TextV (f_file_type f), IntV (f_file_size f),
      TextV (f_sha256_hex f), opt_text (f_file_ext f), TextV (f_orig_file_name f)]"
    using assms by (simp add: stmt_eval file_ok_def del: unhex_val.simps)
  moreover have "stmt_typed file_hit_sql [TextV n, IntV i]" for n i by (simp add: stmt_eval)
  ultimately show ?thesis
    unfolding upsertFile_body_def upsertFile_after_def by (intro typed_rules execute_typed insert_typed)
qed

section \<open>Jobs\<close>

lemma job_body_typed: "job_body j = Some fn \<Longrightarrow> typed fn"
  by (cases j) (auto simp: profile_bodies_typed message_bodies_typed admin_body_typed)

lemma run_op_typed:
  "(\<exists>fn. job_body j = Some fn \<and> run_op j = transaction fn) \<or>
   (\<exists>st args. stmt_typed st args \<and> run_op j = db_execute st args)"
proof (cases "job_body j")
  case None
  then have "\<exists>st args. stmt_typed st args \<and> run_op j = db_execute st args"
    by (cases j) (auto simp: setPrivateMessageFile_def setGroupMessageFile_def setPrivateMessageReply_def
        setGroupMessageReply_def intro: message_statements_typed)
  then show ?thesis ..
next
  case (Some fn)
  with run_op_transaction show ?thesis by blast
qed

lemma execute_both_typed:
  assumes run: "db_execute st args sv s = (r, t)" and "stmt_typed st args" and "both_ok typed_rows sv s"
  shows "both_ok typed_rows sv t"
  using run
proof (cases rule: db_execute_outcome)
  case (executed d au)
  have "typed_rows (weight sv) d au"
    using exec_stmt_typed [OF assms(2) executed(2)] assms(3) by (simp add: both_ok_def)
  with executed assms(3) show ?thesis by (simp add: both_ok_def typed_rows_def)
qed (use assms in \<open>simp add: both_ok_def typed_rows_def\<close>)

lemma job_typed:
  assumes "both_ok typed_rows sv s"
  shows "both_ok typed_rows sv (run_job j sv s)"
proof -
  obtain r t where run: "run_op j sv s = (r, t)" by (cases "run_op j sv s")
  have "both_ok typed_rows sv t"
    using run_op_typed [of j]
  proof (elim disjE exE conjE)
    fix fn assume body: "job_body j = Some fn" and "run_op j = transaction fn"
    with run have "transaction fn sv s = (r, t)" by simp
    from typing.transaction_both_ok [OF body_contracts(1) [OF body] job_body_typed [OF body] this assms]
    show ?thesis .
  next
    fix st args assume "stmt_typed st args" and "run_op j = db_execute st args"
    with run assms show ?thesis by (auto intro: execute_both_typed)
  qed
  then show ?thesis by (simp add: run_job_def run split: sum.split)
qed

lemma run_file_job_typed:
  assumes run: "run_file_job h sd f fs sv s = (l, fs', t)" and "both_ok typed_rows sv s"
    and media: "\<And>m. f = F_Message_File m \<Longrightarrow> mf_content_type m \<in> set file_kinds"
  shows "both_ok typed_rows sv t"
proof -
  have store: "both_ok typed_rows sv t"
    if "storeDownloadedFile h sd path tid sz ty orig fs sv s = (r, fs', t)" and "ty \<in> set file_kinds"
    for path tid sz ty orig r
  proof (cases "t = s")
    case False
    with that(1) obtain hex ext res where hex: "sha256_file_hex h fs path = Some hex"
      and up: "upsertFile (downloaded_file hex ext tid sz ty orig) sv s = (res, t)"
      by (auto simp: storeDownloadedFile_def Let_def split: option.splits if_splits prod.splits sum.splits bool.splits)
    from hex obtain digest where "hex = hex_of digest" and "length digest = 32"
      by (auto simp: sha256_file_hex_def Let_def split: option.splits if_splits)
    then have "file_ok (downloaded_file hex ext tid sz ty orig)"
      using that(2) by (simp add: file_ok_def downloaded_file_def unhex_hex_of)
    from typing.transaction_both_ok [OF file_contracts(1) file_body_typed [OF this] up [unfolded upsertFile_def] assms(2)]
    show ?thesis .
  qed (simp add: assms(2))
  have "''photo'' \<in> set file_kinds" by (simp add: kinds_defs)
  with run media show ?thesis
    by (cases f) (auto simp: onProfilePhoto_def onGroupPhoto_def onMessageFile_def stored_link_def
      split: prod.splits sum.splits option.splits dest: store)
qed

lemma client_file_kinds:
  assumes "reach td_start td_step c" and "e \<in> set (events c)" and "file_of e = Some (F_Message_File m)"
  shows "mf_content_type m \<in> set file_kinds"
proof -
  have e: "e = E_File m" using assms(3) by (cases e) auto
  from trace_inv_reach [OF assms(1)] have "events_ok (events c)" by (simp add: trace_inv_def)
  moreover obtain n where "n < length (events c)" "events c ! n = E_File m"
    using assms(2) e by (auto simp: in_set_conv_nth)
  ultimately have "event_ok (take n (events c)) (E_File m)" unfolding events_ok_def by metis
  then show ?thesis by (auto simp: event_ok_def media_categories_def kinds_defs)
qed

text \<open>C7: every stored value conforms to the type of its column. The file jobs are those posted for events
  of a client, reached by whatever TDLib sends; then whatever jobs run, in whatever order, on whichever
  connections and whichever calls to the server and the file system fail, no row ever holds NULL in a
  column that does not allow it, a number where text belongs, a digest of another length than 32, or
  a value that is not in the list of its ENUM column: the strings of the program and those of the
  migrations agree, in what is committed and in what the connection sees.\<close>

theorem stored_rows_typed:
  assumes client: "reach td_start td_step c"
    and posted: "\<forall>f. Filing f \<in> set work \<longrightarrow> (\<exists>e\<in>set (events c). file_of e = Some f)"
    and "both_ok typed_rows sv s" and "run_activities h sd sv work (fs, s) = (fs', t)"
  shows "both_ok typed_rows sv t"
  using assms(2-4) unfolding run_activities_def
proof (induction work arbitrary: fs s)
  case (Cons a work)
  obtain fs2 u where one: "run_activity h sd sv a (fs, s) = (fs2, u)"
    by (cases "run_activity h sd sv a (fs, s)")
  have "both_ok typed_rows sv u"
  proof (cases a)
    case (Serial j)
    with one Cons.prems(2) show ?thesis by (auto intro: job_typed)
  next
    case (Filing f)
    obtain l where "run_file_job h sd f fs sv s = (l, fs2, u)"
      using one Filing by (cases "run_file_job h sd f fs sv s") simp
    then show ?thesis
      by (rule run_file_job_typed) (use Cons.prems Filing client_file_kinds [OF client] in auto)
  next
    case Reconnect
    with one Cons.prems(2) show ?thesis by (auto simp: both_ok_def typed_rows_def)
  qed
  with Cons one show ?case by auto
qed simp
text \<open>A private message with a video that is already downloaded.\<close>

definition sample_video :: td_file where
  "sample_video = \<lparr>tf_id = 9, tf_size = 1, tf_local = Some \<lparr>lf_path = ''/in/a.MP4'', lf_completed = True\<rparr>, tf_remote = Some ''R''\<rparr>"

definition video_client :: td where
  "video_client = process_response 0 (Some (O_Update (U_NewMessage
     (sample_message 7 3 (Some (Content_Video (Some (''a.MP4'', Some sample_video)))) None)))) sample_client"

definition sample_media :: MessageFile where
  "sample_media = \<lparr>mf_chat_id = 7, mf_message_id = 3, mf_is_group = False, mf_local_path = ''/in/a.MP4'',
     mf_tg_file_id = ''R'', mf_file_size = 1, mf_content_type = ''video'', mf_orig_file_name = ''a.MP4''\<rparr>"

lemma video_reach: "reach td_start td_step video_client"
  unfolding video_client_def
  by (rule reach_step, rule reach_init, rule sample_start, rule td_response) (simp add: honest_def)

lemma video_event: "E_File sample_media \<in> set (events video_client)"
  by (simp add: video_client_def client_eval sample_media_def sample_video_def emit_message_file_def
      downloaded_def local_path_def remote_id_def)

theorem stored_rows_typed_witness:
  "both_ok typed_rows quiet (snd (run_activities example_host ''s'' quiet
     [Serial (J_Profile_Photo 1 1), Filing (F_Message_File sample_media), Reconnect, Serial (J_Message_File 7 3 False 1)]
     ([''/in/a.MP4'' \<mapsto> [7]], empty_session)))"
proof -
  let ?work = "[Serial (J_Profile_Photo 1 1), Filing (F_Message_File sample_media), Reconnect,
    Serial (J_Message_File 7 3 False 1)]"
  have "both_ok typed_rows quiet empty_session"
    by (simp add: both_ok_def typed_rows_def empty_session_def)
  moreover have "\<forall>f. Filing f \<in> set ?work \<longrightarrow> (\<exists>e\<in>set (events video_client). file_of e = Some f)"
    using video_event by (auto intro: bexI [of _ "E_File sample_media"])
  ultimately have "both_ok typed_rows quiet t"
    if "run_activities example_host ''s'' quiet ?work ([''/in/a.MP4'' \<mapsto> [7]], empty_session) = (fs, t)" for fs t
    by (intro stored_rows_typed [OF video_reach _ _ that])
  then show ?thesis by (metis prod.collapse)
qed
end
