(* ===== verification/Conn_Pool.thy ===== *)
theory Conn_Pool
  imports Tg_Monitor "HOL-Library.Word"
begin

text \<open>
  src/mysql/ConnectionPool.{hpp,cpp}: threads borrowing connections from a pool of bounded size. A
  connection is an identity; what happens on it while it is borrowed is theory Db_Session. Each rule
  of \<open>pool_step\<close> is one passage through the mutex, the opening of a connection outside of it, or a
  notification. \<open>notify_one\<close> wakes one waiting thread of the environment's choice, and none exactly
  when none waits; a waiting thread may also wake without being notified.
\<close>

section \<open>State\<close>

datatype conn_pc =
    P_Out                \<comment> \<open>not in the pool\<close>
  | P_Acquire            \<comment> \<open>in \<open>acquire\<close>, before the lock\<close>
  | P_Waiting            \<comment> \<open>blocked in \<open>cv_.wait\<close>\<close>
  | P_Woken              \<comment> \<open>woken, about to take the lock again\<close>
  | P_Creating           \<comment> \<open>in \<open>create\<close>, lock released\<close>
  | P_Holding nat        \<comment> \<open>owns a borrowed connection\<close>
  | P_Notify             \<comment> \<open>in \<open>release\<close>, after the lock\<close>

record conn_pool =
  pool_size :: "64 word"
  idle :: "nat list"
  created :: "64 word"
  next_conn :: nat
  pcs :: "nat \<Rightarrow> conn_pc"

definition ConnectionPool :: "64 word \<Rightarrow> conn_pool" where
  "ConnectionPool cfg_pool_size =
     \<lparr>pool_size = (if cfg_pool_size = 0 then 1 else cfg_pool_size), idle = [], created = 0,
      next_conn = 0, pcs = (\<lambda>_. P_Out)\<rparr>"

definition at_pc :: "nat \<Rightarrow> conn_pc \<Rightarrow> conn_pool \<Rightarrow> conn_pool" where
  "at_pc i p s = s\<lparr>pcs := (pcs s)(i := p)\<rparr>"

section \<open>Operations\<close>

text \<open>One turn of the loop of \<open>acquire\<close>, with the lock held.\<close>

definition acquire_section :: "nat \<Rightarrow> conn_pool \<Rightarrow> conn_pool" where
  "acquire_section i s =
     (case idle s of
        c # cs \<Rightarrow> at_pc i (P_Holding c) (s\<lparr>idle := cs\<rparr>)
      | [] \<Rightarrow>
          if created s < pool_size s then at_pc i P_Creating (s\<lparr>created := created s + 1\<rparr>)
          else at_pc i P_Waiting s)"

text \<open>\<open>create\<close> returns a new connection, or throws and the slot is given back.\<close>

definition create_returns :: "nat \<Rightarrow> conn_pool \<Rightarrow> conn_pool" where
  "create_returns i s = at_pc i (P_Holding (next_conn s)) (s\<lparr>next_conn := Suc (next_conn s)\<rparr>)"

definition notify_one :: "nat option \<Rightarrow> conn_pool \<Rightarrow> conn_pool" where
  "notify_one w s = (case w of None \<Rightarrow> s | Some j \<Rightarrow> at_pc j P_Woken s)"

definition create_throws :: "nat \<Rightarrow> nat option \<Rightarrow> conn_pool \<Rightarrow> conn_pool" where
  "create_throws i w s = at_pc i P_Out (notify_one w (s\<lparr>created := created s - 1\<rparr>))"

text \<open>\<open>release\<close>: nothing for a null pointer, otherwise push under the lock and then notify.\<close>

definition release_section :: "nat \<Rightarrow> nat option \<Rightarrow> conn_pool \<Rightarrow> conn_pool" where
  "release_section i conn s =
     (case conn of None \<Rightarrow> s | Some c \<Rightarrow> at_pc i P_Notify (s\<lparr>idle := idle s @ [c]\<rparr>))"

definition release_notify :: "nat \<Rightarrow> nat option \<Rightarrow> conn_pool \<Rightarrow> conn_pool" where
  "release_notify i w s = at_pc i P_Out (notify_one w s)"

text \<open>The threads \<open>notify_one\<close> may wake.\<close>

definition wakes :: "conn_pool \<Rightarrow> nat option \<Rightarrow> bool" where
  "wakes s w \<longleftrightarrow> (case w of None \<Rightarrow> \<forall>j. pcs s j \<noteq> P_Waiting | Some j \<Rightarrow> pcs s j = P_Waiting)"

inductive pool_step :: "conn_pool \<Rightarrow> conn_pool \<Rightarrow> bool" where
  pool_call: "pcs s i = P_Out \<Longrightarrow> pool_step s (at_pc i P_Acquire s)"
| pool_acquire: "pcs s i \<in> {P_Acquire, P_Woken} \<Longrightarrow> pool_step s (acquire_section i s)"
| pool_spurious: "pcs s i = P_Waiting \<Longrightarrow> pool_step s (at_pc i P_Woken s)"
| pool_created: "pcs s i = P_Creating \<Longrightarrow> pool_step s (create_returns i s)"
| pool_failed: "pcs s i = P_Creating \<Longrightarrow> wakes s w \<Longrightarrow> pool_step s (create_throws i w s)"
| pool_release: "pcs s i = P_Holding c \<Longrightarrow> pool_step s (release_section i (Some c) s)"
| pool_notify: "pcs s i = P_Notify \<Longrightarrow> wakes s w \<Longrightarrow> pool_step s (release_notify i w s)"

inductive_cases pool_stepE: "pool_step s t"

definition pool_start :: "conn_pool \<Rightarrow> bool" where
  "pool_start s \<longleftrightarrow> (\<exists>n. s = ConnectionPool n)"

section \<open>Invariant\<close>

fun busy :: "conn_pc \<Rightarrow> bool" where
  "busy P_Creating = True"
| "busy (P_Holding c) = True"
| "busy _ = False"

fun held :: "conn_pc \<Rightarrow> nat set" where
  "held (P_Holding c) = {c}"
| "held _ = {}"

definition slots_ok :: "conn_pool \<Rightarrow> bool" where
  "slots_ok s \<longleftrightarrow> 0 < pool_size s \<and> created s \<le> pool_size s \<and>
     unat (created s) = length (idle s) + count_at busy (pcs s)"

definition owners_ok :: "conn_pool \<Rightarrow> bool" where
  "owners_ok s \<longleftrightarrow> distinct (idle s) \<and> (\<forall>c\<in>set (idle s). c < next_conn s) \<and>
     (\<forall>i. \<forall>c\<in>held (pcs s i). c < next_conn s \<and> c \<notin> set (idle s)) \<and>
     (\<forall>i j c. c \<in> held (pcs s i) \<longrightarrow> c \<in> held (pcs s j) \<longrightarrow> i = j)"

definition pool_inv :: "conn_pool \<Rightarrow> bool" where
  "pool_inv s \<longleftrightarrow> finite_off P_Out (pcs s) \<and> slots_ok s \<and> owners_ok s"

lemmas pool_ops = acquire_section_def create_returns_def create_throws_def release_section_def
  release_notify_def notify_one_def at_pc_def

lemma finite_off_step: "pool_step s t \<Longrightarrow> finite_off P_Out (pcs s) \<Longrightarrow> finite_off P_Out (pcs t)"
  by (erule pool_stepE) (auto simp: pool_ops split: list.splits option.splits)

lemma unat_suc: "x < (y :: 64 word) \<Longrightarrow> unat (x + 1) = Suc (unat x)"
proof -
  assume "x < y"
  moreover have "unat y < 2 ^ LENGTH(64)" by (rule unsigned_less)
  ultimately show ?thesis by (simp add: word_less_nat_alt unat_word_ariths(1))
qed

lemma unat_pred: "0 < unat (x :: 64 word) \<Longrightarrow> unat (x - 1) = unat x - 1"
  by (rule unat_minus_one) auto

lemmas count_out = count_move [where z = P_Out]

lemmas pool_count = count_at_change [where z = P_Out]

lemma notify_frame [simp]: "notify_one None s = s"
  "idle (notify_one w s) = idle s" "created (notify_one w s) = created s"
  "pool_size (notify_one w s) = pool_size s" "next_conn (notify_one w s) = next_conn s"
  "pcs (notify_one w (s\<lparr>created := n\<rparr>)) = pcs (notify_one w s)"
  by (simp_all add: notify_one_def at_pc_def split: option.split)

lemma notify_counts:
  assumes "wakes s w" and "finite_off P_Out (pcs s)"
  shows "count_at busy (pcs (notify_one w s)) = count_at busy (pcs s)"
    and "finite_off P_Out (pcs (notify_one w s))"
    and "pcs s i \<noteq> P_Waiting \<Longrightarrow> pcs (notify_one w s) i = pcs s i"
    and "held (pcs (notify_one w s) j) = held (pcs s j)"
  using assms count_out [of "pcs s" busy "the w" P_Woken]
  by (auto simp: notify_one_def at_pc_def wakes_def split: option.splits)

lemma slots_step:
  assumes step: "pool_step s t" and fin: "finite_off P_Out (pcs s)" and ok: "slots_ok s"
  shows "slots_ok t"
  using step
proof (cases rule: pool_step.cases)
  case (pool_acquire i)
  with fin ok show ?thesis
    using count_out [OF fin, of busy i] unat_suc [of "created s" "pool_size s"]
    by (auto simp: acquire_section_def at_pc_def slots_ok_def word_le_nat_alt word_less_nat_alt split: list.split)
next
  case (pool_failed i w)
  note n = notify_counts [OF pool_failed(3) fin]
  have "count_at busy (pcs s) > 0"
    using count_at_pos [where f = "pcs s", OF fin, of busy] pool_failed(2) by (auto intro!: exI [of _ i])
  then have "0 < unat (created s)" using ok by (simp add: slots_ok_def)
  with pool_failed n(1) n(3) [of i] ok show ?thesis
    using count_out [where f = "pcs (notify_one w s)", OF n(2), of busy i P_Out] unat_pred [of "created s"]
    by (auto simp: at_pc_def slots_ok_def create_throws_def word_le_nat_alt word_less_nat_alt)
next
  case (pool_notify i w)
  note n = notify_counts [OF pool_notify(3) fin]
  with pool_notify n(1) n(3) [of i] ok show ?thesis
    using count_out [where f = "pcs (notify_one w s)", OF n(2), of busy i P_Out]
    by (simp add: at_pc_def slots_ok_def release_notify_def)
next
  case (pool_release i c)
  have "count_at busy (pcs s) > 0"
    using count_at_pos [where f = "pcs s", OF fin, of busy] pool_release(2) by (auto intro!: exI [of _ i])
  with pool_release ok fin show ?thesis
    by (simp add: at_pc_def slots_ok_def release_section_def pool_count)
qed (use ok fin in \<open>simp_all add: at_pc_def slots_ok_def create_returns_def count_at_change\<close>)

lemma owners_step:
  assumes step: "pool_step s t" and fin: "finite_off P_Out (pcs s)" and ok: "owners_ok s"
  shows "owners_ok t"
  using step
proof (cases rule: pool_step.cases)
  case (pool_acquire i)
  then show ?thesis
    using ok by (fastforce simp: acquire_section_def at_pc_def owners_ok_def split: list.split)
next
  case (pool_created i)
  then show ?thesis
    using ok by (fastforce simp: create_returns_def at_pc_def owners_ok_def less_Suc_eq)
next
  case (pool_failed i w)
  with ok notify_counts(4) [OF pool_failed(3) fin] show ?thesis
    by (simp add: create_throws_def at_pc_def owners_ok_def)
next
  case (pool_release i c)
  then have c: "c \<in> held (pcs s i)" by simp
  with ok have "c < next_conn s" "c \<notin> set (idle s)" and only: "\<And>j. c \<in> held (pcs s j) \<Longrightarrow> i = j"
    unfolding owners_ok_def by blast+
  with pool_release(1) ok show ?thesis
    by (auto simp: release_section_def at_pc_def owners_ok_def)
next
  case (pool_notify i w)
  with ok notify_counts(4) [OF pool_notify(3) fin] show ?thesis
    by (simp add: release_notify_def at_pc_def owners_ok_def)
qed (use ok in \<open>auto simp: at_pc_def owners_ok_def\<close>)

lemma pool_inv_step: "pool_inv s \<Longrightarrow> pool_step s t \<Longrightarrow> pool_inv t"
  unfolding pool_inv_def by (blast intro: finite_off_step slots_step owners_step)

lemma pool_inv_start: "pool_start s \<Longrightarrow> pool_inv s"
  by (auto simp: pool_start_def ConnectionPool_def pool_inv_def slots_ok_def owners_ok_def word_neq_0_conv [symmetric]
      split: if_splits)
section \<open>Wake-ups\<close>

definition pool_waiting :: "conn_pool \<Rightarrow> nat" where
  "pool_waiting s = count_at (\<lambda>p. p = P_Waiting) (pcs s)"

definition pool_avail :: "conn_pool \<Rightarrow> nat" where
  "pool_avail s = length (idle s) + (unat (pool_size s) - unat (created s))"

definition pool_credit :: "conn_pool \<Rightarrow> nat" where
  "pool_credit s = count_at (\<lambda>p. p = P_Woken \<or> p = P_Notify) (pcs s)"

lemma wake_credit:
  assumes w: "wakes s w" and fin: "finite_off P_Out (pcs s)"
  shows "count_at (\<lambda>p. p = P_Waiting) (pcs s) = 0 \<and> w = None \<or>
    0 < count_at (\<lambda>p. p = P_Waiting) (pcs s) \<and>
    count_at (\<lambda>p. p = P_Woken \<or> p = P_Notify) (pcs (notify_one w s)) =
      Suc (count_at (\<lambda>p. p = P_Woken \<or> p = P_Notify) (pcs s))"
proof (cases w)
  case None
  with w count_at_0 [where f = "pcs s", OF fin, of "\<lambda>p. p = P_Waiting"] show ?thesis
    by (simp add: wakes_def)
next
  case (Some j)
  with w have j: "pcs s j = P_Waiting" by (simp add: wakes_def)
  then have "0 < count_at (\<lambda>p. p = P_Waiting) (pcs s)"
    using count_at_pos [where f = "pcs s", OF fin, of "\<lambda>p. p = P_Waiting"] by auto
  with Some j fin show ?thesis by (simp add: notify_one_def at_pc_def pool_count)
qed

lemma credit_pos:
  "finite_off P_Out (pcs s) \<Longrightarrow> pcs s i = P_Woken \<or> pcs s i = P_Notify \<Longrightarrow> 0 < pool_credit s"
  unfolding pool_credit_def by (subst count_at_pos [where z = P_Out]) auto

interpretation pool_cv: monitor pool_start pool_step pool_inv pool_waiting pool_avail pool_credit
proof unfold_locales
  show "pool_inv s \<and> pool_waiting s = 0" if "pool_start s" for s
    using that pool_inv_start [OF that]
    by (auto simp: pool_start_def ConnectionPool_def pool_waiting_def)
  show "pool_inv t" if "pool_inv s" and "pool_step s t" for s t
    using that by (rule pool_inv_step)
  show "pool_waiting t = 0 \<or> pool_avail t = 0 \<or>
      0 < pool_waiting s \<and> pool_avail t + pool_credit s \<le> pool_avail s + pool_credit t"
    if inv: "pool_inv s" and step: "pool_step s t" for s t
  proof -
    have fin: "finite_off P_Out (pcs s)" and slots: "slots_ok s" using inv by (simp_all add: pool_inv_def)
    note defs = at_pc_def pool_waiting_def pool_avail_def pool_credit_def
    from step show ?thesis
    proof (cases rule: pool_step.cases)
      case (pool_acquire i)
      show ?thesis
      proof (cases "idle s")
        case Nil
        then show ?thesis
          using pool_acquire fin slots credit_pos [OF fin, of i] unat_suc [of "created s" "pool_size s"]
          by (auto simp: defs acquire_section_def pool_count slots_ok_def word_less_nat_alt)
      next
        case (Cons c cs)
        then show ?thesis
          using pool_acquire fin credit_pos [OF fin, of i]
          by (auto simp: defs acquire_section_def pool_count)
      qed
    next
      case (pool_failed i w)
      note n = notify_counts(2,3) [OF pool_failed(3) fin]
      have "0 < count_at busy (pcs s)"
        using count_at_pos [where f = "pcs s", OF fin, of busy] pool_failed(2) by (auto intro!: exI [of _ i])
      with slots have "0 < unat (created s)" "unat (created s) \<le> unat (pool_size s)"
        by (simp_all add: slots_ok_def word_le_nat_alt)
      with wake_credit [OF pool_failed(3) fin] pool_failed(1,2) n(2) [of i] n(1) show ?thesis
        using unat_pred [of "created s"]
        by (auto simp: defs create_throws_def pool_count)
    next
      case (pool_notify i w)
      note n = notify_counts(2,3) [OF pool_notify(3) fin]
      with wake_credit [OF pool_notify(3) fin] pool_notify(1,2) credit_pos [OF fin, of i] show ?thesis
        by (auto simp: defs release_notify_def pool_count)
    qed (use fin in \<open>auto simp: defs create_returns_def release_section_def count_at_change\<close>)
  qed
qed
text \<open>A reachable state with a blocked thread.\<close>

definition contended_pool :: conn_pool where
  "contended_pool = acquire_section 1 (at_pc 1 P_Acquire
     (acquire_section 0 (at_pc 0 P_Acquire (ConnectionPool 1))))"

lemma contended_reach: "reach pool_start pool_step contended_pool"
proof -
  have "reach pool_start pool_step (ConnectionPool 1)"
    by (rule reach_init) (auto simp: pool_start_def)
  then have "reach pool_start pool_step (at_pc 0 P_Acquire (ConnectionPool 1))"
    by (rule reach_step) (rule pool_call, simp add: ConnectionPool_def)
  then have "reach pool_start pool_step (acquire_section 0 (at_pc 0 P_Acquire (ConnectionPool 1)))"
    by (rule reach_step) (rule pool_acquire, simp add: at_pc_def)
  then have "reach pool_start pool_step (at_pc 1 P_Acquire
      (acquire_section 0 (at_pc 0 P_Acquire (ConnectionPool 1))))"
    by (rule reach_step) (rule pool_call, simp add: acquire_section_def ConnectionPool_def at_pc_def)
  then show ?thesis
    unfolding contended_pool_def by (rule reach_step) (rule pool_acquire, simp add: at_pc_def)
qed

lemma contended_pc [simp]: "pcs contended_pool 0 = P_Creating" "pcs contended_pool 1 = P_Waiting"
  "pcs contended_pool (Suc 0) = P_Waiting"
  by (simp_all add: contended_pool_def acquire_section_def ConnectionPool_def at_pc_def)

section \<open>Properties\<close>

text \<open>C22: the pool is bounded and its connections are owned. In every reachable state at most
  \<open>pool_size\<close> connections exist or are being opened (the 64-bit counter, which never wraps, counts
  the idle ones, the borrowed ones and the ones being opened), no connection is idle twice or idle
  and borrowed, and no two threads hold the same one.\<close>

theorem pool_bounded:
  assumes "reach pool_start pool_step s"
  shows "length (idle s) + count_at busy (pcs s) = unat (created s) \<and>
    unat (created s) \<le> unat (pool_size s) \<and> distinct (idle s) \<and>
    (\<forall>i c. pcs s i = P_Holding c \<longrightarrow> c \<notin> set (idle s)) \<and>
    (\<forall>i j c. pcs s i = P_Holding c \<and> pcs s j = P_Holding c \<longrightarrow> i = j)"
proof -
  have "slots_ok s" and own: "owners_ok s" using pool_cv.reach_inv [OF assms] by (simp_all add: pool_inv_def)
  moreover have "c \<in> held (pcs s i)" if "pcs s i = P_Holding c" for i c using that by simp
  ultimately show ?thesis
    unfolding slots_ok_def owners_ok_def word_le_nat_alt by (metis (no_types))
qed

theorem pool_bounded_witness:
  "unat (created contended_pool) \<le> unat (pool_size contended_pool)"
  using pool_bounded [OF contended_reach] by simp

lemma pool_no_lost_wakeup_raw:
  assumes "reach pool_start pool_step s" and "pcs s i = P_Waiting"
  shows "length (idle s) + (unat (pool_size s) - unat (created s)) \<le> pool_credit s \<and>
    (idle s \<noteq> [] \<or> created s < pool_size s \<longrightarrow> (\<exists>j. pcs s j \<in> {P_Woken, P_Notify}))"
proof -
  have inv: "finite_off P_Out (pcs s)" using pool_cv.reach_inv [OF assms(1)] by (simp add: pool_inv_def)
  have "0 < pool_waiting s"
    unfolding pool_waiting_def using assms(2)
    by (subst count_at_pos [where z = P_Out]) (use inv in auto)
  from pool_cv.no_lost_wakeup [OF assms(1) this] have le: "pool_avail s \<le> pool_credit s" .
  moreover have "\<exists>j. pcs s j \<in> {P_Woken, P_Notify}" if "0 < pool_credit s"
    using that count_at_pos [where f = "pcs s", OF inv, of "\<lambda>p. p = P_Woken \<or> p = P_Notify"]
    by (auto simp: pool_credit_def)
  moreover have "0 < pool_avail s" if "idle s \<noteq> [] \<or> created s < pool_size s"
    using that by (auto simp: pool_avail_def word_less_nat_alt)
  ultimately show ?thesis
    unfolding pool_avail_def by (meson order_less_le_trans)
qed

text \<open>C23: no lost wake-up, and the pool cannot deadlock by itself. While a thread is blocked in \<open>acquire\<close>, there
  is for every connection that is idle and every slot that is free a thread that has been woken or is about
  to notify, and some other thread is inside the pool and not blocked: it holds a connection, is opening
  one, has been woken, or is about to notify; and if a thread blocks, then all \<open>pool_size\<close> connections are held or being opened.\<close>

theorem pool_never_stuck:
  assumes r: "reach pool_start pool_step s"
  shows "(pcs s i = P_Waiting \<longrightarrow>
       length (idle s) + (unat (pool_size s) - unat (created s)) \<le> pool_credit s \<and>
       (\<exists>j. pcs s j \<notin> {P_Out, P_Acquire, P_Waiting})) \<and>
    (pcs s i \<in> {P_Acquire, P_Woken} \<and> pcs (acquire_section i s) i = P_Waiting \<longrightarrow>
       count_at busy (pcs s) = unat (pool_size s))"
proof (intro conjI impI)
  have fin: "finite_off P_Out (pcs s)" and slots: "slots_ok s"
    using pool_cv.reach_inv [OF r] by (simp_all add: pool_inv_def)
  show "length (idle s) + (unat (pool_size s) - unat (created s)) \<le> pool_credit s" if "pcs s i = P_Waiting"
    using pool_no_lost_wakeup_raw [OF r that] by simp
  show "\<exists>j. pcs s j \<notin> {P_Out, P_Acquire, P_Waiting}" if "pcs s i = P_Waiting"
  proof (cases "idle s \<noteq> [] \<or> created s < pool_size s")
    case True
    with pool_no_lost_wakeup_raw [OF r that] obtain j where "pcs s j \<in> {P_Woken, P_Notify}" by blast
    then show ?thesis by (intro exI [of _ j]) auto
  next
    case False
    with slots have "0 < count_at busy (pcs s)"
      by (auto simp: slots_ok_def word_le_nat_alt word_less_nat_alt)
    then obtain j where "busy (pcs s j)" using count_at_pos [where f = "pcs s", OF fin, of busy] by auto
    then show ?thesis by (intro exI [of _ j]) (cases "pcs s j"; simp)
  qed
  show "count_at busy (pcs s) = unat (pool_size s)"
    if "pcs s i \<in> {P_Acquire, P_Woken} \<and> pcs (acquire_section i s) i = P_Waiting"
    using that slots
    by (auto simp: acquire_section_def at_pc_def slots_ok_def word_le_nat_alt word_less_nat_alt
        split: list.splits if_splits)
qed
theorem pool_never_stuck_witness: "\<exists>j. pcs contended_pool j \<notin> {P_Out, P_Acquire, P_Waiting}"
  using pool_never_stuck [OF contended_reach, of 1] by simp
end
