(* ===== verification/Thread_Pool.thy ===== *)
theory Thread_Pool
  imports Tg_Monitor "HOL-Library.Word" "HOL-Library.Multiset"
begin

text \<open>
  src/tgloggerd/ThreadPool.{hpp,cpp}: workers that take jobs from a bounded queue. Each rule is one
  passage of a worker, a posting thread or the thread calling \<open>shutdown\<close> through the mutex, one
  notification, or the run of a job. A job is an identity; that it may throw makes no difference to
  the pool. The lists of accepted, started and finished jobs are kept for the specification only.
\<close>

section \<open>State\<close>

datatype 'j worker_pc =
    W_None          \<comment> \<open>no such thread\<close>
  | W_Loop          \<comment> \<open>before the lock\<close>
  | W_Wait          \<comment> \<open>blocked on \<open>not_empty_\<close>\<close>
  | W_Woken         \<comment> \<open>woken, about to take the lock again\<close>
  | W_Popped 'j     \<comment> \<open>lock released, before \<open>not_full_.notify_one\<close>\<close>
  | W_Run 'j        \<comment> \<open>in the job\<close>
  | W_Exit          \<comment> \<open>returned\<close>

datatype 'j poster_pc =
    Q_Out | Q_Post 'j | Q_Wait 'j | Q_Woken 'j

datatype stop_pc =
    S_No            \<comment> \<open>\<open>shutdown\<close> not called\<close>
  | S_Set           \<comment> \<open>\<open>draining_\<close> set, before the notifications\<close>
  | S_Half          \<comment> \<open>workers notified\<close>
  | S_Join          \<comment> \<open>joining\<close>
  | S_Joined        \<comment> \<open>returned\<close>

record 'j tpool =
  cap :: "64 word"
  q :: "'j list"
  draining :: bool
  n_threads :: nat
  workers :: "nat \<Rightarrow> 'j worker_pc"
  posters :: "nat \<Rightarrow> 'j poster_pc"
  stop :: stop_pc
  accepted :: "'j list"
  started :: "'j list"
  finished :: "'j list"

definition ThreadPool :: "64 word \<Rightarrow> 64 word \<Rightarrow> 'j tpool" where
  "ThreadPool threads c =
     (let n = (if threads < 1 then 1 else threads) in
      \<lparr>cap = c, q = [], draining = False, n_threads = unat n,
       workers = (\<lambda>i. if i < unat n then W_Loop else W_None), posters = (\<lambda>_. Q_Out), stop = S_No,
       accepted = [], started = [], finished = []\<rparr>)"

definition worker_at :: "nat \<Rightarrow> 'j worker_pc \<Rightarrow> 'j tpool \<Rightarrow> 'j tpool" where
  "worker_at i p s = s\<lparr>workers := (workers s)(i := p)\<rparr>"

definition poster_at :: "nat \<Rightarrow> 'j poster_pc \<Rightarrow> 'j tpool \<Rightarrow> 'j tpool" where
  "poster_at i p s = s\<lparr>posters := (posters s)(i := p)\<rparr>"

section \<open>post\<close>

text \<open>\<open>not_empty_.notify_one\<close> and \<open>not_full_.notify_one\<close>.\<close>

definition notify_worker :: "nat option \<Rightarrow> 'j tpool \<Rightarrow> 'j tpool" where
  "notify_worker w s = (case w of None \<Rightarrow> s | Some k \<Rightarrow> worker_at k W_Woken s)"

definition notify_poster :: "nat option \<Rightarrow> 'j tpool \<Rightarrow> 'j tpool" where
  "notify_poster w s =
     (case w of None \<Rightarrow> s
      | Some k \<Rightarrow> (case posters s k of Q_Wait j \<Rightarrow> poster_at k (Q_Woken j) s | _ \<Rightarrow> s))"

definition wakes_worker :: "'j tpool \<Rightarrow> nat option \<Rightarrow> bool" where
  "wakes_worker s w \<longleftrightarrow>
     (case w of None \<Rightarrow> \<forall>k. workers s k \<noteq> W_Wait | Some k \<Rightarrow> workers s k = W_Wait)"

fun is_wait :: "'j poster_pc \<Rightarrow> bool" where
  "is_wait (Q_Wait j) = True"
| "is_wait _ = False"

definition wakes_poster :: "'j tpool \<Rightarrow> nat option \<Rightarrow> bool" where
  "wakes_poster s w \<longleftrightarrow>
     (case w of None \<Rightarrow> \<forall>k. \<not> is_wait (posters s k) | Some k \<Rightarrow> is_wait (posters s k))"

definition post_section :: "nat \<Rightarrow> 'j \<Rightarrow> nat option \<Rightarrow> 'j tpool \<Rightarrow> 'j tpool" where
  "post_section i j w s =
     (if cap s \<noteq> 0 \<and> \<not> (length (q s) < unat (cap s) \<or> draining s) then poster_at i (Q_Wait j) s
      else if draining s then poster_at i Q_Out s
      else notify_worker w (poster_at i Q_Out (s\<lparr>q := q s @ [j], accepted := accepted s @ [j]\<rparr>)))"

section \<open>run\<close>

definition worker_section :: "nat \<Rightarrow> 'j tpool \<Rightarrow> 'j tpool" where
  "worker_section i s =
     (if \<not> (q s \<noteq> [] \<or> draining s) then worker_at i W_Wait s
      else
        (case q s of
           [] \<Rightarrow> worker_at i W_Exit s
         | j # js \<Rightarrow> worker_at i (W_Popped j) (s\<lparr>q := js, started := started s @ [j]\<rparr>)))"

definition worker_notify :: "nat \<Rightarrow> 'j \<Rightarrow> nat option \<Rightarrow> 'j tpool \<Rightarrow> 'j tpool" where
  "worker_notify i j w s = worker_at i (W_Run j) (notify_poster w s)"

definition worker_job :: "nat \<Rightarrow> 'j \<Rightarrow> 'j tpool \<Rightarrow> 'j tpool" where
  "worker_job i j s = worker_at i W_Loop (s\<lparr>finished := finished s @ [j]\<rparr>)"

section \<open>shutdown\<close>

definition stop_set :: "'j tpool \<Rightarrow> 'j tpool" where
  "stop_set s = s\<lparr>draining := True, stop := S_Set\<rparr>"

definition stop_notify_workers :: "'j tpool \<Rightarrow> 'j tpool" where
  "stop_notify_workers s =
     s\<lparr>workers := (\<lambda>i. if workers s i = W_Wait then W_Woken else workers s i), stop := S_Half\<rparr>"

definition stop_notify_posters :: "'j tpool \<Rightarrow> 'j tpool" where
  "stop_notify_posters s =
     s\<lparr>posters := (\<lambda>i. case posters s i of Q_Wait j \<Rightarrow> Q_Woken j | p \<Rightarrow> p), stop := S_Join\<rparr>"

definition joinable :: "'j tpool \<Rightarrow> bool" where
  "joinable s \<longleftrightarrow> (\<forall>i<n_threads s. workers s i = W_Exit)"

section \<open>Steps\<close>

inductive worker_step :: "'j tpool \<Rightarrow> 'j tpool \<Rightarrow> bool" where
  worker_lock: "workers s i \<in> {W_Loop, W_Woken} \<Longrightarrow> worker_step s (worker_section i s)"
| worker_spurious: "workers s i = W_Wait \<Longrightarrow> worker_step s (worker_at i W_Woken s)"
| worker_signal: "workers s i = W_Popped j \<Longrightarrow> wakes_poster s w \<Longrightarrow> worker_step s (worker_notify i j w s)"
| worker_done: "workers s i = W_Run j \<Longrightarrow> worker_step s (worker_job i j s)"

inductive client_step :: "'j tpool \<Rightarrow> 'j tpool \<Rightarrow> bool" where
  post_call: "posters s i = Q_Out \<Longrightarrow> client_step s (poster_at i (Q_Post j) s)"
| post_lock: "posters s i \<in> {Q_Post j, Q_Woken j} \<Longrightarrow> wakes_worker s w \<Longrightarrow>
    client_step s (post_section i j w s)"
| post_spurious: "posters s i = Q_Wait j \<Longrightarrow> client_step s (poster_at i (Q_Woken j) s)"
| shutdown_lock: "stop s \<in> {S_No, S_Joined} \<Longrightarrow> client_step s (stop_set s)"
| shutdown_workers: "stop s = S_Set \<Longrightarrow> client_step s (stop_notify_workers s)"
| shutdown_posters: "stop s = S_Half \<Longrightarrow> client_step s (stop_notify_posters s)"
| shutdown_join: "stop s = S_Join \<Longrightarrow> joinable s \<Longrightarrow> client_step s (s\<lparr>stop := S_Joined\<rparr>)"

definition tpool_step :: "'j tpool \<Rightarrow> 'j tpool \<Rightarrow> bool" where
  "tpool_step s t \<longleftrightarrow> worker_step s t \<or> client_step s t"

lemma tpool_worker: "worker_step s t \<Longrightarrow> tpool_step s t"
  and tpool_client: "client_step s t \<Longrightarrow> tpool_step s t"
  by (simp_all add: tpool_step_def)

definition tpool_start :: "'j tpool \<Rightarrow> bool" where
  "tpool_start s \<longleftrightarrow> (\<exists>n c. s = ThreadPool n c)"

section \<open>Invariant\<close>

fun jobs_at :: "'j worker_pc \<Rightarrow> 'j list" where
  "jobs_at (W_Popped j) = [j]"
| "jobs_at (W_Run j) = [j]"
| "jobs_at _ = []"

definition fits :: "nat \<Rightarrow> (nat \<Rightarrow> 'j worker_pc) \<Rightarrow> bool" where
  "fits n ws \<longleftrightarrow> (\<forall>i. i < n \<longleftrightarrow> ws i \<noteq> W_None)"

definition threads_ok :: "'j tpool \<Rightarrow> bool" where
  "threads_ok s \<longleftrightarrow> 0 < n_threads s \<and> fits (n_threads s) (workers s) \<and> finite_off Q_Out (posters s)"

definition queue_ok :: "'j tpool \<Rightarrow> bool" where
  "queue_ok s \<longleftrightarrow> (cap s \<noteq> 0 \<longrightarrow> length (q s) \<le> unat (cap s)) \<and> accepted s = started s @ q s"

definition inflight :: "nat \<Rightarrow> (nat \<Rightarrow> 'j worker_pc) \<Rightarrow> 'j multiset" where
  "inflight n ws = (\<Sum>i<n. mset (jobs_at (ws i)))"

definition jobs_ok :: "'j tpool \<Rightarrow> bool" where
  "jobs_ok s \<longleftrightarrow>
     mset (started s) = mset (finished s) + inflight (n_threads s) (workers s) \<and>
     (n_threads s = 1 \<longrightarrow> started s = finished s @ jobs_at (workers s 0))"

definition nowhere :: "'j worker_pc \<Rightarrow> (nat \<Rightarrow> 'j worker_pc) \<Rightarrow> bool" where
  "nowhere p ws \<longleftrightarrow> (\<forall>i. ws i \<noteq> p)"

definition stop_ok :: "'j tpool \<Rightarrow> bool" where
  "stop_ok s \<longleftrightarrow> (draining s \<longleftrightarrow> stop s \<noteq> S_No) \<and>
     (nowhere W_Exit (workers s) \<or> draining s \<and> q s = []) \<and>
     (stop s \<in> {S_Half, S_Join, S_Joined} \<longrightarrow> nowhere W_Wait (workers s)) \<and>
     (stop s = S_Joined \<longrightarrow> joinable s)"

lemmas tpool_ops = worker_at_def poster_at_def notify_worker_def notify_poster_def post_section_def
  worker_section_def worker_notify_def worker_job_def stop_set_def stop_notify_workers_def
  stop_notify_posters_def

lemma notify_worker_frame [simp]:
  "q (notify_worker w s) = q s" "draining (notify_worker w s) = draining s" "cap (notify_worker w s) = cap s"
  "n_threads (notify_worker w s) = n_threads s" "posters (notify_worker w s) = posters s"
  "stop (notify_worker w s) = stop s" "accepted (notify_worker w s) = accepted s"
  "started (notify_worker w s) = started s" "finished (notify_worker w s) = finished s"
  "workers (notify_worker w s) = (case w of None \<Rightarrow> workers s | Some k \<Rightarrow> (workers s)(k := W_Woken))"
  by (simp_all add: notify_worker_def worker_at_def split: option.split)

lemma notify_poster_frame [simp]:
  "q (notify_poster w s) = q s" "draining (notify_poster w s) = draining s" "cap (notify_poster w s) = cap s"
  "n_threads (notify_poster w s) = n_threads s" "workers (notify_poster w s) = workers s"
  "stop (notify_poster w s) = stop s" "accepted (notify_poster w s) = accepted s"
  "started (notify_poster w s) = started s" "finished (notify_poster w s) = finished s"
  by (simp_all add: notify_poster_def poster_at_def split: option.split poster_pc.split)

lemma notify_none [simp]: "notify_poster None s = s" "notify_worker None s = s"
  by (simp_all add: notify_poster_def notify_worker_def)

lemma notify_poster_off [simp]: "finite_off Q_Out (posters (notify_poster w s)) = finite_off Q_Out (posters s)"
  by (simp add: notify_poster_def poster_at_def split: option.split poster_pc.split)

lemma finite_off_posters:
  "finite_off Q_Out (\<lambda>i. case posters s i of Q_Wait j \<Rightarrow> Q_Woken j | p \<Rightarrow> p) = finite_off Q_Out (posters s)"
proof -
  have "(case p of Q_Wait j \<Rightarrow> Q_Woken j | p \<Rightarrow> p) \<noteq> Q_Out \<longleftrightarrow> p \<noteq> Q_Out" for p :: "'a poster_pc"
    by (cases p) simp_all
  then show ?thesis by (simp add: finite_off_def)
qed

lemma fits_upd [simp]: "ws i \<noteq> W_None \<Longrightarrow> p \<noteq> W_None \<Longrightarrow> fits n (ws(i := p)) = fits n ws"
  unfolding fits_def by (metis fun_upd_other fun_upd_same)

lemma fits_map [simp]: "fits n (\<lambda>i. if ws i = W_Wait then W_Woken else ws i) = fits n ws"
  unfolding fits_def by (metis worker_pc.distinct(3,5))

lemma fits_lt: "fits n ws \<Longrightarrow> ws i \<noteq> W_None \<Longrightarrow> i < n"
  by (simp add: fits_def)

lemma threads_worker: "worker_step s t \<Longrightarrow> threads_ok s \<Longrightarrow> threads_ok t"
proof (induction rule: worker_step.induct)
  case (worker_lock s i)
  then have "workers s i \<noteq> W_None" by auto
  with worker_lock show ?case
    by (simp add: threads_ok_def worker_section_def worker_at_def split: list.split)
qed (simp_all add: threads_ok_def worker_notify_def worker_job_def worker_at_def)

lemma threads_client: "client_step s t \<Longrightarrow> threads_ok s \<Longrightarrow> threads_ok t"
proof (induction rule: client_step.induct)
  case (post_lock s i j w)
  then show ?case
    by (auto simp: threads_ok_def post_section_def poster_at_def wakes_worker_def split: option.split)
qed (simp_all add: threads_ok_def poster_at_def stop_set_def stop_notify_workers_def
    stop_notify_posters_def finite_off_posters)

lemma queue_step: "tpool_step s t \<Longrightarrow> queue_ok s \<Longrightarrow> queue_ok t"
  unfolding tpool_step_def
proof (elim disjE)
  assume "worker_step s t" and "queue_ok s"
  then show "queue_ok t"
    by cases (auto simp: queue_ok_def worker_section_def worker_notify_def worker_job_def worker_at_def
        split: list.split)
next
  assume "client_step s t" and "queue_ok s"
  then show "queue_ok t"
    by cases (auto simp: queue_ok_def post_section_def poster_at_def stop_set_def stop_notify_workers_def
        stop_notify_posters_def)
qed

lemma inflight_upd:
  "i < n \<Longrightarrow> inflight n (ws(i := x)) + mset (jobs_at (ws i)) = inflight n ws + mset (jobs_at x)"
  unfolding inflight_def by (rule sum_upd)

lemma inflight_same [simp]: "jobs_at x = jobs_at (ws i) \<Longrightarrow> inflight n (ws(i := x)) = inflight n ws"
  unfolding inflight_def by (rule sum.cong) simp_all

lemma inflight_map [simp]:
  "inflight n (\<lambda>i. if ws i = W_Wait then W_Woken else ws i) = inflight n ws"
  unfolding inflight_def by (rule sum.cong) simp_all

lemma jobs_worker: "worker_step s t \<Longrightarrow> jobs_ok s \<Longrightarrow> threads_ok s \<Longrightarrow> jobs_ok t"
proof (induction rule: worker_step.induct)
  case (worker_lock s i)
  then have i: "i < n_threads s" and none: "jobs_at (workers s i) = []"
    by (auto simp: threads_ok_def intro: fits_lt)
  show ?case
  proof (cases "q s")
    case Nil
    with worker_lock none show ?thesis
      by (auto simp: jobs_ok_def worker_section_def worker_at_def)
  next
    case (Cons j js)
    have "inflight (n_threads s) ((workers s)(i := W_Popped j)) = inflight (n_threads s) (workers s) + {#j#}"
      using inflight_upd [OF i, of "workers s" "W_Popped j"] none by simp
    with Cons worker_lock(2) none i show ?thesis
      by (auto simp: jobs_ok_def worker_section_def worker_at_def)
  qed
next
  case (worker_done s i j)
  then have i: "i < n_threads s" by (auto simp: threads_ok_def intro: fits_lt)
  have "inflight (n_threads s) ((workers s)(i := W_Loop)) + {#j#} = inflight (n_threads s) (workers s)"
    using inflight_upd [OF i, of "workers s" W_Loop] worker_done(1) by simp
  with worker_done i show ?case
    by (auto simp: jobs_ok_def worker_job_def worker_at_def union_assoc [symmetric] simp flip: add_mset_add_single)
qed (auto simp: jobs_ok_def worker_notify_def worker_at_def)

lemma jobs_client: "client_step s t \<Longrightarrow> jobs_ok s \<Longrightarrow> jobs_ok t"
proof (induction rule: client_step.induct)
  case (post_lock s i j w)
  then show ?case
    by (auto simp: jobs_ok_def post_section_def poster_at_def wakes_worker_def split: option.split)
qed (auto simp: jobs_ok_def poster_at_def stop_set_def stop_notify_workers_def stop_notify_posters_def)

lemma nowhere_upd [simp]: "p \<noteq> x \<Longrightarrow> nowhere p ws \<Longrightarrow> nowhere p (ws(i := x))"
  by (auto simp: nowhere_def)

lemma not_joined:
  "stop_ok s \<Longrightarrow> threads_ok s \<Longrightarrow> workers s i \<notin> {W_None, W_Exit} \<Longrightarrow> stop s \<noteq> S_Joined"
  by (auto simp: stop_ok_def threads_ok_def joinable_def dest: fits_lt)

lemma nowhereD: "nowhere p ws \<Longrightarrow> ws i \<noteq> p"
  by (simp add: nowhere_def)

lemma stop_worker: "worker_step s t \<Longrightarrow> stop_ok s \<Longrightarrow> threads_ok s \<Longrightarrow> stop_ok t"
proof (induction rule: worker_step.induct)
  case (worker_lock s i)
  with not_joined [of s i] have "stop s \<noteq> S_Joined" by auto
  with worker_lock show ?case
    by (cases "q s") (auto simp: stop_ok_def worker_section_def worker_at_def joinable_def)
next
  case (worker_spurious s i)
  with not_joined [of s i] have "stop s \<noteq> S_Joined" by auto
  with worker_spurious show ?case by (auto simp: stop_ok_def worker_at_def joinable_def)
next
  case (worker_signal s i j w)
  with not_joined [of s i] have "stop s \<noteq> S_Joined" by auto
  with worker_signal show ?case by (auto simp: stop_ok_def worker_notify_def worker_at_def joinable_def)
next
  case (worker_done s i j)
  with not_joined [of s i] have "stop s \<noteq> S_Joined" by auto
  with worker_done show ?case by (auto simp: stop_ok_def worker_job_def worker_at_def joinable_def)
qed

lemma stop_client: "client_step s t \<Longrightarrow> stop_ok s \<Longrightarrow> stop_ok t"
proof (induction rule: client_step.induct)
  case (post_lock s i j w)
  then show ?case
    by (auto simp: stop_ok_def post_section_def poster_at_def joinable_def wakes_worker_def
        split: option.split dest: nowhereD)
next
  case (shutdown_workers s)
  then show ?case
    by (auto simp: stop_ok_def stop_notify_workers_def nowhere_def)
qed (auto simp: stop_ok_def poster_at_def stop_set_def stop_notify_posters_def joinable_def)

definition tpool_inv :: "'j tpool \<Rightarrow> bool" where
  "tpool_inv s \<longleftrightarrow> threads_ok s \<and> queue_ok s \<and> jobs_ok s \<and> stop_ok s"

lemma tpool_inv_step: "tpool_inv s \<Longrightarrow> tpool_step s t \<Longrightarrow> tpool_inv t"
  using queue_step [of s t] unfolding tpool_inv_def tpool_step_def
  by (blast intro: threads_worker threads_client jobs_worker jobs_client stop_worker stop_client)

lemma tpool_inv_start: "tpool_start s \<Longrightarrow> tpool_inv s"
proof -
  assume "tpool_start s"
  then obtain n c where s: "s = ThreadPool n c" by (auto simp: tpool_start_def)
  define m where "m = unat (if n < 1 then 1 else n)"
  have pos: "0 < m" by (auto simp: m_def unat_gt_0 word_less_nat_alt)
  have "inflight m (\<lambda>i. if i < m then W_Loop else W_None) = {#}" by (simp add: inflight_def)
  then show ?thesis
    unfolding s ThreadPool_def Let_def m_def [symmetric] using pos
    by (simp add: tpool_inv_def threads_ok_def queue_ok_def jobs_ok_def stop_ok_def fits_def nowhere_def)
qed

section \<open>Wake-ups\<close>

fun is_woken :: "'j poster_pc \<Rightarrow> bool" where
  "is_woken (Q_Woken j) = True"
| "is_woken _ = False"

fun is_popped :: "'j worker_pc \<Rightarrow> bool" where
  "is_popped (W_Popped j) = True"
| "is_popped _ = False"

lemma fits_finite: "fits n ws \<Longrightarrow> finite_off W_None ws"
  unfolding fits_def finite_off_def by (rule finite_subset [of _ "{..<n}"]) auto

lemmas worker_count = count_at_change [where z = W_None]
lemmas poster_count = count_at_change [where z = Q_Out]

text \<open>Workers waiting for a job.\<close>

definition idle_workers :: "'j tpool \<Rightarrow> nat" where
  "idle_workers s = count_at (\<lambda>p. p = W_Wait) (workers s)"

definition woken_workers :: "'j tpool \<Rightarrow> nat" where
  "woken_workers s = count_at (\<lambda>p. p = W_Woken) (workers s)"

interpretation not_empty: monitor tpool_start tpool_step tpool_inv idle_workers "\<lambda>s. length (q s)" woken_workers
proof unfold_locales
  show "tpool_inv s \<and> idle_workers s = 0" if "tpool_start s" for s :: "'j tpool"
    using that tpool_inv_start [OF that]
    by (auto simp: tpool_start_def ThreadPool_def Let_def idle_workers_def count_at_def)
  show "tpool_inv t" if "tpool_inv s" and "tpool_step s t" for s t :: "'j tpool"
    using that by (rule tpool_inv_step)
  show "idle_workers t = 0 \<or> length (q t) = 0 \<or>
      0 < idle_workers s \<and> length (q t) + woken_workers s \<le> length (q s) + woken_workers t"
    if inv: "tpool_inv s" and step: "tpool_step s t" for s t :: "'j tpool"
  proof -
    have fin: "finite_off W_None (workers s)"
      using inv by (auto simp: tpool_inv_def threads_ok_def intro: fits_finite)
    note defs = idle_workers_def woken_workers_def worker_count [OF fin]
    from step show ?thesis
      unfolding tpool_step_def
    proof
      assume "worker_step s t"
      then show ?thesis
      proof cases
        case (worker_lock i)
        have "0 < woken_workers s" if "workers s i = W_Woken"
          unfolding woken_workers_def using that
          by (subst count_at_pos [where z = W_None, OF fin]) auto
        with worker_lock show ?thesis
          by (cases "q s") (auto simp: defs worker_section_def worker_at_def)
      qed (auto simp: defs worker_notify_def worker_job_def worker_at_def)
    next
      assume "client_step s t"
      then show ?thesis
      proof cases
        case (post_lock i j w)
        have "idle_workers s = 0" if "w = None"
          using post_lock(3) that count_at_0 [where z = W_None, OF fin, of "\<lambda>p. p = W_Wait"]
          by (simp add: wakes_worker_def idle_workers_def)
        moreover have "0 < idle_workers s" if "w = Some k" for k
          unfolding idle_workers_def using post_lock(3) that
          by (subst count_at_pos [where z = W_None, OF fin]) (auto simp: wakes_worker_def)
        ultimately show ?thesis
          using post_lock
          by (cases w) (auto simp: defs post_section_def poster_at_def wakes_worker_def)
      next
        case shutdown_workers
        then show ?thesis
          by (simp add: idle_workers_def stop_notify_workers_def count_at_def)
      qed (auto simp: defs poster_at_def stop_set_def stop_notify_posters_def)
    qed
  qed
qed

text \<open>Threads blocked in \<open>post\<close>.\<close>

definition blocked_posters :: "'j tpool \<Rightarrow> nat" where
  "blocked_posters s = count_at is_wait (posters s)"

definition free_slots :: "'j tpool \<Rightarrow> nat" where
  "free_slots s = (if cap s = 0 \<or> draining s then 0 else unat (cap s) - length (q s))"

definition poster_credit :: "'j tpool \<Rightarrow> nat" where
  "poster_credit s = count_at is_woken (posters s) + count_at is_popped (workers s)"

lemma notify_poster_counts:
  assumes "wakes_poster s w" and fin: "finite_off Q_Out (posters s)"
  shows "(w = None \<and> count_at is_wait (posters s) = 0) \<or>
    (0 < count_at is_wait (posters s) \<and>
     count_at is_woken (posters (notify_poster w s)) = Suc (count_at is_woken (posters s)))"
proof (cases w)
  case None
  with assms count_at_0 [where z = Q_Out, OF fin, of is_wait] show ?thesis by (simp add: wakes_poster_def)
next
  case (Some k)
  with assms(1) obtain j where k: "posters s k = Q_Wait j"
    by (cases "posters s k") (auto simp: wakes_poster_def)
  then have "0 < count_at is_wait (posters s)"
    by (subst count_at_pos [where z = Q_Out, OF fin]) (auto intro!: exI [of _ k])
  with Some k show ?thesis
    by (simp add: notify_poster_def poster_at_def poster_count [OF fin])
qed

interpretation not_full: monitor tpool_start tpool_step tpool_inv blocked_posters free_slots poster_credit
proof unfold_locales
  show "tpool_inv s \<and> blocked_posters s = 0" if "tpool_start s" for s :: "'j tpool"
    using that tpool_inv_start [OF that]
    by (auto simp: tpool_start_def ThreadPool_def Let_def blocked_posters_def)
  show "tpool_inv t" if "tpool_inv s" and "tpool_step s t" for s t :: "'j tpool"
    using that by (rule tpool_inv_step)
  show "blocked_posters t = 0 \<or> free_slots t = 0 \<or>
      0 < blocked_posters s \<and> free_slots t + poster_credit s \<le> free_slots s + poster_credit t"
    if inv: "tpool_inv s" and step: "tpool_step s t" for s t :: "'j tpool"
  proof -
    have fin: "finite_off W_None (workers s)" and finp: "finite_off Q_Out (posters s)"
      using inv by (auto simp: tpool_inv_def threads_ok_def intro: fits_finite)
    have queue: "cap s \<noteq> 0 \<Longrightarrow> length (q s) \<le> unat (cap s)"
      using inv by (simp add: tpool_inv_def queue_ok_def)
    note defs = blocked_posters_def free_slots_def poster_credit_def worker_count [OF fin] poster_count [OF finp]
    from step show ?thesis
      unfolding tpool_step_def
    proof
      assume "worker_step s t"
      then show ?thesis
      proof cases
        case (worker_lock i)
        with queue show ?thesis
          by (cases "q s") (auto simp: defs worker_section_def worker_at_def)
      next
        case (worker_signal i j w)
        have "0 < count_at is_popped (workers s)"
          by (subst count_at_pos [where z = W_None, OF fin]) (use worker_signal(2) in \<open>auto intro!: exI [of _ i]\<close>)
        with worker_signal notify_poster_counts [OF worker_signal(3) finp] show ?thesis
          by (auto simp: defs worker_notify_def worker_at_def)
      qed (auto simp: defs worker_job_def worker_at_def)
    next
      assume "client_step s t"
      then show ?thesis
      proof cases
        case (post_lock i j w)
        have "0 < count_at is_woken (posters s)" if "posters s i = Q_Woken j"
          by (subst count_at_pos [where z = Q_Out, OF finp]) (use that in \<open>auto intro!: exI [of _ i]\<close>)
        moreover have "count_at is_popped (workers (notify_worker w s)) = count_at is_popped (workers s)"
          using post_lock(3) by (cases w) (simp_all add: wakes_worker_def worker_count [OF fin])
        ultimately show ?thesis
          using post_lock
          by (cases w) (auto simp: defs post_section_def poster_at_def)
      next
        case shutdown_workers
        have "{i. is_popped (if workers s i = W_Wait then W_Woken else workers s i)} = {i. is_popped (workers s i)}"
          by auto
        with shutdown_workers inv show ?thesis
          by (auto simp: defs stop_notify_workers_def count_at_def tpool_inv_def stop_ok_def)
      next
        case shutdown_posters
        with inv show ?thesis by (auto simp: defs stop_notify_posters_def tpool_inv_def stop_ok_def)
      next
        case (post_spurious i j)
        then show ?thesis by (auto simp: defs poster_at_def)
      qed (auto simp: defs poster_at_def stop_set_def)
    qed
  qed
qed
section \<open>Properties\<close>

lemma tpool_reach_inv: "reach tpool_start tpool_step s \<Longrightarrow> tpool_inv s"
  by (rule not_empty.reach_inv)

text \<open>A pool with one worker and one queued job, and the same pool shut down and joined.\<close>

definition posted_pool :: "nat tpool" where
  "posted_pool = post_section 0 7 None (poster_at 0 (Q_Post 7) (ThreadPool 1 2))"

definition joining_pool :: "nat tpool" where
  "joining_pool = stop_notify_posters (stop_notify_workers (stop_set posted_pool))"

definition joined_pool :: "nat tpool" where
  "joined_pool = (worker_section 0 (worker_job 0 7 (worker_notify 0 7 None
     (worker_section 0 joining_pool))))\<lparr>stop := S_Joined\<rparr>"

lemmas sample_pool_defs = joined_pool_def joining_pool_def posted_pool_def tpool_ops ThreadPool_def Let_def

lemma posted_reach: "reach tpool_start tpool_step posted_pool"
proof -
  have "reach tpool_start tpool_step (ThreadPool 1 2 :: nat tpool)"
    by (rule reach_init) (auto simp: tpool_start_def)
  then have "reach tpool_start tpool_step (poster_at 0 (Q_Post (7::nat)) (ThreadPool 1 2))"
    by (rule reach_step) (rule tpool_client, rule post_call, simp add: ThreadPool_def Let_def)
  then show ?thesis
    unfolding posted_pool_def
    by (rule reach_step) (rule tpool_client, rule post_lock,
      auto simp: ThreadPool_def Let_def poster_at_def wakes_worker_def)
qed

lemma joining_reach: "reach tpool_start tpool_step joining_pool"
proof -
  have "reach tpool_start tpool_step (stop_set posted_pool)"
    by (rule reach_step [OF posted_reach]) (rule tpool_client, rule shutdown_lock,
      simp add: sample_pool_defs)
  then have "reach tpool_start tpool_step (stop_notify_workers (stop_set posted_pool))"
    by (rule reach_step) (rule tpool_client, rule shutdown_workers, simp add: stop_set_def)
  then show ?thesis
    unfolding joining_pool_def
    by (rule reach_step) (rule tpool_client, rule shutdown_posters,
      simp add: stop_notify_workers_def)
qed

lemma joined_reach: "reach tpool_start tpool_step joined_pool"
proof -
  have "reach tpool_start tpool_step (worker_section 0 joining_pool)"
    by (rule reach_step [OF joining_reach]) (rule tpool_worker, rule worker_lock,
      simp add: sample_pool_defs)
  then have "reach tpool_start tpool_step (worker_notify 0 7 None (worker_section 0 joining_pool))"
    by (rule reach_step) (rule tpool_worker, rule worker_signal,
      simp_all add: sample_pool_defs wakes_poster_def)
  then have "reach tpool_start tpool_step (worker_job 0 7 (worker_notify 0 7 None (worker_section 0 joining_pool)))"
    by (rule reach_step) (rule tpool_worker, rule worker_done, simp add: worker_notify_def worker_at_def)
  then have "reach tpool_start tpool_step (worker_section 0 (worker_job 0 7
      (worker_notify 0 7 None (worker_section 0 joining_pool))))"
    by (rule reach_step) (rule tpool_worker, rule worker_lock, simp add: worker_job_def worker_at_def)
  then show ?thesis
    unfolding joined_pool_def
    by (rule reach_step) (rule tpool_client, rule shutdown_join,
      simp_all add: sample_pool_defs joinable_def)
qed

text \<open>C21: the queue is bounded and first in, first out, and no job is lost or run twice. In every reachable
  state a bounded queue holds at most \<open>cap\<close> jobs; the jobs accepted so far are, in order, those
  taken by a worker followed by those queued; and those taken are, each exactly once, finished or
  with one worker. One worker is a strict serial executor: the finished jobs, the one being run and the
  queued ones are then, in this order, exactly the accepted ones.\<close>

theorem tpool_fifo:
  assumes "reach tpool_start tpool_step s"
  shows "(cap s = 0 \<or> length (q s) \<le> unat (cap s)) \<and> accepted s = started s @ q s \<and>
    mset (started s) = mset (finished s) + inflight (n_threads s) (workers s) \<and>
    (n_threads s = 1 \<longrightarrow> finished s @ jobs_at (workers s 0) @ q s = accepted s)"
  using tpool_reach_inv [OF assms] by (auto simp: tpool_inv_def queue_ok_def jobs_ok_def)

theorem tpool_fifo_witness: "length (q posted_pool) = 1 \<and> accepted posted_pool = [7] \<and>
    finished posted_pool @ jobs_at (workers posted_pool 0) @ q posted_pool = [7] \<and>
    (cap posted_pool = 0 \<or> length (q posted_pool) \<le> unat (cap posted_pool))"
  using tpool_fifo [OF posted_reach] by (simp add: sample_pool_defs)

text \<open>No lost wake-up on either condition. While a worker is blocked there is for every queued job a
  worker that has been woken; while a thread is blocked in \<open>post\<close> and the pool is not shutting down,
  there is for every free slot of the queue a poster that has been woken or a worker about to
  notify one.\<close>

theorem tpool_no_lost_wakeup:
  assumes r: "reach tpool_start tpool_step s"
  shows "(workers s i = W_Wait \<longrightarrow> length (q s) \<le> woken_workers s) \<and>
    (posters s k = Q_Wait j \<and> \<not> draining s \<and> cap s \<noteq> 0 \<longrightarrow>
      unat (cap s) - length (q s) \<le> poster_credit s)"
proof (intro conjI impI)
  have fin: "finite_off W_None (workers s)" and finp: "finite_off Q_Out (posters s)"
    using tpool_reach_inv [OF r] by (auto simp: tpool_inv_def threads_ok_def intro: fits_finite)
  show "length (q s) \<le> woken_workers s" if "workers s i = W_Wait"
  proof -
    have "0 < idle_workers s"
      unfolding idle_workers_def using that by (subst count_at_pos [where z = W_None, OF fin]) auto
    then show ?thesis by (rule not_empty.no_lost_wakeup [OF r])
  qed
  show "unat (cap s) - length (q s) \<le> poster_credit s"
    if "posters s k = Q_Wait j \<and> \<not> draining s \<and> cap s \<noteq> 0"
  proof -
    have "0 < blocked_posters s"
      unfolding blocked_posters_def using that
      by (subst count_at_pos [where z = Q_Out, OF finp]) (auto intro!: exI [of _ k])
    from not_full.no_lost_wakeup [OF r this] that show ?thesis by (simp add: free_slots_def)
  qed
qed

definition waiting_pool :: "nat tpool" where
  "waiting_pool = worker_section 0 (ThreadPool 1 2)"

theorem tpool_no_lost_wakeup_witness: "workers waiting_pool 0 = W_Wait \<and>
    length (q waiting_pool) \<le> woken_workers waiting_pool"
proof -
  have "reach tpool_start tpool_step (ThreadPool 1 2 :: nat tpool)"
    by (rule reach_init) (auto simp: tpool_start_def)
  then have "reach tpool_start tpool_step waiting_pool"
    unfolding waiting_pool_def
    by (rule reach_step) (rule tpool_worker, rule worker_lock, simp add: ThreadPool_def Let_def)
  from tpool_no_lost_wakeup [OF this, of 0] show ?thesis
    by (simp add: waiting_pool_def ThreadPool_def Let_def worker_section_def worker_at_def)
qed

text \<open>A shutdown drains. When \<open>shutdown\<close> has returned, the queue is empty, every worker has returned,
  and the finished jobs are exactly the accepted ones, each run once; afterwards \<open>post\<close> adds nothing.\<close>

theorem shutdown_drains:
  assumes r: "reach tpool_start tpool_step s" and joined: "stop s = S_Joined"
  shows "q s = [] \<and> joinable s \<and> mset (finished s) = mset (accepted s) \<and>
    accepted (post_section i j w s) = accepted s \<and> q (post_section i j w s) = []"
proof -
  have inv: "threads_ok s" "queue_ok s" "jobs_ok s" "stop_ok s"
    using tpool_reach_inv [OF r] by (simp_all add: tpool_inv_def)
  have join: "joinable s" and drain: "draining s" using inv(4) joined by (simp_all add: stop_ok_def)
  from join inv(1) have "workers s 0 = W_Exit" by (simp add: joinable_def threads_ok_def)
  with inv(4) have empty: "q s = []" by (auto simp: stop_ok_def dest: nowhereD)
  have "inflight (n_threads s) (workers s) = {#}"
    using join by (simp add: inflight_def joinable_def)
  with inv(2,3) empty join drain show ?thesis
    by (simp add: queue_ok_def jobs_ok_def post_section_def poster_at_def)
qed

theorem shutdown_drains_witness: "finished joined_pool = [7] \<and> mset (finished joined_pool) = mset (accepted joined_pool)"
proof -
  have "stop joined_pool = S_Joined" by (simp add: joined_pool_def)
  from shutdown_drains [OF joined_reach this] show ?thesis by (simp add: sample_pool_defs)
qed

fun weight_at :: "'j worker_pc \<Rightarrow> nat" where
  "weight_at W_None = 0"
| "weight_at W_Loop = 1"
| "weight_at W_Wait = 2"
| "weight_at W_Woken = 1"
| "weight_at (W_Popped j) = 3"
| "weight_at (W_Run j) = 2"
| "weight_at W_Exit = 0"

definition total_weight :: "nat \<Rightarrow> (nat \<Rightarrow> 'j worker_pc) \<Rightarrow> nat" where
  "total_weight n ws = (\<Sum>i<n. weight_at (ws i))"

definition work_left :: "'j tpool \<Rightarrow> nat" where
  "work_left s = 4 * length (q s) + total_weight (n_threads s) (workers s)"

lemma weight_upd:
  "i < n \<Longrightarrow> total_weight n (ws(i := x)) + weight_at (ws i) = total_weight n ws + weight_at x"
  unfolding total_weight_def by (rule sum_upd)

lemma worker_less:
  assumes step: "worker_step s t" and inv: "tpool_inv s" and stop: "stop s = S_Join"
  shows "work_left t < work_left s"
proof -
  have th: "fits (n_threads s) (workers s)" and drain: "draining s" and nw: "nowhere W_Wait (workers s)"
    using inv stop by (simp_all add: tpool_inv_def threads_ok_def stop_ok_def)
  from step show ?thesis
  proof cases
    case (worker_lock i)
    then have i: "i < n_threads s" and w: "weight_at (workers s i) = 1" using th by (auto intro: fits_lt)
    have "total_weight (n_threads s) ((workers s)(i := x)) + 1 = total_weight (n_threads s) (workers s) + weight_at x" for x
      using weight_upd [OF i, of "workers s" x] by (simp add: w)
    from this [of "W_Popped (hd (q s))"] this [of W_Exit] worker_lock(1) drain show ?thesis
      by (cases "q s") (auto simp: worker_section_def worker_at_def work_left_def)
  next
    case (worker_spurious i)
    with nw show ?thesis by (simp add: nowhere_def)
  next
    case (worker_signal i j w)
    then have "i < n_threads s" using th by (auto intro: fits_lt)
    from weight_upd [OF this, of "workers s" "W_Run j"] worker_signal show ?thesis
      by (simp add: worker_notify_def worker_at_def work_left_def)
  next
    case (worker_done i j)
    then have "i < n_threads s" using th by (auto intro: fits_lt)
    from weight_upd [OF this, of "workers s" W_Loop] worker_done show ?thesis
      by (simp add: worker_job_def worker_at_def work_left_def)
  qed
qed

lemma worker_progress:
  assumes inv: "tpool_inv s" and stop: "stop s = S_Join" and not: "\<not> joinable s"
  shows "\<exists>t. worker_step s t"
proof -
  have th: "fits (n_threads s) (workers s)" and nw: "nowhere W_Wait (workers s)"
    using inv stop by (simp_all add: tpool_inv_def threads_ok_def stop_ok_def)
  from not obtain i where "i < n_threads s" and i: "workers s i \<noteq> W_Exit" by (auto simp: joinable_def)
  with th nw have live: "workers s i \<notin> {W_None, W_Wait, W_Exit}" by (auto simp: fits_def nowhere_def)
  have "\<exists>w. wakes_poster s w"
  proof (cases "\<exists>k. is_wait (posters s k)")
    case True
    then obtain k where "is_wait (posters s k)" ..
    then show ?thesis by (intro exI [of _ "Some k"]) (simp add: wakes_poster_def)
  next
    case False
    then show ?thesis by (intro exI [of _ None]) (simp add: wakes_poster_def)
  qed
  then obtain w where "wakes_poster s w" ..
  with live show ?thesis
    by (cases "workers s i") (auto intro: worker_lock worker_signal worker_done)
qed

lemma client_no_more: "client_step s t \<Longrightarrow> stop s = S_Join \<Longrightarrow> draining s \<Longrightarrow> work_left t \<le> work_left s"
  by (induction rule: client_step.induct) (auto simp: work_left_def poster_at_def post_section_def)

text \<open>A shutdown terminates, provided the jobs do. While \<open>shutdown\<close> is joining, either every worker has
  returned or some worker can take a step, and every step of a worker decreases the work left, a
  number that no step of another thread increases.\<close>

theorem shutdown_terminates:
  assumes r: "reach tpool_start tpool_step s" and stop: "stop s = S_Join"
  shows "(joinable s \<or> (\<exists>t. worker_step s t)) \<and> (\<forall>t. worker_step s t \<longrightarrow> work_left t < work_left s) \<and>
    (\<forall>t. client_step s t \<longrightarrow> work_left t \<le> work_left s)"
proof -
  note inv = tpool_reach_inv [OF r]
  then have "draining s" using stop by (simp add: tpool_inv_def stop_ok_def)
  then show ?thesis
    using worker_progress [OF inv stop] worker_less [OF _ inv stop] client_no_more [OF _ stop] by blast
qed

theorem shutdown_terminates_witness: "stop joining_pool = S_Join \<and> (\<exists>t. worker_step joining_pool t)"
proof -
  have "stop joining_pool = S_Join" by (simp add: joining_pool_def stop_notify_posters_def)
  moreover have "\<not> joinable joining_pool" by (auto simp: joinable_def sample_pool_defs)
  ultimately show ?thesis using shutdown_terminates [OF joining_reach] by blast
qed

end
