(* ===== verification/Td_Polling.thy ===== *)
theory Td_Polling
  imports Td_Client_Props
begin

text \<open>
  Administrator polling and the reply chain: the batch loop against a round-robin reference, its
  fairness, and the bounds of the chain of \<open>getMessage\<close> queries that one message can cause.
\<close>

section \<open>Round robin\<close>

text \<open>The front part of a queue that contains \<open>n\<close> elements satisfying \<open>P\<close>, and the rest.\<close>

fun split_batch :: "('a \<Rightarrow> bool) \<Rightarrow> nat \<Rightarrow> 'a list \<Rightarrow> 'a list \<times> 'a list" where
  "split_batch P 0 xs = ([], xs)"
| "split_batch P (Suc n) [] = ([], [])"
| "split_batch P (Suc n) (x # xs) =
     (case split_batch P (if P x then n else Suc n) xs of (now, later) \<Rightarrow> (x # now, later))"

lemma split_batch_Nil [simp]: "split_batch P n [] = ([], [])"
  by (cases n) auto

lemma split_batch_append: "split_batch P n xs = (now, later) \<Longrightarrow> xs = now @ later"
  by (induction P n xs arbitrary: now later rule: split_batch.induct) (auto split: prod.splits if_splits)

lemma split_batch_count:
  "split_batch P n xs = (now, later) \<Longrightarrow> length (filter P now) \<le> n \<and> (later = [] \<or> length (filter P now) = n)"
  by (induction P n xs arbitrary: now later rule: split_batch.induct)
    (fastforce split: prod.splits if_splits)+

text \<open>Whether polling a tracked chat asks anything, and what.\<close>

definition tracked :: "td \<Rightarrow> int \<Rightarrow> bool" where
  "tracked s c \<longleftrightarrow> c \<in> admin_poll_set s"

definition group_of :: "td \<Rightarrow> int \<Rightarrow> (int \<times> GroupState) option" where
  "group_of s c =
     (case chat_to_group s c of None \<Rightarrow> None | Some g \<Rightarrow> map_option (Pair g) (group_state s g))"

definition pollable :: "td \<Rightarrow> int \<Rightarrow> bool" where
  "pollable s c \<longleftrightarrow> tracked s c \<and> group_of s c \<noteq> None"

definition poll_request :: "td \<Rightarrow> int \<Rightarrow> td_query" where
  "poll_request s c =
     (case group_of s c of
        Some (g, st) \<Rightarrow>
          if st_type st = Gt_BasicGroup then Q_GetBasicGroupFullInfo g else Q_GetSupergroupMembers g
      | None \<Rightarrow> undefined)"

definition same_groups :: "td \<Rightarrow> td \<Rightarrow> bool" where
  "same_groups s t \<longleftrightarrow> admin_poll_set t = admin_poll_set s \<and> chat_to_group t = chat_to_group s \<and>
     group_state t = group_state s \<and> admin_poll_batch t = admin_poll_batch s \<and> installed t = installed s"

lemma same_groups_sel:
  assumes "same_groups s t"
  shows "tracked t = tracked s" "pollable t = pollable s" "poll_request t = poll_request s"
    "admin_poll_batch t = admin_poll_batch s" "installed t = installed s" "group_of t = group_of s"
proof -
  show group: "group_of t = group_of s"
    by (rule ext) (use assms in \<open>simp add: same_groups_def group_of_def split: option.split\<close>)
  show "tracked t = tracked s" by (rule ext) (use assms in \<open>simp add: same_groups_def tracked_def\<close>)
  with group show "pollable t = pollable s" by (simp add: pollable_def fun_eq_iff)
  from group show "poll_request t = poll_request s" by (simp add: poll_request_def fun_eq_iff)
qed (use assms in \<open>simp_all add: same_groups_def\<close>)

lemma poll_loop_stop: "\<not> polled < admin_poll_batch s \<Longrightarrow> poll_loop n polled s = s"
  by (cases n) auto

lemma poll_query_trace:
  assumes "H_Admins \<in> installed s" and "group_of s c = Some (g, st)"
  shows "map snd (sent (poll_query g c st s)) = map snd (sent s) @ [poll_request s c]"
    and "admin_poll_queue (poll_query g c st s) = admin_poll_queue s"
    and "same_groups s (poll_query g c st s)" and "events (poll_query g c st s) = events s"
  using assms by (auto simp: poll_query_def poll_request_def fetch_group_admins_def same_groups_def)

lemma poll_loop_round_robin:
  assumes "H_Admins \<in> installed s" and "admin_poll_queue s = xs @ rest"
    and "split_batch (pollable s) (nat (admin_poll_batch s - polled)) xs = (now, later)"
  shows "admin_poll_queue (poll_loop (length xs) polled s) = later @ rest @ filter (tracked s) now \<and>
    map snd (sent (poll_loop (length xs) polled s)) =
      map snd (sent s) @ map (poll_request s) (filter (pollable s) now) \<and>
    events (poll_loop (length xs) polled s) = events s"
  using assms
proof (induction xs arbitrary: rest polled s now later)
  case (Cons c xs)
  show ?case
  proof (cases "polled < admin_poll_batch s")
    case False
    with Cons.prems(2,3) show ?thesis by (simp add: poll_loop_stop)
  next
    case True
    then obtain n where n: "nat (admin_poll_batch s - polled) = Suc n"
      by (metis diff_gt_0_iff_gt gr0_implies_Suc zero_less_nat_eq)
    from Cons.prems(3) obtain now' where now: "now = c # now'"
      and split: "split_batch (pollable s) (if pollable s c then n else Suc n) xs = (now', later)"
      by (auto simp: n split: prod.splits)
    let ?d = "s\<lparr>admin_poll_queue := xs @ rest\<rparr>"
    let ?k = "s\<lparr>admin_poll_queue := xs @ rest @ [c]\<rparr>"
    have same: "same_groups s ?d" "same_groups s ?k" by (simp_all add: same_groups_def)
    note sel = same_groups_sel [OF same(1)] same_groups_sel [OF same(2)]
    note loop = poll_loop.simps(2) [of "length xs" polled s]
    consider (gone) "\<not> tracked s c" | (unknown) "tracked s c" "group_of s c = None"
      | (poll) g st where "tracked s c" "group_of s c = Some (g, st)" by fastforce
    then show ?thesis
    proof cases
      case gone
      then have step: "poll_loop (length (c # xs)) polled s = poll_loop (length xs) polled ?d"
        using True Cons.prems(2) by (simp add: tracked_def)
      have "\<not> pollable s c" using gone by (simp add: pollable_def)
      then show ?thesis
        unfolding step using Cons.IH [of ?d rest polled now' later] Cons.prems(1) split gone n
        by (simp add: sel now)
    next
      case unknown
      then have step: "poll_loop (length (c # xs)) polled s = poll_loop (length xs) polled ?k"
        using True Cons.prems(2) by (auto simp: tracked_def group_of_def split: option.splits)
      have "\<not> pollable s c" using unknown by (simp add: pollable_def)
      then show ?thesis
        unfolding step using Cons.IH [of ?k "rest @ [c]" polled now' later] Cons.prems(1) split unknown n
        by (simp add: sel now)
    next
      case (poll g st)
      let ?q = "poll_query g c st ?k"
      have step: "poll_loop (length (c # xs)) polled s = poll_loop (length xs) (polled + 1) ?q"
        using True Cons.prems(2) poll by (auto simp: tracked_def group_of_def split: option.splits)
      have "group_of ?k c = Some (g, st)" and H: "H_Admins \<in> installed ?k"
        using poll Cons.prems(1) by (simp_all add: sel)
      note q = poll_query_trace [OF H this(1)]
      note sel' = same_groups_sel [OF q(3)]
      have p: "pollable s c" using poll by (simp add: pollable_def)
      have "nat (admin_poll_batch s - (polled + 1)) = n" using n by simp
      then show ?thesis
        unfolding step using Cons.IH [of ?q "rest @ [c]" "polled + 1" now' later] H split poll p
        by (simp add: sel sel' now q(1,2,4))
    qed
  qed
qed simp
lemma same_groups_trans: "same_groups s t \<Longrightarrow> same_groups t u \<Longrightarrow> same_groups s u"
  by (simp add: same_groups_def)

lemma poll_loop_groups: "same_groups s t \<Longrightarrow> same_groups s (poll_loop n polled t)"
proof (induction n arbitrary: polled t)
  case (Suc n)
  have queue: "same_groups s (t\<lparr>admin_poll_queue := q\<rparr>)" for q
    using Suc.prems by (simp add: same_groups_def)
  have query: "same_groups s u \<Longrightarrow> same_groups s (poll_query g c st u)" for u g c st
    by (simp add: poll_query_def fetch_group_admins_def same_groups_def)
  show ?case
    using Suc.prems by (auto simp: Let_def split: list.split option.split intro!: Suc.IH query queue)
qed simp

lemma poll_groups: "same_groups s (poll_admin_batch s)"
  unfolding poll_admin_batch_def by (rule poll_loop_groups) (simp add: same_groups_def)

lemma poll_batch_round_robin:
  assumes "H_Admins \<in> installed s"
    and split: "split_batch (pollable s) (nat (admin_poll_batch s)) (admin_poll_queue s) = (now, later)"
  shows "admin_poll_queue s = now @ later \<and>
    length (filter (pollable s) now) \<le> nat (admin_poll_batch s) \<and>
    (later = [] \<or> length (filter (pollable s) now) = nat (admin_poll_batch s)) \<and>
    admin_poll_queue (poll_admin_batch s) = later @ filter (tracked s) now \<and>
    map snd (sent (poll_admin_batch s)) =
      map snd (sent s) @ map (poll_request s) (filter (pollable s) now) \<and>
    events (poll_admin_batch s) = events s"
  using poll_loop_round_robin [OF assms(1), of "admin_poll_queue s" "[]" 0 now later] split
    split_batch_append [OF split] split_batch_count [OF split]
  by (simp add: poll_admin_batch_def)

text \<open>C24: the poll is a bounded round robin. One tick takes from the front of the queue the shortest part
  that contains \<open>admin_poll_batch\<close> groups that can be asked (or all of it), asks exactly those, each once
  and in order, appends the groups of that part that are still tracked to the rear, and drops the
  evicted ones; it emits nothing by itself.\<close>

theorem poll_round_robin:
  assumes "H_Admins \<in> installed s"
    and "split_batch (pollable s) (nat (admin_poll_batch s)) (admin_poll_queue s) = (now, later)"
  shows "admin_poll_queue s = now @ later \<and>
    length (filter (pollable s) now) \<le> nat (admin_poll_batch s) \<and>
    (later = [] \<or> length (filter (pollable s) now) = nat (admin_poll_batch s)) \<and>
    admin_poll_queue (poll_admin_batch s) = later @ filter (tracked s) now \<and>
    map snd (sent (poll_admin_batch s)) =
      map snd (sent s) @ map (poll_request s) (filter (pollable s) now) \<and>
    events (poll_admin_batch s) = events s"
  by (rule poll_batch_round_robin [OF assms])

definition asked_between :: "td_query \<Rightarrow> td \<Rightarrow> td \<Rightarrow> bool" where
  "asked_between q s t \<longleftrightarrow> (\<exists>us vs. map snd (sent t) = map snd (sent s) @ us @ q # vs)"

lemma one_tick:
  assumes H: "H_Admins \<in> installed s" and q: "admin_poll_queue s = xs @ c # ys" and p: "pollable s c"
  shows "asked_between (poll_request s c) s (poll_admin_batch s) \<or>
    (\<exists>xs' ys'. admin_poll_queue (poll_admin_batch s) = xs' @ c # ys' \<and>
       length xs' + nat (admin_poll_batch s) \<le> length xs)"
proof -
  obtain now later where
    split: "split_batch (pollable s) (nat (admin_poll_batch s)) (admin_poll_queue s) = (now, later)"
    by (cases "split_batch (pollable s) (nat (admin_poll_batch s)) (admin_poll_queue s)")
  note poll = poll_batch_round_robin [OF H split]
  show ?thesis
  proof (cases "c \<in> set now")
    case True
    with p have "c \<in> set (filter (pollable s) now)" by simp
    then have "poll_request s c \<in> set (map (poll_request s) (filter (pollable s) now))" by force
    then obtain us vs where "map (poll_request s) (filter (pollable s) now) = us @ poll_request s c # vs"
      by (metis split_list)
    with poll show ?thesis unfolding asked_between_def by metis
  next
    case False
    from q poll have "now @ later = xs @ c # ys" by simp
    with False obtain zs where xs: "xs = now @ zs" and later: "later = zs @ c # ys"
      by (auto simp: append_eq_append_conv2 Cons_eq_append_conv append_eq_Cons_conv)
    with poll have "nat (admin_poll_batch s) = length (filter (pollable s) now)" by simp
    then have "nat (admin_poll_batch s) \<le> length now" by simp
    with poll xs later show ?thesis by auto
  qed
qed

text \<open>C25: the poll starves no group. A tracked group whose chat is known is asked for its administrators
  after at most as many ticks as the groups before it in the queue fill batches.\<close>

theorem poll_fair:
  assumes "H_Admins \<in> installed s" and "admin_poll_queue s = xs @ c # ys" and "pollable s c"
    and "0 < admin_poll_batch s"
  shows "\<exists>k. k * nat (admin_poll_batch s) \<le> length xs \<and>
    asked_between (poll_request s c) ((poll_admin_batch ^^ k) s) ((poll_admin_batch ^^ Suc k) s)"
  using assms
proof (induction "length xs" arbitrary: s xs ys rule: less_induct)
  case less
  from one_tick [OF less.prems(1,2,3)] consider
    (now) "asked_between (poll_request s c) s (poll_admin_batch s)"
    | (later) xs' ys' where "admin_poll_queue (poll_admin_batch s) = xs' @ c # ys'"
        "length xs' + nat (admin_poll_batch s) \<le> length xs" by blast
  then show ?case
  proof cases
    case now
    then show ?thesis by (intro exI [of _ 0]) simp
  next
    case (later xs' ys')
    note same = same_groups_sel [OF poll_groups]
    from later(2) less.prems(4) have "length xs' < length xs" by linarith
    from less.hyps [OF this _ later(1)] less.prems obtain k where
      k: "k * nat (admin_poll_batch s) \<le> length xs'" and
      asked: "asked_between (poll_request s c) ((poll_admin_batch ^^ k) (poll_admin_batch s))
        ((poll_admin_batch ^^ Suc k) (poll_admin_batch s))"
      by (auto simp: same)
    from asked k later(2) show ?thesis
      by (intro exI [of _ "Suc k"]) (simp only: funpow_Suc_right o_apply, simp)
  qed
qed
section \<open>The reply chain\<close>

text \<open>The outstanding queries for the targets of replies, with their depths.\<close>

definition reply_queries :: "td \<Rightarrow> (64 word \<times> nat) set" where
  "reply_queries s = {(i, d). \<exists>mr. continuations s i = Some (K_Reply mr d)}"

text \<open>How many more such queries they may lead to, themselves included.\<close>

definition chain_work :: "td \<Rightarrow> nat" where
  "chain_work s = (\<Sum>(i, d)\<in>reply_queries s. kMaxReplyDepth - d)"

definition one_query :: "nat \<Rightarrow> td \<Rightarrow> td \<Rightarrow> bool" where
  "one_query d s t \<longleftrightarrow> reply_queries t = reply_queries s \<or>
     (d < kMaxReplyDepth \<and> (\<exists>i. (i, d) \<notin> reply_queries s \<and> reply_queries t = insert (i, d) (reply_queries s)))"

lemma reply_queries_act: "act A s t \<Longrightarrow> (\<forall>d. L_Reply d \<notin> A) \<Longrightarrow> reply_queries t = reply_queries s"
proof (induction rule: act.induct)
  case (act_send s k q)
  then have "\<forall>mr d. k \<noteq> Some (K_Reply mr d)" by (auto simp: reply_in_def)
  then show ?case by (auto simp: reply_queries_def send_query_def Let_def split: option.splits if_splits)
qed (auto simp: reply_queries_def same_trace_def)

lemma reply_queries_acts: "acts A s t \<Longrightarrow> (\<forall>d. L_Reply d \<notin> A) \<Longrightarrow> reply_queries t = reply_queries s"
  by (induction rule: acts.induct) (auto dest: reply_queries_act)

lemma reply_queries_emit [simp]: "reply_queries (emit e s) = reply_queries s"
  by (simp add: reply_queries_def)

lemma one_query_resolve: "one_query d s (resolve_reply_message m g d s)"
proof -
  have "one_query d s (send_query q (Some (K_Reply mr d)) s)" if "d < kMaxReplyDepth" for q mr
  proof (cases "continuations s (current_query_id s + 1)")
    case None
    then have "reply_queries (send_query q (Some (K_Reply mr d)) s) =
        insert (current_query_id s + 1, d) (reply_queries s)"
      by (auto simp: reply_queries_def send_query_def Let_def split: if_splits)
    moreover have "(current_query_id s + 1, d) \<notin> reply_queries s" using None by (simp add: reply_queries_def)
    ultimately show ?thesis using that by (auto simp: one_query_def)
  next
    case (Some k)
    then show ?thesis by (simp add: one_query_def reply_queries_def send_query_def Let_def)
  qed
  moreover have "one_query d s s" "one_query d s (emit e s)" for e by (simp_all add: one_query_def)
  ultimately show ?thesis
    by (auto simp: resolve_reply_message_def Let_def split: option.split)
qed

lemma one_query_route:
  assumes "is_private_chat c = is_private_chat (tm_chat_id m)"
  shows "one_query d s (route_message c m d s)"
proof -
  have step: "one_query d s (resolve_reply_message m g d (maybe_download_message_file m g (emit e (forward_origin fo s))))"
    if e: "event_ok (events (forward_origin fo s)) e" "announces (tm_chat_id m) (tm_id m) g e" "event_in (range L_Said) e"
    for g e fo
  proof -
    have "acts (range L_Said) s (maybe_download_message_file m g (emit e (forward_origin fo s)))"
      by (rule acts_message_file [OF acts_emit [OF acts_forward_origin]]) (use e in auto)
    then have "reply_queries (maybe_download_message_file m g (emit e (forward_origin fo s))) = reply_queries s"
      by (rule reply_queries_acts) auto
    with one_query_resolve [of d "maybe_download_message_file m g (emit e (forward_origin fo s))" m g]
    show ?thesis by (simp add: one_query_def)
  qed
  have "one_query d s s" by (simp add: one_query_def)
  then show ?thesis
    using assms unfolding route_message_def handle_message_for_private_chat_def
      handle_message_for_group_chat_def Let_def
    by (auto intro!: step simp: event_ok_def announces_def event_in_def) (simp_all add: build_private_message_def
        build_group_message_def)
qed
lemma one_query_flags: "one_query d s t \<Longrightarrow> reply_queries u = reply_queries t \<Longrightarrow> one_query d s u"
  by (simp add: one_query_def)

lemma one_query_text: "one_query d s t \<Longrightarrow> one_query d s (text_message m t)"
  using reply_queries_acts [OF acts_text [OF acts_refl [of "{}"]], of m t]
  by (auto intro: one_query_flags)

lemma one_query_reply:
  assumes "\<And>r. obj = Some r \<Longrightarrow> tm_chat_id r = mr_reply_to_chat_id mr"
  shows "one_query (Suc d) s (on_reply mr d obj s)"
proof (cases obj)
  case None
  then show ?thesis by (simp add: on_reply_def one_query_def)
next
  case (Some r)
  let ?t = "ensure_message_entities r (mark_reply_resolved (mr_reply_to_chat_id mr) (mr_reply_to_msg_id mr) s)"
  have "acts {} s ?t" by (intro td_acts)
  then have same: "reply_queries ?t = reply_queries s" by (rule reply_queries_acts) simp
  have "one_query (Suc d) ?t (route_message (mr_reply_to_chat_id mr) r (Suc d) ?t)"
    by (rule one_query_route) (simp add: assms [OF Some])
  then show ?thesis using same Some by (simp add: on_reply_def Let_def one_query_def)
qed

lemma reply_queries_flags [simp]: "reply_queries (set_flags au st sa cl s) = reply_queries s"
  by (simp add: reply_queries_def)

lemma reply_queries_plain: "\<forall>mr d. k \<noteq> Some (K_Reply mr d) \<Longrightarrow> reply_queries (send_query q k s) = reply_queries s"
  by (auto simp: reply_queries_def send_query_def Let_def split: option.splits if_splits)

lemma reply_queries_authorization: "reply_queries (on_authorization_state_update a s) = reply_queries s"
proof (cases "a \<in> {A_Ready, A_LoggingOut, A_Closed}")
  case True
  then show ?thesis
    by (cases "first_alarm s") (auto simp: authorization_flags authorization_ready Let_def
        arm_admin_alarm_def reply_queries_plain simp del: on_authorization_state_update.simps)
next
  case False
  from reply_queries_acts [OF authorization_acts [OF False, of "{}"]] show ?thesis by simp
qed

lemma reply_queries_update:
  assumes "\<And>f ref. pending_message_file s f = Some ref \<Longrightarrow> ref_announced ref (events s)"
    and "\<forall>m. u \<noteq> U_NewMessage m"
  shows "reply_queries (process_update u s) = reply_queries s"
proof (cases "\<exists>a. u = U_AuthorizationState a")
  case True
  then show ?thesis
    by (auto simp: reply_queries_authorization simp del: on_authorization_state_update.simps)
next
  case False
  have "acts (range L_List) s (process_update u s)"
    by (rule acts_update) (use False assms in auto)
  then show ?thesis by (rule reply_queries_acts) auto
qed

lemma one_query_update:
  assumes "\<And>f ref. pending_message_file s f = Some ref \<Longrightarrow> ref_announced ref (events s)"
  shows "one_query 0 s (process_update u s)"
proof (cases "\<exists>m. u = U_NewMessage m")
  case True
  then show ?thesis by (auto simp: handle_new_message_def intro!: one_query_text one_query_route)
next
  case False
  with reply_queries_update [where u = u, OF assms] show ?thesis by (simp add: one_query_def)
qed

lemma reply_queries_alarm: "reply_queries (on_admin_alarm s) = reply_queries s"
  using reply_queries_acts [OF acts_poll [OF acts_refl [of "{}"]], of s]
  by (auto simp: on_admin_alarm_def arm_admin_alarm_def reply_queries_plain)

lemma one_query_resume:
  assumes "\<And>mr d m. k = K_Reply mr d \<Longrightarrow> obj = O_Message m \<Longrightarrow> tm_chat_id m = mr_reply_to_chat_id mr"
  shows "one_query (case k of K_Reply mr d \<Rightarrow> Suc d | _ \<Rightarrow> 0) s (resume k obj s)"
proof -
  consider (reply) mr d where "k = K_Reply mr d" | (edited) "k = K_Edited" | (alarm) "k = K_Alarm"
    | (other) "\<forall>mr d. k \<noteq> K_Reply mr d" "k \<noteq> K_Edited" "k \<noteq> K_Alarm" by blast
  then show ?thesis
  proof cases
    case (reply mr d)
    with assms show ?thesis
      by (auto simp: resume_def message_of_def intro!: one_query_reply split: td_object.splits)
  next
    case edited
    have "one_query 0 s (on_edited ob s)" for ob
      unfolding on_edited_def by (cases ob) (auto intro: one_query_route, simp add: one_query_def)
    with edited show ?thesis by (simp add: resume_def)
  next
    case alarm
    then show ?thesis by (simp add: resume_def one_query_def reply_queries_alarm)
  next
    case other
    have "acts (range L_List \<union> range L_Said) s (resume k obj s)" by (rule acts_resume) (use other in auto)
    then have "reply_queries (resume k obj s) = reply_queries s" by (rule reply_queries_acts) auto
    then show ?thesis by (simp add: one_query_def)
  qed
qed
lemma no_message_resume:
  assumes none: "\<And>m. obj \<noteq> O_Message m"
  shows "reply_queries (resume k obj s) = reply_queries s"
proof -
  have "message_of obj = None" using none by (cases obj) (auto simp: message_of_def)
  moreover have "reply_queries (resume k obj s) = reply_queries s"
    if "\<forall>mr d. k \<noteq> K_Reply mr d" "k \<noteq> K_Edited" "k \<noteq> K_Alarm"
  proof -
    have "acts (range L_List \<union> range L_Said) s (resume k obj s)" by (rule acts_resume) (use that in auto)
    then show ?thesis by (rule reply_queries_acts) auto
  qed
  moreover have "resume K_Alarm obj s = on_admin_alarm s" by (simp add: resume_def)
  ultimately show ?thesis
    by (cases k) (auto simp: resume_def on_reply_def on_edited_def reply_queries_alarm)
qed

lemma reply_queries_consume:
  "continuations s i = Some k \<Longrightarrow> reply_queries (consume i s) =
     (case k of K_Reply mr d \<Rightarrow> reply_queries s - {(i, d)} | _ \<Rightarrow> reply_queries s)"
  by (auto simp: reply_queries_def split: continuation.splits if_splits)

lemma finite_reply_queries: "ids_inv s \<Longrightarrow> finite (reply_queries s)"
proof -
  assume "ids_inv s"
  then have "{i. continuations s i \<noteq> None} \<subseteq> fst ` set (sent s)" by (auto simp: ids_inv_def)
  then have fin: "finite {i. continuations s i \<noteq> None}" by (rule finite_subset) simp
  have "reply_queries s \<subseteq> (\<lambda>i. (i, case continuations s i of Some (K_Reply mr d) \<Rightarrow> d | _ \<Rightarrow> 0)) `
      {i. continuations s i \<noteq> None}"
    by (fastforce simp: reply_queries_def)
  with fin show ?thesis by (blast intro: finite_subset)
qed

lemma chain_work_one:
  assumes "one_query d s t" and "finite (reply_queries s)"
  shows "chain_work t \<le> chain_work s + (kMaxReplyDepth - d)"
  using assms by (auto simp: one_query_def chain_work_def)

lemma chain_work_consume:
  assumes "continuations s i = Some (K_Reply mr d)" and "finite (reply_queries s)"
  shows "chain_work (consume i s) + (kMaxReplyDepth - d) = chain_work s"
proof -
  have "(i, d) \<in> reply_queries s" using assms(1) by (simp add: reply_queries_def)
  then have "sum g (reply_queries s) = g (i, d) + sum g (reply_queries s - {(i, d)})" for g :: "_ \<Rightarrow> nat"
    by (rule sum.remove [OF assms(2)])
  from this [of "\<lambda>(i, d). kMaxReplyDepth - d"] reply_queries_consume [OF assms(1)] show ?thesis
    by (simp add: chain_work_def)
qed

text \<open>An update: at most one query, of depth 0.\<close>

lemma chain_work_update:
  assumes trace: "trace_inv s" and ids: "ids_inv s"
  shows "chain_work (process_response 0 (Some obj) s) \<le> chain_work s + kMaxReplyDepth \<and>
    ((\<forall>m. obj \<noteq> O_Update (U_NewMessage m)) \<longrightarrow> chain_work (process_response 0 (Some obj) s) = chain_work s)"
proof -
  let ?t = "process_response 0 (Some obj) s"
  have files: "\<And>f ref. pending_message_file s f = Some ref \<Longrightarrow> ref_announced ref (events s)"
    using trace by (auto simp: trace_inv_def files_announced_def)
  have "one_query 0 s ?t"
    using one_query_update [OF files] by (auto simp: process_response_def one_query_def split: td_object.split)
  from chain_work_one [OF this finite_reply_queries [OF ids]] have "chain_work ?t \<le> chain_work s + kMaxReplyDepth"
    by simp
  moreover have "reply_queries ?t = reply_queries s" if none: "\<forall>m. obj \<noteq> O_Update (U_NewMessage m)"
  proof (cases obj)
    case (O_Update u)
    with none reply_queries_update [where u = u, OF files] show ?thesis by (simp add: process_response_def)
  qed (simp_all add: process_response_def)
  ultimately show ?thesis by (simp add: chain_work_def)
qed

text \<open>An answer: the query of the continuation \<open>k\<close> is gone, and at most one deeper is sent.\<close>

lemma chain_work_answer:
  assumes trace: "trace_inv s" and ids: "ids_inv s" and h: "honest s i (Some obj)" and i: "i \<noteq> 0"
    and k: "continuations s i = Some k"
  shows "(\<exists>mr d. k = K_Reply mr d) \<and> chain_work (process_response i (Some obj) s) < chain_work s \<or>
    (\<forall>mr d. k \<noteq> K_Reply mr d) \<and> chain_work (process_response i (Some obj) s) \<le> chain_work s + kMaxReplyDepth \<and>
    ((\<forall>m. obj \<noteq> O_Message m) \<longrightarrow> chain_work (process_response i (Some obj) s) = chain_work s)"
proof -
  let ?t = "process_response i (Some obj) s"
  have t: "?t = resume k obj (consume i s)" using i k by (simp add: process_response_def consume_def)
  let ?d = "case k of K_Reply mr d \<Rightarrow> Suc d | _ \<Rightarrow> 0"
  have "one_query ?d (consume i s) ?t"
    unfolding t by (rule one_query_resume) (use h i k in \<open>auto simp: honest_def\<close>)
  from chain_work_one [OF this finite_reply_queries [OF ids_consume [OF ids]]]
  have le: "chain_work ?t \<le> chain_work (consume i s) + (kMaxReplyDepth - ?d)" .
  have free: "chain_work ?t = chain_work (consume i s)" if "\<forall>m. obj \<noteq> O_Message m"
    unfolding t chain_work_def using that by (simp add: no_message_resume)
  show ?thesis
  proof (cases "\<exists>mr d. k = K_Reply mr d")
    case True
    then obtain mr d where r: "k = K_Reply mr d" by blast
    have "d < kMaxReplyDepth" using trace k r by (auto simp: trace_inv_def replies_announced_def)
    with chain_work_consume [OF k [unfolded r] finite_reply_queries [OF ids]] le r show ?thesis by auto
  next
    case False
    then have "chain_work (consume i s) = chain_work s"
      using reply_queries_consume [OF k] by (cases k) (auto simp: chain_work_def)
    with le free False show ?thesis by auto
  qed
qed

text \<open>C26: the walk up a reply chain ends. Every outstanding query for the target of a reply has a depth
  below 128. Whatever answers such a query, the remaining work of all chains strictly decreases (at
  most one further query is sent, one deeper). Any other response adds at most 128, and one that
  carries no message adds nothing: so one message received causes at most 128 queries.\<close>

theorem reply_chain_ends:
  assumes r: "reach td_start td_step s" and h: "honest s i (Some obj)"
  defines "t \<equiv> process_response i (Some obj) s"
  shows "(\<forall>(j, d) \<in> reply_queries t. d < kMaxReplyDepth) \<and>
    (i \<noteq> 0 \<and> continuations s i = Some (K_Reply mr d) \<longrightarrow> chain_work t < chain_work s) \<and>
    chain_work t \<le> chain_work s + kMaxReplyDepth \<and>
    ((\<forall>m. obj \<noteq> O_Message m \<and> obj \<noteq> O_Update (U_NewMessage m)) \<longrightarrow> chain_work t \<le> chain_work s)"
proof -
  from heart_reach [OF r] have trace: "trace_inv s" and ids: "ids_inv s" by (simp_all add: heart_inv_def)
  have "trace_inv t" unfolding t_def by (rule trace_inv_step [OF td_response [OF h] trace])
  then have depth: "\<forall>(j, d) \<in> reply_queries t. d < kMaxReplyDepth"
    by (auto simp: trace_inv_def replies_announced_def reply_queries_def)
  show ?thesis
  proof (cases "i = 0")
    case True
    with depth chain_work_update [OF trace ids, of obj] show ?thesis by (auto simp: t_def)
  next
    case False
    show ?thesis
    proof (cases "continuations s i")
      case None
      with False have "t = s" by (simp add: t_def process_response_def)
      with depth None show ?thesis by simp
    next
      case (Some k)
      from chain_work_answer [OF trace ids h False this] depth Some show ?thesis by (auto simp: t_def)
    qed
  qed
qed

section \<open>Examples\<close>

lemma polling_facts:
  "H_Admins \<in> installed polling_client" "admin_poll_queue polling_client = [] @ - 100 # []"
  "admin_poll_batch polling_client = 4" "pollable polling_client (- 100)"
  "poll_request polling_client (- 100) = Q_GetSupergroupMembers 5"
  by (simp_all add: client_eval client_eval3 pollable_def tracked_def group_of_def poll_request_def)

theorem poll_round_robin_witness:
  "admin_poll_queue (poll_admin_batch polling_client) = [- 100] \<and>
   map snd (sent (poll_admin_batch polling_client)) =
     map snd (sent polling_client) @ [Q_GetSupergroupMembers 5]"
proof -
  have "split_batch (pollable polling_client) (nat (admin_poll_batch polling_client))
      (admin_poll_queue polling_client) = ([- 100], [])"
    by (simp add: polling_facts eval_nat_numeral)
  from poll_round_robin [OF polling_facts(1) this] polling_facts(4,5) show ?thesis
    by (simp add: pollable_def)
qed

theorem poll_fair_witness:
  "\<exists>k. k = 0 \<and> asked_between (Q_GetSupergroupMembers 5)
     ((poll_admin_batch ^^ k) polling_client) ((poll_admin_batch ^^ Suc k) polling_client)"
proof -
  have "0 < admin_poll_batch polling_client" by (simp add: polling_facts)
  from poll_fair [OF polling_facts(1,2,4) this] show ?thesis
    by (simp add: polling_facts)
qed

theorem reply_chain_ends_witness: "chain_work replied_client < chain_work replying_client"
proof -
  have "honest replying_client 2 (Some (O_Message first_message))"
    by (simp add: honest_def replying_continuation first_message_def sample_message_def)
  from reply_chain_ends [OF replying_reach this] replying_continuation show ?thesis
    by (simp add: replied_client_def)
qed
end
