(* ===== verification/Tg_Drain.thy ===== *)
theory Tg_Drain
  imports Tg_App Thread_Pool Td_Client_Props
begin

text \<open>
  src/tgloggerd/TgLoggerd.cpp: the threads together. The event loop raises the client's events and
  its handlers post jobs; the workers of \<open>files_\<close> store files and post the links to \<open>serial_\<close>, whose
  one worker runs all that concerns the order of rows; at the end \<open>start\<close> shuts down \<open>files_\<close> and
  then \<open>serial_\<close>. The two pools are those of \<open>Thread_Pool\<close>: a poster is a thread, the event loop
  is poster 0 of both and worker \<open>i\<close> of \<open>files_\<close> is poster \<open>Suc i\<close> of \<open>serial_\<close>.
\<close>

section \<open>Passages of a pool\<close>

text \<open>What a thread of the pool does when it runs, and the passages of \<open>shutdown\<close>.\<close>

inductive pool_run :: "'j tpool \<Rightarrow> 'j tpool \<Rightarrow> bool" where
  run_lock: "workers p i \<in> {W_Loop, W_Woken} \<Longrightarrow> pool_run p (worker_section i p)"
| run_signal: "workers p i = W_Popped j \<Longrightarrow> wakes_poster p w \<Longrightarrow> pool_run p (worker_notify i j w p)"
| run_post: "posters p k \<in> {Q_Post j, Q_Woken j} \<Longrightarrow> wakes_worker p w \<Longrightarrow> pool_run p (post_section k j w p)"

inductive pool_stop :: "'j tpool \<Rightarrow> 'j tpool \<Rightarrow> bool" where
  stop_1: "stop p = S_No \<Longrightarrow> pool_stop p (stop_set p)"
| stop_2: "stop p = S_Set \<Longrightarrow> pool_stop p (stop_notify_workers p)"
| stop_3: "stop p = S_Half \<Longrightarrow> pool_stop p (stop_notify_posters p)"
| stop_4: "stop p = S_Join \<Longrightarrow> joinable p \<Longrightarrow> pool_stop p (p\<lparr>stop := S_Joined\<rparr>)"

text \<open>Spurious wake-ups.\<close>

inductive pool_spurious :: "'j tpool \<Rightarrow> 'j tpool \<Rightarrow> bool" where
  spurious_worker: "workers p i = W_Wait \<Longrightarrow> pool_spurious p (worker_at i W_Woken p)"
| spurious_poster: "posters p k = Q_Wait j \<Longrightarrow> pool_spurious p (poster_at k (Q_Woken j) p)"

lemma pool_passages:
  "pool_run p p' \<Longrightarrow> tpool_step p p'" "pool_stop p p' \<Longrightarrow> tpool_step p p'"
  "pool_spurious p p' \<Longrightarrow> tpool_step p p'"
  unfolding tpool_step_def
  by (auto elim!: pool_run.cases pool_stop.cases pool_spurious.cases
      intro: worker_step.intros client_step.intros)

section \<open>The threads of the application\<close>

datatype loop_pc =
    L_Idle              \<comment> \<open>in \<open>tdlib_->loop\<close>, outside a handler\<close>
  | L_Handler td_event  \<comment> \<open>in the handler of an event\<close>
  | L_Left              \<comment> \<open>the loop is left\<close>

text \<open>Where the worker of a file job is: storing, posting the link, or at the end of the job.\<close>

datatype link_pc = K_Store | K_Link | K_End

record app =
  files :: "file_job tpool"
  serial :: "serial_job tpool"
  loop_at :: loop_pc
  links :: "nat \<Rightarrow> link_pc"
  raised :: "td_event list"           \<comment> \<open>the events raised so far, for the specification\<close>
  stored :: "(file_job \<times> int) list"   \<comment> \<open>the files stored and their ids, for the specification\<close>

definition app_start :: "64 word \<Rightarrow> 64 word \<Rightarrow> app" where
  "app_start file_threads queue_max =
     \<lparr>files = ThreadPool file_threads queue_max, serial = ThreadPool 1 queue_max, loop_at = L_Idle,
      links = (\<lambda>_. K_Store), raised = [], stored = []\<rparr>"

text \<open>The handler of an event calls \<open>post\<close> of one pool, or of none.\<close>

definition call_post :: "nat \<Rightarrow> 'j option \<Rightarrow> 'j tpool \<Rightarrow> 'j tpool" where
  "call_post k x p = (case x of None \<Rightarrow> p | Some j \<Rightarrow> poster_at k (Q_Post j) p)"

definition dispatch :: "td_event \<Rightarrow> app \<Rightarrow> app" where
  "dispatch e s = s\<lparr>loop_at := L_Handler e, raised := raised s @ [e],
     files := call_post 0 (file_of e) (files s), serial := call_post 0 (serial_of e) (serial s)\<rparr>"

definition post_link :: "nat \<Rightarrow> file_job \<Rightarrow> int \<Rightarrow> app \<Rightarrow> app" where
  "post_link i f fid s = s\<lparr>links := (links s)(i := K_Link), stored := stored s @ [(f, fid)],
     serial := call_post (Suc i) (Some (link_of f fid)) (serial s)\<rparr>"

definition end_file_job :: "nat \<Rightarrow> file_job \<Rightarrow> app \<Rightarrow> app" where
  "end_file_job i f s = s\<lparr>links := (links s)(i := K_Store), files := worker_job i f (files s)\<rparr>"

text \<open>What only the outside decides: an event arrives, or the loop is to be left.\<close>

inductive outer_step :: "app \<Rightarrow> app \<Rightarrow> bool" where
  raise: "loop_at s = L_Idle \<Longrightarrow> outer_step s (dispatch e s)"
| leave: "loop_at s = L_Idle \<Longrightarrow> outer_step s (s\<lparr>loop_at := L_Left\<rparr>)"

text \<open>What the threads do.\<close>

inductive run_step :: "app \<Rightarrow> app \<Rightarrow> bool" where
  handled: "loop_at s = L_Handler e \<Longrightarrow> posters (files s) 0 = Q_Out \<Longrightarrow> posters (serial s) 0 = Q_Out \<Longrightarrow>
    run_step s (s\<lparr>loop_at := L_Idle\<rparr>)"
| files_run: "pool_run (files s) p \<Longrightarrow> run_step s (s\<lparr>files := p\<rparr>)"
| serial_run: "pool_run (serial s) p \<Longrightarrow> run_step s (s\<lparr>serial := p\<rparr>)"
| serial_job: "workers (serial s) i = W_Run j \<Longrightarrow> run_step s (s\<lparr>serial := worker_job i j (serial s)\<rparr>)"
| not_stored: "workers (files s) i = W_Run f \<Longrightarrow> links s i = K_Store \<Longrightarrow>
    run_step s (s\<lparr>links := (links s)(i := K_End)\<rparr>)"
| was_stored: "workers (files s) i = W_Run f \<Longrightarrow> links s i = K_Store \<Longrightarrow> run_step s (post_link i f fid s)"
| link_posted: "links s i = K_Link \<Longrightarrow> posters (serial s) (Suc i) = Q_Out \<Longrightarrow>
    run_step s (s\<lparr>links := (links s)(i := K_End)\<rparr>)"
| file_job_done: "workers (files s) i = W_Run f \<Longrightarrow> links s i = K_End \<Longrightarrow> run_step s (end_file_job i f s)"
| files_stop: "loop_at s = L_Left \<Longrightarrow> pool_stop (files s) p \<Longrightarrow> run_step s (s\<lparr>files := p\<rparr>)"
| serial_stop: "stop (files s) = S_Joined \<Longrightarrow> pool_stop (serial s) p \<Longrightarrow> run_step s (s\<lparr>serial := p\<rparr>)"

inductive wake_step :: "app \<Rightarrow> app \<Rightarrow> bool" where
  files_wake: "pool_spurious (files s) p \<Longrightarrow> wake_step s (s\<lparr>files := p\<rparr>)"
| serial_wake: "pool_spurious (serial s) p \<Longrightarrow> wake_step s (s\<lparr>serial := p\<rparr>)"

definition app_step :: "app \<Rightarrow> app \<Rightarrow> bool" where
  "app_step s t \<longleftrightarrow> outer_step s t \<or> run_step s t \<or> wake_step s t"

definition app_init :: "app \<Rightarrow> bool" where
  "app_init s \<longleftrightarrow> (\<exists>n c. s = app_start n c)"

section \<open>What a passage does to a pool\<close>

text \<open>Jobs a thread still holds in \<open>post\<close>.\<close>

fun waiting :: "'j poster_pc \<Rightarrow> 'j list" where
  "waiting Q_Out = []"
| "waiting (Q_Post j) = [j]"
| "waiting (Q_Wait j) = [j]"
| "waiting (Q_Woken j) = [j]"

lemma waiting_Nil [simp]: "waiting p = [] \<longleftrightarrow> p = Q_Out"
  by (cases p) simp_all

definition steady :: "'j tpool \<Rightarrow> 'j tpool \<Rightarrow> bool" where
  "steady p p' \<longleftrightarrow> accepted p' = accepted p \<and> (\<forall>k. waiting (posters p' k) = waiting (posters p k))"

definition takes :: "nat \<Rightarrow> 'j \<Rightarrow> 'j tpool \<Rightarrow> 'j tpool \<Rightarrow> bool" where
  "takes k j p p' \<longleftrightarrow> waiting (posters p k) = [j] \<and> accepted p' = accepted p @ [j] \<and>
     posters p' = (posters p)(k := Q_Out)"

text \<open>Nobody posts to a pool that is shutting down.\<close>

definition all_out :: "'j tpool \<Rightarrow> bool" where
  "all_out p \<longleftrightarrow> (\<forall>k. posters p k = Q_Out)"

lemma notify_poster_waiting [simp]: "waiting (posters (notify_poster w p) k) = waiting (posters p k)"
  by (simp add: notify_poster_def poster_at_def split: option.split poster_pc.split)

lemma pool_run_effect:
  assumes "pool_run p p'" and "draining p \<Longrightarrow> all_out p"
  shows "steady p p' \<or> (\<exists>k j. takes k j p p')"
  using assms(1)
proof cases
  case (run_lock i)
  then show ?thesis
    by (auto simp: steady_def worker_section_def worker_at_def split: list.split)
next
  case (run_signal i j w)
  then show ?thesis by (simp add: steady_def worker_notify_def worker_at_def)
next
  case (run_post k j w)
  then have held: "waiting (posters p k) = [j]" by auto
  then have "posters p k \<noteq> Q_Out" by auto
  then have "\<not> draining p" using assms(2) by (auto simp: all_out_def)
  with run_post held show ?thesis
    by (auto simp: steady_def takes_def post_section_def poster_at_def)
qed

lemma pool_stop_steady: "pool_stop p p' \<Longrightarrow> steady p p'"
  by (auto elim!: pool_stop.cases simp: steady_def stop_set_def stop_notify_workers_def stop_notify_posters_def
      split: poster_pc.split)

lemma pool_spurious_steady: "pool_spurious p p' \<Longrightarrow> steady p p'"
  by (auto elim!: pool_spurious.cases simp: steady_def worker_at_def poster_at_def)

lemma worker_job_steady [simp]: "steady p (worker_job i j p)"
  by (simp add: steady_def worker_job_def worker_at_def)

text \<open>Jobs being run go on; capacity and number of threads stay.\<close>

definition runs_on :: "'j tpool \<Rightarrow> 'j tpool \<Rightarrow> bool" where
  "runs_on p p' \<longleftrightarrow> (\<forall>i j. workers p i = W_Run j \<longrightarrow> workers p' i = W_Run j) \<and>
     n_threads p' = n_threads p \<and> cap p' = cap p"

lemma pool_run_on: "pool_run p p' \<Longrightarrow> runs_on p p' \<and> stop p' = stop p"
  by (auto elim!: pool_run.cases simp: runs_on_def worker_section_def worker_notify_def worker_at_def
      post_section_def poster_at_def wakes_worker_def split: list.split option.splits)

lemma pool_stop_on: "pool_stop p p' \<Longrightarrow> runs_on p p'"
  by (auto elim!: pool_stop.cases simp: runs_on_def stop_set_def stop_notify_workers_def stop_notify_posters_def)

lemma pool_spurious_on: "pool_spurious p p' \<Longrightarrow> runs_on p p' \<and> stop p' = stop p"
  by (auto elim!: pool_spurious.cases simp: runs_on_def worker_at_def poster_at_def)

lemma takes_posters: "takes k j p p' \<Longrightarrow> posters p' i = (if i = k then Q_Out else posters p i)"
  by (simp add: takes_def)

lemma steady_out: "steady p p' \<Longrightarrow> posters p' k = Q_Out \<longleftrightarrow> posters p k = Q_Out"
  unfolding steady_def by (metis waiting_Nil)

lemma effect_out:
  "steady p p' \<or> (\<exists>k j. takes k j p p') \<Longrightarrow> posters p i = Q_Out \<Longrightarrow> posters p' i = Q_Out"
  by (auto simp: steady_out takes_posters)

section \<open>Control\<close>

text \<open>The loop posts only in handlers, a worker only in its job; \<open>files_\<close> stops after the loop, \<open>serial_\<close>
  after \<open>files_\<close>.\<close>

definition control :: "app \<Rightarrow> bool" where
  "control s \<longleftrightarrow> (
     (\<forall>e. loop_at s \<noteq> L_Handler e) \<longrightarrow> posters (files s) 0 = Q_Out \<and> posters (serial s) 0 = Q_Out)"

definition control_links :: "app \<Rightarrow> bool" where
  "control_links s \<longleftrightarrow> (\<forall>i. posters (files s) (Suc i) = Q_Out) \<and>
     (\<forall>i. posters (serial s) (Suc i) \<noteq> Q_Out \<longrightarrow> links s i = K_Link) \<and>
     (\<forall>i. links s i \<noteq> K_Store \<longrightarrow> (\<exists>f. workers (files s) i = W_Run f))"

definition control_stop :: "app \<Rightarrow> bool" where
  "control_stop s \<longleftrightarrow> (stop (files s) \<noteq> S_No \<longrightarrow> loop_at s = L_Left) \<and>
     (stop (serial s) \<noteq> S_No \<longrightarrow> stop (files s) = S_Joined) \<and> n_threads (serial s) = 1"

definition app_inv :: "app \<Rightarrow> bool" where
  "app_inv s \<longleftrightarrow> control s \<and> control_links s \<and> control_stop s \<and>
     reach tpool_start tpool_step (files s) \<and> reach tpool_start tpool_step (serial s)"

lemma reach_draining: "reach tpool_start tpool_step p \<Longrightarrow> draining p \<longleftrightarrow> stop p \<noteq> S_No"
  by (drule tpool_reach_inv) (simp add: tpool_inv_def stop_ok_def)

lemma joined_exit: "reach tpool_start tpool_step p \<Longrightarrow> stop p = S_Joined \<Longrightarrow> workers p i \<noteq> W_Run j"
  using tpool_reach_inv [of p] fits_lt [of "n_threads p" "workers p" i]
  unfolding tpool_inv_def stop_ok_def threads_ok_def joinable_def by (cases "workers p i") auto

lemma all_outI: "posters p 0 = Q_Out \<Longrightarrow> (\<And>i. posters p (Suc i) = Q_Out) \<Longrightarrow> all_out p"
  unfolding all_out_def by (metis nat.exhaust)

lemma left_out: "app_inv s \<Longrightarrow> loop_at s = L_Left \<Longrightarrow> all_out (files s)"
  by (auto simp: app_inv_def control_def control_links_def intro!: all_outI)

lemma joined_out:
  assumes inv: "app_inv s" and joined: "stop (files s) = S_Joined"
  shows "all_out (serial s)"
proof -
  from inv joined have none: "\<nexists>f. workers (files s) i = W_Run f" for i
    using joined_exit [of "files s"] by (auto simp: app_inv_def)
  with inv have "links s i = K_Store" for i unfolding app_inv_def control_links_def by blast
  with inv have "posters (serial s) (Suc i) = Q_Out" for i
    unfolding app_inv_def control_links_def by (metis link_pc.distinct(1))
  moreover have "posters (serial s) 0 = Q_Out"
    using inv joined by (auto simp: app_inv_def control_def control_stop_def)
  ultimately show ?thesis by (intro all_outI) simp_all
qed

lemma draining_out:
  assumes inv: "app_inv s"
  shows "draining (files s) \<Longrightarrow> all_out (files s)" and "draining (serial s) \<Longrightarrow> all_out (serial s)"
  using left_out [OF inv] joined_out [OF inv] inv reach_draining [of "files s"] reach_draining [of "serial s"]
  by (auto simp: app_inv_def control_stop_def)

lemma app_inv_init: "app_init s \<Longrightarrow> app_inv s"
proof -
  assume "app_init s"
  then obtain n c where s: "s = app_start n c" by (auto simp: app_init_def)
  have "reach tpool_start tpool_step (files s)" "reach tpool_start tpool_step (serial s)"
    unfolding s app_start_def tpool_start_def by (simp_all, (rule reach_init, blast)+)
  moreover have "control s \<and> control_links s \<and> control_stop s"
    by (simp add: s app_start_def control_def control_links_def control_stop_def ThreadPool_def Let_def)
  ultimately show ?thesis by (simp add: app_inv_def)
qed

text \<open>A passage of one pool that leaves the rest of the application alone.\<close>

lemma files_passage:
  assumes inv: "app_inv s" and step: "tpool_step (files s) p" and "runs_on (files s) p"
    and "steady (files s) p \<or> (\<exists>k j. takes k j (files s) p)"
    and "stop p = stop (files s) \<or> loop_at s = L_Left \<and> stop (files s) \<noteq> S_Joined"
  shows "app_inv (s\<lparr>files := p\<rparr>)"
proof -
  note out = effect_out [OF assms(4)]
  have "reach tpool_start tpool_step p" using inv step by (auto simp: app_inv_def intro: reach_step)
  moreover have "control (s\<lparr>files := p\<rparr>)" using inv out by (auto simp: app_inv_def control_def)
  moreover have "control_links (s\<lparr>files := p\<rparr>)"
    using inv out assms(3) unfolding app_inv_def control_links_def runs_on_def by simp blast
  moreover have "control_stop (s\<lparr>files := p\<rparr>)"
    using inv assms(5) by (auto simp: app_inv_def control_stop_def)
  ultimately show ?thesis using inv by (simp add: app_inv_def)
qed

lemma serial_passage:
  assumes inv: "app_inv s" and step: "tpool_step (serial s) p" and "n_threads p = n_threads (serial s)"
    and "steady (serial s) p \<or> (\<exists>k j. takes k j (serial s) p)"
    and "stop p = stop (serial s) \<or> stop (files s) = S_Joined"
  shows "app_inv (s\<lparr>serial := p\<rparr>)"
proof -
  note out = effect_out [OF assms(4)]
  have "reach tpool_start tpool_step p" using inv step by (auto simp: app_inv_def intro: reach_step)
  moreover have "control (s\<lparr>serial := p\<rparr>)" using inv out by (auto simp: app_inv_def control_def)
  moreover have "control_links (s\<lparr>serial := p\<rparr>)"
    using inv out unfolding app_inv_def control_links_def by simp blast
  moreover have "control_stop (s\<lparr>serial := p\<rparr>)"
    using inv assms(3,5) by (auto simp: app_inv_def control_stop_def)
  ultimately show ?thesis using inv by (simp add: app_inv_def)
qed

lemma app_inv_wake: "wake_step s t \<Longrightarrow> app_inv s \<Longrightarrow> app_inv t"
proof (induction rule: wake_step.induct)
  case (files_wake s p)
  then show ?case
    using pool_passages(3) [of "files s" p] pool_spurious_on [of "files s" p] pool_spurious_steady [of "files s" p]
    by (intro files_passage) auto
next
  case (serial_wake s p)
  then show ?case
    using pool_passages(3) [of "serial s" p] pool_spurious_on [of "serial s" p] pool_spurious_steady [of "serial s" p]
    by (intro serial_passage) (auto simp: runs_on_def)
qed

lemma call_post_sel [simp]:
  "stop (call_post k x p) = stop p" "workers (call_post k x p) = workers p" "n_threads (call_post k x p) = n_threads p"
  "accepted (call_post k x p) = accepted p" "q (call_post k x p) = q p" "cap (call_post k x p) = cap p"
  "finished (call_post k x p) = finished p" "started (call_post k x p) = started p"
  "draining (call_post k x p) = draining p"
  "posters (call_post k x p) = (case x of None \<Rightarrow> posters p | Some j \<Rightarrow> (posters p)(k := Q_Post j))"
  by (simp_all add: call_post_def poster_at_def split: option.split)

lemma call_post_reach:
  assumes "reach tpool_start tpool_step p" and "posters p k = Q_Out"
  shows "reach tpool_start tpool_step (call_post k x p)"
proof (cases x)
  case (Some j)
  have "reach tpool_start tpool_step (poster_at k (Q_Post j) p)"
    using assms(1) by (rule reach_step) (rule tpool_client, rule post_call, rule assms(2))
  with Some show ?thesis by (simp add: call_post_def)
qed (simp add: call_post_def assms(1))

lemma app_inv_outer: "outer_step s t \<Longrightarrow> app_inv s \<Longrightarrow> app_inv t"
proof (induction rule: outer_step.induct)
  case (raise s e)
  then have out: "posters (files s) 0 = Q_Out" "posters (serial s) 0 = Q_Out" by (auto simp: app_inv_def control_def)
  have "posters (files (dispatch e s)) (Suc i) = posters (files s) (Suc i)"
    "posters (serial (dispatch e s)) (Suc i) = posters (serial s) (Suc i)"
    "links (dispatch e s) = links s" "workers (files (dispatch e s)) = workers (files s)" for i
    by (simp_all add: dispatch_def split: option.split)
  with raise have "control_links (dispatch e s)" unfolding app_inv_def control_links_def by simp
  moreover from raise have "control_stop (dispatch e s)" "control (dispatch e s)"
    by (auto simp: app_inv_def control_stop_def control_def dispatch_def)
  moreover have "reach tpool_start tpool_step (files (dispatch e s))" "reach tpool_start tpool_step (serial (dispatch e s))"
    using raise out by (auto simp: app_inv_def dispatch_def intro: call_post_reach)
  ultimately show ?case by (simp add: app_inv_def)
next
  case (leave s)
  then show ?case by (auto simp: app_inv_def control_def control_links_def control_stop_def)
qed

lemma pool_stop_not_joined: "pool_stop p p' \<Longrightarrow> stop p \<noteq> S_Joined"
  by (auto elim: pool_stop.cases)

lemma app_inv_run: "run_step s t \<Longrightarrow> app_inv s \<Longrightarrow> app_inv t"
proof (induction rule: run_step.induct)
  case (handled s e)
  then show ?case by (auto simp: app_inv_def control_def control_links_def control_stop_def)
next
  case (files_run s p)
  then show ?case
    using pool_passages(1) pool_run_on pool_run_effect draining_out(1) by (intro files_passage) blast+
next
  case (serial_run s p)
  then have "steady (serial s) p \<or> (\<exists>k j. takes k j (serial s) p)"
    by (intro pool_run_effect draining_out(2))
  with serial_run show ?case
    using pool_passages(1) [of "serial s" p] pool_run_on [of "serial s" p]
    by (intro serial_passage) (simp_all add: runs_on_def)
next
  case (serial_job s i j)
  then have "tpool_step (serial s) (worker_job i j (serial s))" by (intro tpool_worker worker_done)
  with serial_job show ?case
    by (intro serial_passage) (simp_all, simp_all add: worker_job_def worker_at_def)
next
  case (not_stored s i f)
  then show ?case by (auto simp: app_inv_def control_def control_links_def control_stop_def)
next
  case (was_stored s i f fid)
  then have "posters (serial s) (Suc i) = Q_Out" by (auto simp: app_inv_def control_links_def)
  with was_stored have "reach tpool_start tpool_step (serial (post_link i f fid s))"
    by (auto simp: post_link_def app_inv_def intro: call_post_reach)
  with was_stored show ?case
    by (auto simp: app_inv_def control_def control_links_def control_stop_def post_link_def)
next
  case (link_posted s i)
  then show ?case by (auto simp: app_inv_def control_def control_links_def control_stop_def)
next
  case (file_job_done s i f)
  then have out: "posters (serial s) (Suc i) = Q_Out" by (auto simp: app_inv_def control_links_def)
  have "tpool_step (files s) (worker_job i f (files s))" using file_job_done by (intro tpool_worker worker_done)
  with file_job_done have "reach tpool_start tpool_step (worker_job i f (files s))"
    by (auto simp: app_inv_def intro: reach_step)
  with file_job_done out show ?case
    by (auto simp: app_inv_def control_def control_links_def control_stop_def end_file_job_def worker_job_def
        worker_at_def)
next
  case (files_stop s p)
  then show ?case
    using pool_passages(2) pool_stop_on pool_stop_steady pool_stop_not_joined by (intro files_passage) blast+
next
  case (serial_stop s p)
  then show ?case
    using pool_passages(2) [of "serial s" p] pool_stop_on [of "serial s" p] pool_stop_steady [of "serial s" p]
    by (intro serial_passage) (simp_all add: runs_on_def)
qed

lemma app_inv_reach: "reach app_init app_step s \<Longrightarrow> app_inv s"
  by (erule reach_invariant)
    (auto simp: app_step_def intro: app_inv_init app_inv_outer app_inv_run app_inv_wake)

section \<open>What has been handed over\<close>

fun is_link :: "serial_job \<Rightarrow> bool" where
  "is_link (J_Profile_Photo u f) = True"
| "is_link (J_Group_Photo g f) = True"
| "is_link (J_Message_File c m g f) = True"
| "is_link _ = False"

lemma link_of_link [simp]: "is_link (link_of f fid)"
  by (cases f) simp_all

lemma serial_of_no_link: "serial_of e = Some j \<Longrightarrow> \<not> is_link j"
  by (cases e) auto

text \<open>The jobs posted for a list of events.\<close>

definition posts :: "(td_event \<Rightarrow> 'j option) \<Rightarrow> td_event list \<Rightarrow> 'j list" where
  "posts f es = concat (map (\<lambda>e. case f e of None \<Rightarrow> [] | Some j \<Rightarrow> [j]) es)"

lemma posts_simps [simp]:
  "posts f [] = []" "posts f (es @ [e]) = posts f es @ (case f e of None \<Rightarrow> [] | Some j \<Rightarrow> [j])"
  by (simp_all add: posts_def)

lemma posts_mem: "j \<in> set (posts f es) \<longleftrightarrow> (\<exists>e\<in>set es. f e = Some j)"
  by (force simp: posts_def split: option.splits)

definition posting_links :: "nat \<Rightarrow> (nat \<Rightarrow> serial_job poster_pc) \<Rightarrow> serial_job multiset" where
  "posting_links n ps = (\<Sum>i<n. mset (waiting (ps (Suc i))))"

definition owners :: "app \<Rightarrow> bool" where
  "owners s \<longleftrightarrow> (\<forall>k j. waiting (posters (serial s) k) = [j] \<longrightarrow> (is_link j \<longleftrightarrow> k \<noteq> 0))"

definition handed_events :: "app \<Rightarrow> bool" where
  "handed_events s \<longleftrightarrow>
     filter (\<lambda>j. \<not> is_link j) (accepted (serial s)) @ waiting (posters (serial s) 0) = posts serial_of (raised s) \<and>
     accepted (files s) @ waiting (posters (files s) 0) = posts file_of (raised s)"

definition handed_links :: "app \<Rightarrow> bool" where
  "handed_links s \<longleftrightarrow>
     mset (filter is_link (accepted (serial s))) + posting_links (n_threads (files s)) (posters (serial s)) =
     mset (map (\<lambda>(f, fid). link_of f fid) (stored s))"

definition handed :: "app \<Rightarrow> bool" where
  "handed s \<longleftrightarrow> owners s \<and> handed_events s \<and> handed_links s"

lemma posting_links_upd:
  "i < n \<Longrightarrow> posting_links n (ps(Suc i := x)) + mset (waiting (ps (Suc i))) = posting_links n ps + mset (waiting x)"
proof -
  assume "i < n"
  moreover have "(\<lambda>k. (ps(Suc i := x)) (Suc k)) = (\<lambda>k. ps (Suc k))(i := x)" by auto
  ultimately show ?thesis
    unfolding posting_links_def using sum_upd [of i n "\<lambda>p. mset (waiting p)" "\<lambda>k. ps (Suc k)" x] by (simp add: fun_eq_iff)
qed

lemma posting_links_0 [simp]: "posting_links n (ps(0 := x)) = posting_links n ps"
  by (simp add: posting_links_def)

lemma posting_links_cong:
  "(\<And>k. waiting (ps' k) = waiting (ps k)) \<Longrightarrow> posting_links n ps' = posting_links n ps"
  by (simp add: posting_links_def)

text \<open>Only the workers of \<open>files_\<close> post links.\<close>

lemma link_poster:
  assumes "app_inv s" and "posters (serial s) (Suc i) \<noteq> Q_Out"
  shows "i < n_threads (files s)"
proof -
  have "links s i \<noteq> K_Store" using assms by (simp add: app_inv_def control_links_def)
  then obtain f where "workers (files s) i = W_Run f"
    using assms(1) unfolding app_inv_def control_links_def by blast
  moreover have "fits (n_threads (files s)) (workers (files s))"
    using assms(1) tpool_reach_inv [of "files s"] by (simp add: app_inv_def tpool_inv_def threads_ok_def)
  ultimately show ?thesis by (auto intro: fits_lt)
qed

lemma handed_serial:
  assumes inv: "app_inv s" and "handed s" and eff: "steady (serial s) p \<or> (\<exists>k j. takes k j (serial s) p)"
  shows "handed (s\<lparr>serial := p\<rparr>)"
  using eff
proof (elim disjE exE)
  assume "steady (serial s) p"
  with assms(2) posting_links_cong [of "posters p" "posters (serial s)"] show ?thesis
    by (simp add: handed_def owners_def handed_events_def handed_links_def steady_def)
next
  fix k j assume t: "takes k j (serial s) p"
  then have out: "posters (serial s) k \<noteq> Q_Out" by (auto simp: takes_def)
  from t assms(2) have own: "is_link j \<longleftrightarrow> k \<noteq> 0" by (simp add: handed_def owners_def takes_def)
  show ?thesis
  proof (cases k)
    case 0
    with t own assms(2) show ?thesis
      by (auto simp: handed_def owners_def handed_events_def handed_links_def takes_def)
  next
    case (Suc i)
    from link_poster [OF inv] out Suc have "i < n_threads (files s)" by simp
    from posting_links_upd [OF this, of "posters (serial s)" Q_Out] t Suc
    have one: "posting_links (n_threads (files s)) (posters (serial s)) = posting_links (n_threads (files s)) (posters p) + {#j#}"
      by (simp add: takes_def)
    from t own Suc assms(2) have "owners (s\<lparr>serial := p\<rparr>)" "handed_events (s\<lparr>serial := p\<rparr>)"
      by (auto simp: handed_def owners_def handed_events_def takes_def)
    moreover from t own Suc assms(2) one have "handed_links (s\<lparr>serial := p\<rparr>)"
      by (simp add: handed_def handed_links_def takes_def)
    ultimately show ?thesis by (simp add: handed_def)
  qed
qed

lemma handed_files:
  assumes "handed s" and "steady (files s) p \<or> (\<exists>k j. takes k j (files s) p)"
    and "\<And>i. posters (files s) (Suc i) = Q_Out" and "n_threads p = n_threads (files s)"
  shows "handed (s\<lparr>files := p\<rparr>)"
  using assms(2)
proof (elim disjE exE)
  assume "steady (files s) p"
  with assms show ?thesis by (simp add: handed_def owners_def handed_events_def handed_links_def steady_def)
next
  fix k j assume t: "takes k j (files s) p"
  then have "posters (files s) k \<noteq> Q_Out" by (auto simp: takes_def)
  with assms(3) have "k = 0" by (metis nat.exhaust)
  with t assms show ?thesis
    by (simp add: handed_def owners_def handed_events_def handed_links_def takes_def)
qed

lemma handed_frame [simp]:
  "handed (s\<lparr>loop_at := l\<rparr>) = handed s" "handed (s\<lparr>links := ls\<rparr>) = handed s"
  by (simp_all add: handed_def owners_def handed_events_def handed_links_def)

lemma handed_init: "app_init s \<Longrightarrow> handed s"
  by (auto simp: app_init_def app_start_def ThreadPool_def Let_def handed_def owners_def handed_events_def
      handed_links_def posting_links_def)

lemma handed_outer: "outer_step s t \<Longrightarrow> app_inv s \<Longrightarrow> handed s \<Longrightarrow> handed t"
proof (induction rule: outer_step.induct)
  case (raise s e)
  then have out: "posters (files s) 0 = Q_Out" "posters (serial s) 0 = Q_Out" by (auto simp: app_inv_def control_def)
  have "owners (dispatch e s)"
    using raise(3) serial_of_no_link [of e]
    by (auto simp: handed_def owners_def dispatch_def split: option.splits)
  moreover have "handed_events (dispatch e s)"
    using raise(3) out by (simp add: handed_def handed_events_def dispatch_def split: option.split)
  moreover have "handed_links (dispatch e s)"
    using raise(3) by (simp add: handed_def handed_links_def dispatch_def split: option.split)
  ultimately show ?case by (simp add: handed_def)
qed simp

lemma handed_wake: "wake_step s t \<Longrightarrow> app_inv s \<Longrightarrow> handed s \<Longrightarrow> handed t"
proof (induction rule: wake_step.induct)
  case (files_wake s p)
  then show ?case
    using pool_spurious_on [of "files s" p] pool_spurious_steady [of "files s" p]
    by (intro handed_files) (auto simp: app_inv_def control_links_def runs_on_def)
next
  case (serial_wake s p)
  then show ?case by (intro handed_serial disjI1 pool_spurious_steady)
qed

lemma handed_run: "run_step s t \<Longrightarrow> app_inv s \<Longrightarrow> handed s \<Longrightarrow> handed t"
proof (induction rule: run_step.induct)
  case (files_run s p)
  then have "steady (files s) p \<or> (\<exists>k j. takes k j (files s) p)" by (intro pool_run_effect draining_out(1))
  with files_run pool_run_on [of "files s" p] show ?case
    by (intro handed_files) (simp_all add: app_inv_def control_links_def runs_on_def)
next
  case (serial_run s p)
  then show ?case by (intro handed_serial pool_run_effect draining_out(2))
next
  case (serial_job s i j)
  then show ?case by (intro handed_serial disjI1) simp_all
next
  case (was_stored s i f fid)
  then have out: "posters (serial s) (Suc i) = Q_Out" by (auto simp: app_inv_def control_links_def)
  have "fits (n_threads (files s)) (workers (files s))"
    using was_stored(3) tpool_reach_inv [of "files s"] by (simp add: app_inv_def tpool_inv_def threads_ok_def)
  with was_stored(1) have "i < n_threads (files s)" by (auto intro: fits_lt)
  from posting_links_upd [OF this, of "posters (serial s)" "Q_Post (link_of f fid)"] out was_stored(4)
  show ?case by (simp add: handed_def owners_def handed_events_def handed_links_def post_link_def)
next
  case (file_job_done s i f)
  have "handed (s\<lparr>files := worker_job i f (files s)\<rparr>)"
  proof (intro handed_files disjI1)
    show "posters (files s) (Suc k) = Q_Out" for k using file_job_done by (simp add: app_inv_def control_links_def)
    show "n_threads (worker_job i f (files s)) = n_threads (files s)" by (simp add: worker_job_def worker_at_def)
  qed (simp_all add: file_job_done)
  then show ?case by (simp add: end_file_job_def handed_def owners_def handed_events_def handed_links_def)
next
  case (files_stop s p)
  then show ?case
    using pool_stop_on [of "files s" p] pool_stop_steady [of "files s" p]
    by (intro handed_files) (auto simp: app_inv_def control_links_def runs_on_def)
next
  case (serial_stop s p)
  then show ?case by (intro handed_serial disjI1 pool_stop_steady)
qed simp_all

lemma handed_reach: "reach app_init app_step s \<Longrightarrow> app_inv s \<and> handed s"
  by (erule reach_invariant)
    (auto simp: app_step_def intro: app_inv_init app_inv_outer app_inv_run app_inv_wake
      handed_init handed_outer handed_run handed_wake)

section \<open>Links after rows\<close>

text \<open>A row of a message: chat, message id, and whether it is in the group table. The report of a deletion
  writes no row of its own.\<close>

type_synonym message_row = "int \<times> int \<times> bool"

fun writes_row :: "serial_job \<Rightarrow> message_row option" where
  "writes_row (J_Private pm) =
     (if pm_is_deleted pm then None else Some (pm_chat_id pm, pm_message_id pm, False))"
| "writes_row (J_Group_Message gm) =
     (if gm_is_deleted gm then None else Some (gm_chat_id gm, gm_message_id gm, True))"
| "writes_row _ = None"

fun links_row :: "serial_job \<Rightarrow> message_row option" where
  "links_row (J_Reply mr) = Some (mr_chat_id mr, mr_message_id mr, mr_is_group mr)"
| "links_row (J_Message_File chat_id message_id is_group fid) = Some (chat_id, message_id, is_group)"
| "links_row _ = None"

fun file_row :: "file_job \<Rightarrow> message_row option" where
  "file_row (F_Message_File m) = Some (mf_chat_id m, mf_message_id m, mf_is_group m)"
| "file_row _ = None"

lemma links_row_link [simp]: "links_row (link_of f fid) = file_row f"
  by (cases f) simp_all

text \<open>The rows some job of a list writes.\<close>

definition written :: "serial_job list \<Rightarrow> message_row option \<Rightarrow> bool" where
  "written js r \<longleftrightarrow> r = None \<or> r \<in> writes_row ` set js"

definition in_order :: "serial_job list \<Rightarrow> bool" where
  "in_order js \<longleftrightarrow> (\<forall>n<length js. written (take n js) (links_row (js ! n)))"

lemma written_append: "written js r \<Longrightarrow> written (js @ ks) r"
  by (auto simp: written_def)

lemma in_order_snoc [simp]: "in_order (js @ [j]) \<longleftrightarrow> in_order js \<and> written js (links_row j)"
  by (auto simp: in_order_def nth_append less_Suc_eq)

definition rows_ok :: "app \<Rightarrow> bool" where
  "rows_ok s \<longleftrightarrow> in_order (accepted (serial s)) \<and>
     (\<forall>k. \<forall>j\<in>set (waiting (posters (serial s) k)). written (accepted (serial s)) (links_row j)) \<and>
     (\<forall>f\<in>set (accepted (files s)). written (accepted (serial s)) (file_row f)) \<and>
     (\<forall>f\<in>set (waiting (posters (files s) 0)). written (accepted (serial s)) (file_row f))"

text \<open>A running job has been accepted.\<close>

lemma running_accepted:
  assumes "reach tpool_start tpool_step p" and "workers p i = W_Run f"
  shows "f \<in> set (accepted p)"
proof -
  have inv: "threads_ok p" "queue_ok p" "jobs_ok p"
    using tpool_reach_inv [OF assms(1)] by (simp_all add: tpool_inv_def)
  then have "i < n_threads p" using assms(2) by (auto simp: threads_ok_def intro: fits_lt)
  from inflight_upd [OF this, of "workers p" W_Loop] assms(2)
  have "inflight (n_threads p) (workers p) = inflight (n_threads p) ((workers p)(i := W_Loop)) + {#f#}" by simp
  then have "f \<in># mset (started p)" using inv(3) by (simp add: jobs_ok_def)
  with inv(2) show ?thesis by (simp add: queue_ok_def)
qed

lemma rows_serial:
  assumes "rows_ok s" and "steady (serial s) p \<or> (\<exists>k j. takes k j (serial s) p)"
  shows "rows_ok (s\<lparr>serial := p\<rparr>)"
  using assms(2)
proof (elim disjE exE)
  fix k j assume t: "takes k j (serial s) p"
  have less: "set (waiting (posters p i)) \<subseteq> set (waiting (posters (serial s) i))" for i
    using t by (simp add: takes_def)
  have acc: "accepted p = accepted (serial s) @ [j]" using t by (simp add: takes_def)
  have "written (accepted (serial s)) (links_row j)"
    using assms(1) t unfolding rows_ok_def takes_def by (metis list.set_intros(1))
  with assms(1) have "in_order (accepted p)" by (simp add: acc rows_ok_def)
  with assms(1) less show ?thesis
    unfolding rows_ok_def by (simp add: acc) (blast intro: written_append)
qed (use assms(1) in \<open>simp add: rows_ok_def steady_def\<close>)

lemma rows_files:
  assumes "rows_ok s" and "steady (files s) p \<or> (\<exists>k j. takes k j (files s) p)"
    and "\<And>i. posters (files s) (Suc i) = Q_Out"
  shows "rows_ok (s\<lparr>files := p\<rparr>)"
  using assms(2)
proof (elim disjE exE)
  fix k j assume t: "takes k j (files s) p"
  then have "posters (files s) k \<noteq> Q_Out" by (auto simp: takes_def)
  with assms(3) have "k = 0" by (metis nat.exhaust)
  with t assms(1) show ?thesis by (auto simp: rows_ok_def takes_def)
qed (use assms(1) in \<open>simp add: rows_ok_def steady_def\<close>)

lemma announced_written:
  assumes "announced c m g es" and sub: "set (posts serial_of es) \<subseteq> set js"
  shows "written js (Some (c, m, g))"
proof -
  obtain e where "e \<in> set es" and ann: "announces c m g e" using assms(1) by (auto simp: announced_def)
  from ann obtain j where "serial_of e = Some j" and j: "writes_row j = Some (c, m, g)"
    by (cases e) (auto simp: announces_def)
  then have "j \<in> set (posts serial_of es)" using \<open>e \<in> set es\<close> by (auto simp: posts_mem)
  with sub j show ?thesis unfolding written_def by (metis image_eqI subsetD)
qed

lemma event_rows:
  assumes "event_ok es e" and "set (posts serial_of es) \<subseteq> set js"
  shows "\<forall>j. serial_of e = Some j \<longrightarrow> written js (links_row j)"
    and "\<forall>f. file_of e = Some f \<longrightarrow> written js (file_row f)"
  using assms(1) announced_written [OF _ assms(2)]
  by (cases e; auto simp: event_ok_def reply_announced_def written_def)+

lemma rows_frame [simp]:
  "rows_ok (s\<lparr>loop_at := l\<rparr>) = rows_ok s" "rows_ok (s\<lparr>links := ls\<rparr>) = rows_ok s"
  by (simp_all add: rows_ok_def)

lemma rows_init: "app_init s \<Longrightarrow> rows_ok s"
  by (auto simp: app_init_def app_start_def ThreadPool_def Let_def rows_ok_def in_order_def)

lemma rows_raise:
  assumes inv: "app_inv s" "handed s" and ok: "rows_ok s" and idle: "loop_at s = L_Idle"
    and ev: "event_ok (raised s) e"
  shows "rows_ok (dispatch e s)"
proof -
  have "posters (files s) 0 = Q_Out" "posters (serial s) 0 = Q_Out"
    using inv(1) idle by (auto simp: app_inv_def control_def)
  then have "posts serial_of (raised s) = filter (\<lambda>j. \<not> is_link j) (accepted (serial s))"
    using inv(2) by (simp add: handed_def handed_events_def)
  then have "set (posts serial_of (raised s)) \<subseteq> set (accepted (serial s))" by auto
  from event_rows [OF ev this] ok show ?thesis
    by (cases "serial_of e"; cases "file_of e") (simp_all add: rows_ok_def dispatch_def)
qed

lemma rows_wake: "wake_step s t \<Longrightarrow> app_inv s \<Longrightarrow> rows_ok s \<Longrightarrow> rows_ok t"
proof (induction rule: wake_step.induct)
  case (files_wake s p)
  then show ?case
    using pool_spurious_steady [of "files s" p]
    by (intro rows_files) (auto simp: app_inv_def control_links_def)
next
  case (serial_wake s p)
  then show ?case by (intro rows_serial disjI1 pool_spurious_steady)
qed

lemma rows_run: "run_step s t \<Longrightarrow> app_inv s \<Longrightarrow> rows_ok s \<Longrightarrow> rows_ok t"
proof (induction rule: run_step.induct)
  case (files_run s p)
  then have "steady (files s) p \<or> (\<exists>k j. takes k j (files s) p)" by (intro pool_run_effect draining_out(1))
  with files_run show ?case by (intro rows_files) (simp_all add: app_inv_def control_links_def)
next
  case (serial_run s p)
  then show ?case by (intro rows_serial pool_run_effect draining_out(2))
next
  case (serial_job s i j)
  then show ?case by (intro rows_serial disjI1) simp_all
next
  case (was_stored s i f fid)
  then have "f \<in> set (accepted (files s))" by (intro running_accepted) (simp_all add: app_inv_def)
  with was_stored(4) have "written (accepted (serial s)) (file_row f)" by (simp add: rows_ok_def)
  with was_stored(4) show ?case by (simp add: rows_ok_def post_link_def)
next
  case (file_job_done s i f)
  then show ?case by (simp add: rows_ok_def end_file_job_def worker_job_def worker_at_def)
next
  case (files_stop s p)
  then show ?case
    using pool_stop_steady [of "files s" p] by (intro rows_files) (auto simp: app_inv_def control_links_def)
next
  case (serial_stop s p)
  then show ?case by (intro rows_serial disjI1 pool_stop_steady)
qed simp_all

lemma raised_same: "run_step s t \<Longrightarrow> raised t = raised s" "wake_step s t \<Longrightarrow> raised t = raised s"
  by (auto elim!: run_step.cases wake_step.cases simp: post_link_def end_file_job_def)

lemma rows_reach: "reach app_init app_step s \<Longrightarrow> events_ok (raised s) \<Longrightarrow> rows_ok s"
proof (induction rule: reach.induct)
  case (reach_init s)
  then show ?case by (simp add: rows_init)
next
  case (reach_step s t)
  note inv = handed_reach [OF reach_step.hyps(1)]
  from reach_step.hyps(2) consider "outer_step s t" | "run_step s t" | "wake_step s t"
    unfolding app_step_def by blast
  then show ?case
  proof cases
    case 1
    then show ?thesis
    proof cases
      case (raise e)
      with reach_step.prems have "events_ok (raised s)" "event_ok (raised s) e" by (simp_all add: dispatch_def)
      with raise reach_step.IH inv show ?thesis by (simp add: rows_raise)
    next
      case leave
      with reach_step show ?thesis by simp
    qed
  next
    case 2
    with reach_step inv raised_same(1) show ?thesis by (simp add: rows_run)
  next
    case 3
    with reach_step inv raised_same(2) show ?thesis by (simp add: rows_wake)
  qed
qed

lemma events_ok_prefix: "events_ok (es @ fs) \<Longrightarrow> events_ok es"
  by (induction fs rule: rev_induct) (simp_all flip: append_assoc)

section \<open>Sample runs\<close>

text \<open>A whole handler for an event of \<open>serial_\<close>, when there is room and no worker waits.\<close>

definition absorb :: "td_event \<Rightarrow> app \<Rightarrow> app" where
  "absorb e s = s\<lparr>loop_at := L_Idle, raised := raised s @ [e], serial := (case serial_of e of None \<Rightarrow> serial s
     | Some j \<Rightarrow> (serial s)\<lparr>q := q (serial s) @ [j], accepted := accepted (serial s) @ [j]\<rparr>)\<rparr>"

lemma app_run: "reach app_init app_step s \<Longrightarrow> run_step s t \<Longrightarrow> reach app_init app_step t"
  by (erule reach_step) (simp add: app_step_def)

lemma absorb_reach:
  assumes r: "reach app_init app_step s" and idle: "loop_at s = L_Idle" and "file_of e = None"
    and nw: "nowhere W_Wait (workers (serial s))" and "\<not> draining (serial s)"
    and "length (q (serial s)) < unat (cap (serial s))"
  shows "reach app_init app_step (absorb e s)"
proof -
  have out: "posters (files s) 0 = Q_Out" "posters (serial s) 0 = Q_Out"
    using handed_reach [OF r] idle by (auto simp: app_inv_def control_def)
  have 1: "reach app_init app_step (dispatch e s)"
    by (rule reach_step [OF r]) (simp add: app_step_def raise idle)
  show ?thesis
  proof (cases "serial_of e")
    case None
    have "reach app_init app_step ((dispatch e s)\<lparr>loop_at := L_Idle\<rparr>)"
      by (rule app_run [OF 1], rule handled)
        (simp_all add: dispatch_def call_post_def assms(3) None out)
    moreover have "(dispatch e s)\<lparr>loop_at := L_Idle\<rparr> = absorb e s"
      by (intro app.equality) (simp_all add: dispatch_def call_post_def absorb_def assms(3) None)
    ultimately show ?thesis by simp
  next
    case (Some j)
    let ?p = "post_section 0 j None (serial (dispatch e s))"
    have "pool_run (serial (dispatch e s)) ?p"
      by (rule run_post)
        (use Some nw in \<open>simp_all add: dispatch_def call_post_def poster_at_def wakes_worker_def nowhere_def\<close>)
    then have 2: "reach app_init app_step ((dispatch e s)\<lparr>serial := ?p\<rparr>)" by (intro app_run [OF 1] serial_run)
    have p: "?p = (serial s)\<lparr>q := q (serial s) @ [j], accepted := accepted (serial s) @ [j]\<rparr>"
      using Some assms(5,6) out
      by (intro tpool.equality) (simp_all add: dispatch_def call_post_def post_section_def poster_at_def fun_upd_idem)
    have "reach app_init app_step ((dispatch e s)\<lparr>serial := ?p, loop_at := L_Idle\<rparr>)"
      by (rule app_run [OF 2], rule handled) (simp_all add: p, simp_all add: dispatch_def call_post_def assms(3) out)
    moreover have "(dispatch e s)\<lparr>serial := ?p, loop_at := L_Idle\<rparr> = absorb e s"
      unfolding p by (intro app.equality) (simp_all add: dispatch_def call_post_def absorb_def assms(3) Some)
    ultimately show ?thesis by simp
  qed
qed

text \<open>The shutdown of a pool with one worker and nothing to do.\<close>

definition ending :: "'j tpool \<Rightarrow> 'j tpool" where
  "ending p = worker_section 0 (stop_notify_posters (stop_notify_workers (stop_set p)))"

definition idle_pool :: "'j tpool \<Rightarrow> bool" where
  "idle_pool p \<longleftrightarrow> stop p = S_No \<and> n_threads p = 1 \<and> workers p 0 = W_Loop \<and> q p = []"

lemma ending_joinable: "idle_pool p \<Longrightarrow> joinable (ending p) \<and> stop (ending p) = S_Join"
  by (simp add: idle_pool_def ending_def joinable_def worker_section_def worker_at_def stop_set_def
      stop_notify_workers_def stop_notify_posters_def)

lemmas stop_defs = stop_set_def stop_notify_workers_def stop_notify_posters_def

lemma files_end:
  assumes r: "reach app_init app_step s" and left: "loop_at s = L_Left" and idle: "idle_pool (files s)"
  shows "reach app_init app_step (s\<lparr>files := (ending (files s))\<lparr>stop := S_Joined\<rparr>\<rparr>)"
proof -
  have "reach app_init app_step (s\<lparr>files := stop_set (files s)\<rparr>)"
    by (rule app_run [OF r], rule files_stop [OF left], rule stop_1) (use idle in \<open>simp add: idle_pool_def\<close>)
  then have "reach app_init app_step (s\<lparr>files := stop_notify_workers (stop_set (files s))\<rparr>)"
    using app_run [OF _ files_stop [OF _ stop_2]] left by (fastforce simp: stop_set_def)
  then have "reach app_init app_step (s\<lparr>files := stop_notify_posters (stop_notify_workers (stop_set (files s)))\<rparr>)"
    using app_run [OF _ files_stop [OF _ stop_3]] left by (fastforce simp: stop_notify_workers_def)
  then have "reach app_init app_step (s\<lparr>files := ending (files s)\<rparr>)"
    using app_run [OF _ files_run [OF run_lock [where i = 0]]] idle by (fastforce simp: stop_defs ending_def idle_pool_def)
  from app_run [OF this files_stop [OF _ stop_4]] left ending_joinable [OF idle] show ?thesis by simp
qed

lemma serial_end:
  assumes r: "reach app_init app_step s" and joined: "stop (files s) = S_Joined" and idle: "idle_pool (serial s)"
  shows "reach app_init app_step (s\<lparr>serial := (ending (serial s))\<lparr>stop := S_Joined\<rparr>\<rparr>)"
proof -
  have "reach app_init app_step (s\<lparr>serial := stop_set (serial s)\<rparr>)"
    by (rule app_run [OF r], rule serial_stop [OF joined], rule stop_1) (use idle in \<open>simp add: idle_pool_def\<close>)
  then have "reach app_init app_step (s\<lparr>serial := stop_notify_workers (stop_set (serial s))\<rparr>)"
    using app_run [OF _ serial_stop [OF _ stop_2]] joined by (fastforce simp: stop_set_def)
  then have "reach app_init app_step (s\<lparr>serial := stop_notify_posters (stop_notify_workers (stop_set (serial s)))\<rparr>)"
    using app_run [OF _ serial_stop [OF _ stop_3]] joined by (fastforce simp: stop_notify_workers_def)
  then have "reach app_init app_step (s\<lparr>serial := ending (serial s)\<rparr>)"
    using app_run [OF _ serial_run [OF run_lock [where i = 0]]] idle by (fastforce simp: stop_defs ending_def idle_pool_def)
  from app_run [OF this serial_stop [OF _ stop_4]] joined ending_joinable [OF idle] show ?thesis by simp
qed

text \<open>One worker of \<open>serial_\<close> takes the only job and runs it.\<close>

lemma serial_one:
  assumes r: "reach app_init app_step s" and "workers (serial s) 0 = W_Loop" and "q (serial s) = [j]"
    and "all_out (serial s)"
  shows "reach app_init app_step
    (s\<lparr>serial := (serial s)\<lparr>q := [], started := started (serial s) @ [j], finished := finished (serial s) @ [j]\<rparr>\<rparr>)"
proof -
  have 1: "reach app_init app_step (s\<lparr>serial := worker_section 0 (serial s)\<rparr>)"
    by (rule app_run [OF r], rule serial_run, rule run_lock) (simp add: assms(2))
  let ?p = "worker_notify 0 j None (worker_section 0 (serial s))"
  have "pool_run (worker_section 0 (serial s)) ?p"
    by (rule run_signal) (use assms(4) in \<open>simp_all add: worker_section_def assms(3) worker_at_def wakes_poster_def all_out_def\<close>)
  then have "reach app_init app_step (s\<lparr>serial := ?p\<rparr>)" using app_run [OF 1 serial_run] by simp
  then have "reach app_init app_step (s\<lparr>serial := worker_job 0 j ?p\<rparr>)"
    using app_run [OF _ serial_job [where i = 0 and j = j]] by (fastforce simp: worker_notify_def worker_at_def)
  moreover have "worker_job 0 j ?p =
      (serial s)\<lparr>q := [], started := started (serial s) @ [j], finished := finished (serial s) @ [j]\<rparr>"
    using assms(2) by (simp add: worker_job_def worker_notify_def worker_section_def worker_at_def assms(3) fun_upd_idem)
  ultimately show ?thesis by simp
qed

text \<open>An event, its job, and the shutdown.\<close>

definition one_reply :: MessageReply where
  "one_reply = \<lparr>mr_chat_id = 7, mr_message_id = 2, mr_reply_to_chat_id = 7, mr_reply_to_msg_id = 1, mr_is_group = False\<rparr>"

definition fresh_app :: app where
  "fresh_app = app_start 1 10"

definition served_app :: app where
  "served_app = (absorb (E_Reply one_reply) fresh_app)\<lparr>
     serial := (serial fresh_app)\<lparr>accepted := [J_Reply one_reply], started := [J_Reply one_reply],
       finished := [J_Reply one_reply]\<rparr>, loop_at := L_Left\<rparr>"

definition drained_app :: app where
  "drained_app = served_app\<lparr>files := (ending (files served_app))\<lparr>stop := S_Joined\<rparr>,
     serial := (ending (serial served_app))\<lparr>stop := S_Joined\<rparr>\<rparr>"

lemma fresh_reach: "reach app_init app_step fresh_app"
  by (rule reach_init) (auto simp: app_init_def fresh_app_def)

lemmas fresh_defs = fresh_app_def app_start_def ThreadPool_def Let_def

lemma served_reach: "reach app_init app_step served_app"
proof -
  have 1: "reach app_init app_step (absorb (E_Reply one_reply) fresh_app)"
    by (rule absorb_reach [OF fresh_reach]) (simp_all add: fresh_defs nowhere_def)
  have 2: "reach app_init app_step ((absorb (E_Reply one_reply) fresh_app)
      \<lparr>serial := (serial fresh_app)\<lparr>accepted := [J_Reply one_reply], started := [J_Reply one_reply],
       finished := [J_Reply one_reply]\<rparr>\<rparr>)"
    using serial_one [OF 1, of "J_Reply one_reply"] by (simp add: absorb_def fresh_defs all_out_def)
  have "outer_step ((absorb (E_Reply one_reply) fresh_app)
      \<lparr>serial := (serial fresh_app)\<lparr>accepted := [J_Reply one_reply], started := [J_Reply one_reply],
       finished := [J_Reply one_reply]\<rparr>\<rparr>) served_app"
    unfolding served_app_def using leave [of "(absorb (E_Reply one_reply) fresh_app)
      \<lparr>serial := (serial fresh_app)\<lparr>accepted := [J_Reply one_reply], started := [J_Reply one_reply],
       finished := [J_Reply one_reply]\<rparr>\<rparr>"] by (simp add: absorb_def)
  with reach_step [OF 2] show ?thesis by (simp add: app_step_def)
qed

lemma drained_reach: "reach app_init app_step drained_app"
proof -
  have "idle_pool (files served_app)" "idle_pool (serial served_app)" "loop_at served_app = L_Left"
    by (simp_all add: served_app_def absorb_def idle_pool_def fresh_defs)
  with files_end [OF served_reach] serial_end show ?thesis by (fastforce simp: drained_app_def)
qed

section \<open>Properties\<close>

lemma all_jobs_run:
  assumes r: "reach app_init app_step s" and joined: "stop (serial s) = S_Joined"
  shows "filter (\<lambda>j. \<not> is_link j) (finished (serial s)) = posts serial_of (raised s) \<and>
    mset (filter is_link (finished (serial s))) = mset (map (\<lambda>(f, fid). link_of f fid) (stored s)) \<and>
    mset (finished (files s)) = mset (posts file_of (raised s)) \<and> q (serial s) = [] \<and> q (files s) = []"
proof -
  have inv: "app_inv s" "handed s" using handed_reach [OF r] by simp_all
  then have pools: "tpool_inv (files s)" "tpool_inv (serial s)" and joined_files: "stop (files s) = S_Joined"
    using joined by (auto simp: app_inv_def control_stop_def intro: tpool_reach_inv)
  have out: "all_out (files s)" "all_out (serial s)"
    using draining_out [OF inv(1)] pools joined joined_files by (simp_all add: tpool_inv_def stop_ok_def)
  have drained: "q p = [] \<and> inflight (n_threads p) (workers p) = {#} \<and> workers p 0 = W_Exit"
    if "tpool_inv p" "stop p = S_Joined" for p :: "'a tpool"
  proof -
    have join: "joinable p" using that by (simp add: tpool_inv_def stop_ok_def)
    then have "workers p 0 = W_Exit" using that(1) by (simp add: joinable_def tpool_inv_def threads_ok_def)
    with join that(1) show ?thesis
      by (auto simp: inflight_def joinable_def tpool_inv_def stop_ok_def dest: nowhereD)
  qed
  have serial: "finished (serial s) = accepted (serial s)" "q (serial s) = []"
    using drained [OF pools(2) joined] pools(2) inv(1)
    by (auto simp: tpool_inv_def queue_ok_def jobs_ok_def app_inv_def control_stop_def)
  have files: "mset (finished (files s)) = mset (accepted (files s))" "q (files s) = []"
    using drained [OF pools(1) joined_files] pools(1) by (auto simp: tpool_inv_def queue_ok_def jobs_ok_def)
  from inv(2) out have ev: "filter (\<lambda>j. \<not> is_link j) (accepted (serial s)) = posts serial_of (raised s)"
    "accepted (files s) = posts file_of (raised s)"
    "mset (filter is_link (accepted (serial s))) = mset (map (\<lambda>(f, fid). link_of f fid) (stored s))"
    by (auto simp: handed_def handed_events_def handed_links_def all_out_def posting_links_def)
  with serial files show ?thesis by simp
qed

text \<open>C6: nothing is lost between the loop and the database. In every reachable state the jobs the event loop
  has posted, in the order of the events, are those the pools have accepted (and the one being
  posted); and when \<open>start\<close> has shut down both pools, every job of every event has been run, every
  file job as well, and so has the link of every file that was stored, each exactly once.\<close>

theorem nothing_lost:
  assumes r: "reach app_init app_step s" and joined: "stop (serial s) = S_Joined"
  shows "filter (\<lambda>j. \<not> is_link j) (finished (serial s)) = posts serial_of (raised s) \<and>
    mset (filter is_link (finished (serial s))) = mset (map (\<lambda>(f, fid). link_of f fid) (stored s)) \<and>
    mset (finished (files s)) = mset (posts file_of (raised s)) \<and> q (serial s) = [] \<and> q (files s) = []"
  using assms by (rule all_jobs_run)

theorem nothing_lost_witness:
  "finished (serial drained_app) = [J_Reply one_reply] \<and> posts serial_of (raised drained_app) = [J_Reply one_reply] \<and>
   q (serial drained_app) = []"
proof -
  have "stop (serial drained_app) = S_Joined" by (simp add: drained_app_def)
  from nothing_lost [OF drained_reach this]
  have lost: "filter (\<lambda>j. \<not> is_link j) (finished (serial drained_app)) = posts serial_of (raised drained_app)"
    "q (serial drained_app) = []" by simp_all
  have "finished (serial drained_app) = [J_Reply one_reply]"
    by (simp add: drained_app_def served_app_def ending_def worker_section_def worker_at_def stop_defs fresh_defs)
  with lost show ?thesis by simp
qed

text \<open>C9: links after rows, from the client's events to the order of execution. If the events raised are
  those of a run of the client, then among all jobs of the one worker of \<open>serial_\<close>, finished, running
  and queued, in the order in which they run, a job that links a message to a file or to the message it
  replies to comes after a job that stores the message (not a mere report of its deletion), in the same table.\<close>

theorem links_after_rows:
  assumes r: "reach app_init app_step s" and c: "reach td_start td_step c" and "events c = raised s @ es"
    and "finished (serial s) @ jobs_at (workers (serial s) 0) @ q (serial s) = xs @ j # ys"
    and "links_row j = Some m"
  shows "\<exists>i\<in>set xs. writes_row i = Some m"
proof -
  have "events_ok (events c)" using trace_inv_reach [OF c] by (simp add: trace_inv_def)
  then have "events_ok (raised s)" using assms(3) events_ok_prefix by simp
  then have ok: "in_order (accepted (serial s))" using rows_reach [OF r] by (simp add: rows_ok_def)
  have inv: "tpool_inv (serial s)" "n_threads (serial s) = 1"
    using handed_reach [OF r] tpool_reach_inv by (auto simp: app_inv_def control_stop_def)
  then have "accepted (serial s) = xs @ j # ys"
    using assms(4) by (simp add: tpool_inv_def queue_ok_def jobs_ok_def)
  with ok have "written xs (links_row j)"
    unfolding in_order_def by (metis append_eq_conv_conj length_append length_Cons less_add_Suc1 nth_append_length add_Suc_right)
  with assms(5) show ?thesis by (auto simp: written_def)
qed

theorem links_after_rows_witness:
  "\<exists>pm pm1 a. reach app_init app_step a \<and> q (serial a) = [J_Private pm, J_Private pm1, J_Reply one_reply] \<and>
     (\<exists>i\<in>set [J_Private pm, J_Private pm1]. writes_row i = Some (7, 2, False))"
proof -
  obtain pm xm pm1 where ev: "events replied_client = [E_Private pm, E_Text xm, E_Private pm1, E_Reply one_reply]"
    using replied_events by (auto simp: one_reply_def)
  define a where "a = absorb (E_Reply one_reply) (absorb (E_Private pm1) (absorb (E_Text xm) (absorb (E_Private pm) fresh_app)))"
  have 1: "reach app_init app_step (absorb (E_Private pm) fresh_app)"
    by (rule absorb_reach [OF fresh_reach]) (simp_all add: fresh_defs nowhere_def)
  have 2: "reach app_init app_step (absorb (E_Text xm) (absorb (E_Private pm) fresh_app))"
    by (rule absorb_reach [OF 1]) (simp_all add: absorb_def fresh_defs nowhere_def)
  have 3: "reach app_init app_step (absorb (E_Private pm1) (absorb (E_Text xm) (absorb (E_Private pm) fresh_app)))"
    by (rule absorb_reach [OF 2]) (simp_all add: absorb_def fresh_defs nowhere_def)
  have r: "reach app_init app_step a"
    unfolding a_def by (rule absorb_reach [OF 3]) (simp_all add: absorb_def fresh_defs nowhere_def)
  have q: "q (serial a) = [J_Private pm, J_Private pm1, J_Reply one_reply]" and raised: "raised a = events replied_client"
    and run: "finished (serial a) @ jobs_at (workers (serial a) 0) @ q (serial a) =
      [J_Private pm, J_Private pm1] @ J_Reply one_reply # []"
    by (simp_all add: a_def absorb_def fresh_defs ev)
  moreover have "links_row (J_Reply one_reply) = Some (7, 2, False)" by (simp add: one_reply_def)
  ultimately have "\<exists>i\<in>set [J_Private pm, J_Private pm1]. writes_row i = Some (7, 2, False)"
    by (intro links_after_rows [OF r replied_reach _ run, of "[]"]) simp_all
  with r q show ?thesis by (intro exI [of _ pm] exI [of _ pm1] exI [of _ a] conjI)
qed
end
