(* ===== verification/Tg_Shutdown.thy ===== *)
theory Tg_Shutdown
  imports Tg_Drain
begin

text \<open>
  Progress of the threads of \<open>Tg_Drain\<close>: whatever the interleaving, the threads come to rest after
  finitely many steps unless a new event arrives, and at rest either everything posted has been
  done or \<open>start\<close> has shut both pools down. The chain that might deadlock is the event loop
  waiting for room in \<open>files_\<close>, whose workers wait for room in \<open>serial_\<close>.
\<close>

section \<open>Work ahead of a pool\<close>

text \<open>\<open>c\<close>: the steps a job takes besides.\<close>

fun worker_left :: "nat \<Rightarrow> 'j worker_pc \<Rightarrow> nat" where
  "worker_left c W_Loop = 1"
| "worker_left c W_Woken = 1"
| "worker_left c (W_Popped j) = c + 4"
| "worker_left c (W_Run j) = c + 2"
| "worker_left c _ = 0"

fun poster_left :: "nat \<Rightarrow> 'j poster_pc \<Rightarrow> nat" where
  "poster_left c Q_Out = 0"
| "poster_left c (Q_Wait j) = c + 6"
| "poster_left c _ = c + 7"

fun stop_left :: "nat \<Rightarrow> stop_pc \<Rightarrow> nat" where
  "stop_left n S_No = n + 4"
| "stop_left n S_Set = n + 3"
| "stop_left n S_Half = 2"
| "stop_left n S_Join = 1"
| "stop_left n S_Joined = 0"

definition workers_left :: "nat \<Rightarrow> nat \<Rightarrow> (nat \<Rightarrow> 'j worker_pc) \<Rightarrow> nat" where
  "workers_left c n ws = (\<Sum>i<n. worker_left c (ws i))"

definition posters_left :: "nat \<Rightarrow> nat \<Rightarrow> (nat \<Rightarrow> 'j poster_pc) \<Rightarrow> nat" where
  "posters_left c m ps = (\<Sum>k<m. poster_left c (ps k))"

definition pool_left :: "nat \<Rightarrow> nat \<Rightarrow> 'j tpool \<Rightarrow> nat" where
  "pool_left c m p = (c + 4) * length (q p) + workers_left c (n_threads p) (workers p) +
     posters_left c m (posters p) + stop_left (n_threads p) (stop p)"

text \<open>The posters are among the first \<open>m\<close> threads.\<close>

definition posters_below :: "nat \<Rightarrow> 'j tpool \<Rightarrow> bool" where
  "posters_below m p \<longleftrightarrow> (\<forall>k. posters p k \<noteq> Q_Out \<longrightarrow> k < m)"

lemma workers_left_upd:
  "i < n \<Longrightarrow> workers_left c n (ws(i := x)) + worker_left c (ws i) = workers_left c n ws + worker_left c x"
  unfolding workers_left_def by (rule sum_upd)

lemma posters_left_upd:
  "k < m \<Longrightarrow> posters_left c m (ps(k := x)) + poster_left c (ps k) = posters_left c m ps + poster_left c x"
  unfolding posters_left_def by (rule sum_upd)

text \<open>A notification costs one.\<close>

lemma notify_worker_left:
  assumes "wakes_worker p w" and "fits (n_threads p) (workers p)"
  shows "workers_left c (n_threads p) (workers (notify_worker w p)) \<le> workers_left c (n_threads p) (workers p) + 1"
proof (cases w)
  case (Some k)
  with assms have "k < n_threads p" "workers p k = W_Wait" by (auto simp: wakes_worker_def intro: fits_lt)
  with workers_left_upd [of k "n_threads p" c "workers p" W_Woken] Some show ?thesis by simp
qed simp

lemma notify_poster_left:
  assumes "posters_below m p"
  shows "posters_left c m (posters (notify_poster w p)) \<le> posters_left c m (posters p) + 1"
proof (cases w)
  case (Some k)
  show ?thesis
  proof (cases "posters p k")
    case (Q_Wait j)
    with assms have "k < m" by (auto simp: posters_below_def)
    with posters_left_upd [of k m c "posters p" "Q_Woken j"] Some Q_Wait show ?thesis
      by (simp add: notify_poster_def poster_at_def)
  qed (simp_all add: Some notify_poster_def)
qed simp

lemma pool_run_less:
  assumes "pool_run p p'" and "fits (n_threads p) (workers p)" and below: "posters_below m p"
  shows "pool_left c m p' < pool_left c m p"
  using assms(1)
proof cases
  case (run_lock i)
  then have i: "i < n_threads p" and one: "worker_left c (workers p i) = 1"
    using assms(2) by (auto intro: fits_lt)
  have upd: "workers_left c (n_threads p) ((workers p)(i := x)) + 1 = workers_left c (n_threads p) (workers p) + worker_left c x" for x
    using workers_left_upd [OF i, of c "workers p" x] one by simp
  show ?thesis
    using run_lock(1) upd [of W_Wait] upd [of W_Exit] upd [of "W_Popped (hd (q p))"]
    by (cases "q p") (auto simp: pool_left_def worker_section_def worker_at_def)
next
  case (run_signal i j w)
  then have i: "i < n_threads p" using assms(2) by (auto intro: fits_lt)
  from workers_left_upd [OF i, of c "workers p" "W_Run j"] run_signal notify_poster_left [OF below, of c w]
  show ?thesis by (simp add: pool_left_def worker_notify_def worker_at_def)
next
  case (run_post k j w)
  then have "posters p k \<noteq> Q_Out" by auto
  with below have k: "k < m" by (simp add: posters_below_def)
  have seven: "poster_left c (posters p k) = c + 7" using run_post by auto
  have upd: "posters_left c m ((posters p)(k := x)) + (c + 7) = posters_left c m (posters p) + poster_left c x" for x
    using posters_left_upd [OF k, of c "posters p" x] seven by simp
  let ?r = "poster_at k Q_Out (p\<lparr>q := q p @ [j], accepted := accepted p @ [j]\<rparr>)"
  have same: "workers ?r = workers p" "n_threads ?r = n_threads p" by (simp_all add: poster_at_def)
  have "wakes_worker ?r w" using run_post(3) by (simp only: wakes_worker_def same)
  moreover have "fits (n_threads ?r) (workers ?r)" using assms(2) by (simp only: same)
  ultimately have "workers_left c (n_threads ?r) (workers (notify_worker w ?r)) \<le> workers_left c (n_threads ?r) (workers ?r) + 1"
    by (rule notify_worker_left)
  then have "workers_left c (n_threads p) (workers (notify_worker w ?r)) \<le> workers_left c (n_threads p) (workers p) + 1"
    by (simp only: same)
  moreover have "posters (notify_worker w ?r) = (posters p)(k := Q_Out)" "q (notify_worker w ?r) = q p @ [j]"
    "n_threads (notify_worker w ?r) = n_threads p" "stop (notify_worker w ?r) = stop p"
    by (simp_all add: poster_at_def)
  ultimately have "pool_left c m (notify_worker w ?r) < pool_left c m p"
    unfolding pool_left_def using upd [of Q_Out] by simp
  moreover have "pool_left c m (poster_at k Q_Out p) < pool_left c m p"
    "pool_left c m (poster_at k (Q_Wait j) p) < pool_left c m p"
    using upd [of Q_Out] upd [of "Q_Wait j"] by (simp_all add: pool_left_def poster_at_def)
  ultimately show ?thesis using run_post(1) by (auto simp: post_section_def)
qed

text \<open>The passages of \<open>shutdown\<close>, when nobody posts any more.\<close>

lemma workers_left_woken:
  "workers_left c n (\<lambda>i. if ws i = W_Wait then W_Woken else ws i) \<le> workers_left c n ws + n"
proof -
  have "workers_left c n (\<lambda>i. if ws i = W_Wait then W_Woken else ws i) \<le> (\<Sum>i<n. worker_left c (ws i) + 1)"
    unfolding workers_left_def by (rule sum_mono) simp
  also have "\<dots> = workers_left c n ws + n" by (simp only: sum.distrib workers_left_def) simp
  finally show ?thesis .
qed

lemma pool_stop_less:
  assumes "pool_stop p p'" and "all_out p"
  shows "pool_left c m p' < pool_left c m p"
  using assms(1)
proof cases
  case stop_2
  with workers_left_woken [of c "n_threads p" "workers p"] show ?thesis
    by (simp add: pool_left_def stop_notify_workers_def)
next
  case stop_3
  have "posters p' = posters p" using stop_3 assms(2) by (simp add: stop_notify_posters_def all_out_def fun_eq_iff)
  with stop_3 show ?thesis by (simp add: pool_left_def stop_notify_posters_def)
qed (simp_all add: pool_left_def stop_set_def)

section \<open>Work ahead of the application\<close>

fun link_left :: "link_pc \<Rightarrow> nat" where
  "link_left K_Store = 10"
| "link_left K_Link = 2"
| "link_left K_End = 0"

definition links_left :: "nat \<Rightarrow> (nat \<Rightarrow> link_pc) \<Rightarrow> nat" where
  "links_left n ls = (\<Sum>i<n. link_left (ls i))"

fun loop_left :: "loop_pc \<Rightarrow> nat" where
  "loop_left (L_Handler e) = 1"
| "loop_left _ = 0"

definition work_ahead :: "app \<Rightarrow> nat" where
  "work_ahead s = pool_left 10 1 (files s) + pool_left 0 (Suc (n_threads (files s))) (serial s) +
     links_left (n_threads (files s)) (links s) + loop_left (loop_at s)"

lemma links_left_upd:
  "i < n \<Longrightarrow> links_left n (ls(i := x)) + link_left (ls i) = links_left n ls + link_left x"
  unfolding links_left_def by (rule sum_upd)

lemma app_fits:
  assumes "app_inv s"
  shows "fits (n_threads (files s)) (workers (files s))" and "fits (n_threads (serial s)) (workers (serial s))"
    and "posters_below 1 (files s)" and "posters_below (Suc (n_threads (files s))) (serial s)"
proof -
  show "fits (n_threads (files s)) (workers (files s))" "fits (n_threads (serial s)) (workers (serial s))"
    using assms tpool_reach_inv [of "files s"] tpool_reach_inv [of "serial s"]
    by (simp_all add: app_inv_def tpool_inv_def threads_ok_def)
  have "posters (files s) k = Q_Out" if "0 < k" for k
    using assms that by (cases k) (simp_all add: app_inv_def control_links_def)
  then show "posters_below 1 (files s)" unfolding posters_below_def by (metis less_one gr0I)
  have "k < Suc (n_threads (files s))" if "posters (serial s) k \<noteq> Q_Out" for k
    using link_poster [OF assms] that by (cases k) auto
  then show "posters_below (Suc (n_threads (files s))) (serial s)" by (simp add: posters_below_def)
qed

lemma running_lt: "app_inv s \<Longrightarrow> workers (files s) i = W_Run f \<Longrightarrow> i < n_threads (files s)"
  by (rule fits_lt [OF app_fits(1)]) simp_all

lemma worker_job_left:
  assumes "workers p i = W_Run j" and "fits (n_threads p) (workers p)"
  shows "pool_left c m (worker_job i j p) + (c + 1) = pool_left c m p"
proof -
  have "i < n_threads p" using assms by (auto intro: fits_lt)
  from workers_left_upd [OF this, of c "workers p" W_Loop] assms(1) show ?thesis
    by (simp add: pool_left_def worker_job_def worker_at_def)
qed

lemma run_step_less: "run_step s t \<Longrightarrow> app_inv s \<Longrightarrow> work_ahead t < work_ahead s"
proof (induction rule: run_step.induct)
  case (handled s e)
  then show ?case by (simp add: work_ahead_def)
next
  case (files_run s p)
  then have "pool_left 10 1 p < pool_left 10 1 (files s)" by (intro pool_run_less app_fits)
  moreover have "n_threads p = n_threads (files s)" using files_run(1) pool_run_on by (auto simp: runs_on_def)
  ultimately show ?case by (simp add: work_ahead_def)
next
  case (serial_run s p)
  then have "pool_left 0 (Suc (n_threads (files s))) p < pool_left 0 (Suc (n_threads (files s))) (serial s)"
    by (intro pool_run_less app_fits)
  then show ?case by (simp add: work_ahead_def)
next
  case (serial_job s i j)
  from worker_job_left [OF this(1) app_fits(2) [OF this(2)], of 0 "Suc (n_threads (files s))"]
  show ?case by (simp add: work_ahead_def)
next
  case (not_stored s i f)
  then have "i < n_threads (files s)" by (intro running_lt)
  from links_left_upd [OF this, of "links s" K_End] not_stored(2) show ?case by (simp add: work_ahead_def)
next
  case (was_stored s i f fid)
  then have i: "i < n_threads (files s)" and out: "posters (serial s) (Suc i) = Q_Out"
    using running_lt by (auto simp: app_inv_def control_links_def)
  from links_left_upd [OF i, of "links s" K_Link] was_stored(2)
    posters_left_upd [of "Suc i" "Suc (n_threads (files s))" 0 "posters (serial s)" "Q_Post (link_of f fid)"] i out
  show ?case by (simp add: work_ahead_def post_link_def pool_left_def)
next
  case (link_posted s i)
  then obtain f where "workers (files s) i = W_Run f" unfolding app_inv_def control_links_def by force
  with link_posted(3) have "i < n_threads (files s)" by (intro running_lt)
  from links_left_upd [OF this, of "links s" K_End] link_posted(1) show ?case by (simp add: work_ahead_def)
next
  case (file_job_done s i f)
  then have i: "i < n_threads (files s)" by (intro running_lt)
  have "n_threads (worker_job i f (files s)) = n_threads (files s)" by (simp add: worker_job_def worker_at_def)
  with links_left_upd [OF i, of "links s" K_Store] file_job_done(2)
    worker_job_left [OF file_job_done(1) app_fits(1) [OF file_job_done(3)], of 10 1]
  show ?case by (simp add: work_ahead_def end_file_job_def)
next
  case (files_stop s p)
  then have "pool_left 10 1 p < pool_left 10 1 (files s)" by (intro pool_stop_less left_out)
  moreover have "n_threads p = n_threads (files s)" using files_stop(2) pool_stop_on by (auto simp: runs_on_def)
  ultimately show ?case by (simp add: work_ahead_def)
next
  case (serial_stop s p)
  then have "pool_left 0 (Suc (n_threads (files s))) p < pool_left 0 (Suc (n_threads (files s))) (serial s)"
    by (intro pool_stop_less joined_out)
  then show ?case by (simp add: work_ahead_def)
qed

section \<open>At rest\<close>

lemma some_poster: "\<exists>w. wakes_poster p w"
proof (cases "\<exists>k. is_wait (posters p k)")
  case True
  then obtain k where "is_wait (posters p k)" ..
  then show ?thesis by (intro exI [of _ "Some k"]) (simp add: wakes_poster_def)
next
  case False
  then show ?thesis by (intro exI [of _ None]) (simp add: wakes_poster_def)
qed

lemma some_worker: "\<exists>w. wakes_worker p w"
proof (cases "\<exists>k. workers p k = W_Wait")
  case True
  then obtain k where "workers p k = W_Wait" ..
  then show ?thesis by (intro exI [of _ "Some k"]) (simp add: wakes_worker_def)
next
  case False
  then show ?thesis by (intro exI [of _ None]) (simp add: wakes_worker_def)
qed

text \<open>Only a bounded queue makes a thread wait.\<close>

definition waits_bounded :: "'j tpool \<Rightarrow> bool" where
  "waits_bounded p \<longleftrightarrow> (\<forall>k j. posters p k = Q_Wait j \<longrightarrow> cap p \<noteq> 0)"

lemma notify_poster_wait: "posters (notify_poster w p) k = Q_Wait j \<Longrightarrow> posters p k = Q_Wait j"
  by (auto simp: notify_poster_def poster_at_def split: option.splits poster_pc.splits if_splits)

lemma waits_bounded_step: "waits_bounded p \<Longrightarrow> tpool_step p p' \<Longrightarrow> waits_bounded p'"
  unfolding tpool_step_def waits_bounded_def
  by (auto elim!: worker_step.cases client_step.cases dest!: notify_poster_wait
      simp: worker_section_def worker_notify_def worker_job_def worker_at_def poster_at_def post_section_def
        stop_set_def stop_notify_workers_def stop_notify_posters_def
      split: list.splits if_splits poster_pc.splits)

lemma waits_bounded_reach: "reach tpool_start tpool_step p \<Longrightarrow> waits_bounded p"
  by (erule reach_invariant [where I = waits_bounded])
    (auto simp: tpool_start_def ThreadPool_def Let_def waits_bounded_def [of "\<lparr>cap = _, q = _, draining = _, n_threads = _,
      workers = _, posters = _, stop = _, accepted = _, started = _, finished = _\<rparr>"] intro: waits_bounded_step)

lemma pool_at_rest:
  assumes r: "reach tpool_start tpool_step p" and rest: "\<nexists>p'. pool_run p p'"
    and "\<And>i j. workers p i \<noteq> W_Run j" and "draining p \<Longrightarrow> all_out p"
  shows "all_out p \<and> q p = [] \<and> (\<forall>i. workers p i \<in> {W_None, W_Wait, W_Exit})"
proof -
  have inv: "tpool_inv p" using r by (rule tpool_reach_inv)
  then have fin: "finite_off W_None (workers p)" and finp: "finite_off Q_Out (posters p)"
    by (auto simp: tpool_inv_def threads_ok_def intro: fits_finite)
  have workers: "workers p i \<in> {W_None, W_Wait, W_Exit}" for i
    using rest assms(3) [of i] some_poster [of p]
    by (cases "workers p i") (auto intro: run_lock run_signal)
  have posters: "posters p k = Q_Out \<or> is_wait (posters p k)" for k
    using rest some_worker [of p] by (cases "posters p k") (auto intro: run_post)
  have none: "workers p i \<noteq> W_Woken" "\<not> is_popped (workers p i)" "\<not> is_woken (posters p i)" for i
    using workers [of i] posters [of i] by (auto elim!: is_woken.elims)
  have empty: "q p = []"
  proof (cases "\<exists>i. workers p i = W_Wait")
    case True
    then have "0 < idle_workers p"
      unfolding idle_workers_def by (subst count_at_pos [where z = W_None, OF fin]) auto
    from not_empty.no_lost_wakeup [OF r this] have "length (q p) \<le> woken_workers p" .
    moreover have "woken_workers p = 0"
      unfolding woken_workers_def by (subst count_at_0 [where z = W_None, OF fin]) (simp_all add: none)
    ultimately show ?thesis by simp
  next
    case False
    have "workers p 0 \<noteq> W_None" using inv by (auto simp: tpool_inv_def threads_ok_def fits_def)
    with workers [of 0] False have "workers p 0 = W_Exit" by auto
    with inv show ?thesis by (auto simp: tpool_inv_def stop_ok_def dest: nowhereD)
  qed
  have "posters p k = Q_Out" for k
  proof (rule ccontr)
    assume k: "posters p k \<noteq> Q_Out"
    with posters [of k] obtain j where wt: "posters p k = Q_Wait j" by (cases "posters p k") auto
    then have cap: "cap p \<noteq> 0" and still: "\<not> draining p"
      using waits_bounded_reach [OF r] assms(4) by (auto simp: waits_bounded_def all_out_def)
    have "0 < blocked_posters p"
      unfolding blocked_posters_def using wt
      by (subst count_at_pos [where z = Q_Out, OF finp]) (auto intro!: exI [of _ k])
    from not_full.no_lost_wakeup [OF r this] have "free_slots p \<le> poster_credit p" .
    moreover have "poster_credit p = 0"
      unfolding poster_credit_def
      using count_at_0 [where z = Q_Out, OF finp, of is_woken] count_at_0 [where z = W_None, OF fin, of is_popped]
      by (simp add: none)
    ultimately show False using cap still empty by (simp add: free_slots_def unat_eq_zero)
  qed
  with empty workers show ?thesis by (simp add: all_out_def)
qed
lemma workers_at_rest:
  assumes "\<forall>i. workers p i \<in> {W_None, W_Wait, W_Exit}"
  shows "inflight n (workers p) = {#}" and "jobs_at (workers p i) = []"
proof -
  have none: "jobs_at (workers p i) = []" for i using assms [rule_format, of i] by auto
  show "inflight n (workers p) = {#}" by (simp add: inflight_def none)
  show "jobs_at (workers p i) = []" by (rule none)
qed

text \<open>When no thread can move, \<open>start\<close> has returned, or the loop waits for an event and both pools are empty.\<close>

lemma app_at_rest:
  assumes r: "reach app_init app_step s" and rest: "\<nexists>t. run_step s t" and "stop (serial s) \<noteq> S_Joined"
  shows "loop_at s = L_Idle \<and>
    (all_out (serial s) \<and> q (serial s) = [] \<and> (\<forall>i. workers (serial s) i \<in> {W_None, W_Wait, W_Exit})) \<and>
    (all_out (files s) \<and> q (files s) = [] \<and> (\<forall>i. workers (files s) i \<in> {W_None, W_Wait, W_Exit}))"
proof -
  have inv: "app_inv s" using handed_reach [OF r] by simp
  then have reaches: "reach tpool_start tpool_step (files s)" "reach tpool_start tpool_step (serial s)"
    by (simp_all add: app_inv_def)
  have serial: "all_out (serial s) \<and> q (serial s) = [] \<and> (\<forall>i. workers (serial s) i \<in> {W_None, W_Wait, W_Exit})"
    using rest serial_run serial_job draining_out(2) [OF inv] by (intro pool_at_rest [OF reaches(2)]) blast+
  have "workers (files s) i \<noteq> W_Run f" for i f
    using rest not_stored [of s i f] link_posted [of s i] file_job_done [of s i f] serial
    by (cases "links s i") (auto simp: all_out_def)
  then have files: "all_out (files s) \<and> q (files s) = [] \<and> (\<forall>i. workers (files s) i \<in> {W_None, W_Wait, W_Exit})"
    using rest files_run draining_out(1) [OF inv] by (intro pool_at_rest [OF reaches(1)]) blast+
  have stuck: "stop p = S_Joined" if "tpool_inv p" "\<nexists>p'. pool_stop p p'" "\<forall>i. workers p i \<in> {W_None, W_Wait, W_Exit}"
    for p :: "'a tpool"
  proof (cases "stop p")
    case S_Join
    with that(1) have "nowhere W_Wait (workers p)" "fits (n_threads p) (workers p)"
      by (simp_all add: tpool_inv_def stop_ok_def threads_ok_def)
    with that(3) have "joinable p" by (force simp: joinable_def nowhere_def fits_def)
    with S_Join that(2) stop_4 show ?thesis by blast
  qed (use that(2) stop_1 stop_2 stop_3 in blast)+
  have "loop_at s = L_Idle"
  proof (cases "loop_at s")
    case (L_Handler e)
    with files serial have "run_step s (s\<lparr>loop_at := L_Idle\<rparr>)" by (intro handled) (auto simp: all_out_def)
    with rest show ?thesis by blast
  next
    case L_Left
    have "stop (files s) = S_Joined"
      using stuck [OF tpool_reach_inv [OF reaches(1)]] files rest files_stop [OF L_Left] by blast
    with stuck [OF tpool_reach_inv [OF reaches(2)]] serial rest serial_stop assms(3) show ?thesis by blast
  qed
  with serial files show ?thesis by blast
qed

section \<open>Properties\<close>

text \<open>C20: no deadlock and no livelock between the event loop, the workers and the shutdown. Every step of a
  thread decreases a number, so that without new events and spurious wake-ups the threads come to rest;
  and when no thread can move, either \<open>start\<close> has shut down both pools, or the loop waits for an event
  and every job of every event raised so far has been run, every file job too, and every link posted.\<close>

theorem threads_come_to_rest:
  assumes r: "reach app_init app_step s"
  shows "(\<forall>t. run_step s t \<longrightarrow> work_ahead t < work_ahead s) \<and>
    ((\<nexists>t. run_step s t) \<and> stop (serial s) \<noteq> S_Joined \<longrightarrow>
       loop_at s = L_Idle \<and> filter (\<lambda>j. \<not> is_link j) (finished (serial s)) = posts serial_of (raised s) \<and>
       mset (filter is_link (finished (serial s))) = mset (map (\<lambda>(f, fid). link_of f fid) (stored s)) \<and>
       mset (finished (files s)) = mset (posts file_of (raised s)))"
proof (intro conjI allI impI; (elim conjE)?)
  have inv: "app_inv s" "handed s" using handed_reach [OF r] by simp_all
  then show "work_ahead t < work_ahead s" if "run_step s t" for t using run_step_less that by blast
  assume rest: "\<nexists>t. run_step s t" and still: "stop (serial s) \<noteq> S_Joined"
  note at_rest = app_at_rest [OF r rest still]
  then show "loop_at s = L_Idle" by blast
  have pools: "tpool_inv (files s)" "tpool_inv (serial s)" "n_threads (serial s) = 1"
    using inv(1) by (auto simp: app_inv_def control_stop_def intro: tpool_reach_inv)
  have serial: "finished (serial s) = accepted (serial s)"
    using pools(2,3) at_rest workers_at_rest(2) [of "serial s" 0]
    by (auto simp: tpool_inv_def queue_ok_def jobs_ok_def)
  have "mset (finished (files s)) = mset (accepted (files s))"
    using pools(1) at_rest workers_at_rest(1) [of "files s"] by (auto simp: tpool_inv_def queue_ok_def jobs_ok_def)
  with inv(2) at_rest serial
  show "filter (\<lambda>j. \<not> is_link j) (finished (serial s)) = posts serial_of (raised s)"
    "mset (filter is_link (finished (serial s))) = mset (map (\<lambda>(f, fid). link_of f fid) (stored s))"
    "mset (finished (files s)) = mset (posts file_of (raised s))"
    by (auto simp: handed_def handed_events_def handed_links_def all_out_def posting_links_def)
qed

theorem threads_come_to_rest_witness:
  "work_ahead (absorb (E_Reply one_reply) fresh_app) = work_ahead fresh_app + 4 \<and>
   work_ahead (served_app\<lparr>files := stop_set (files served_app)\<rparr>) < work_ahead served_app"
proof -
  have "run_step served_app (served_app\<lparr>files := stop_set (files served_app)\<rparr>)"
    by (rule files_stop, simp add: served_app_def, rule stop_1)
      (simp add: served_app_def absorb_def fresh_defs)
  moreover have "work_ahead (absorb (E_Reply one_reply) fresh_app) = work_ahead fresh_app + 4"
    by (simp add: work_ahead_def pool_left_def absorb_def fresh_defs)
  ultimately show ?thesis using threads_come_to_rest [OF served_reach] by blast
qed

lemma run_steps_bounded:
  "(run_step ^^ n) s t \<Longrightarrow> reach app_init app_step s \<Longrightarrow> reach app_init app_step t \<and> work_ahead t + n \<le> work_ahead s"
proof (induction n arbitrary: t)
  case (Suc n)
  then obtain u where 1: "(run_step ^^ n) s u" and 2: "run_step u t" by auto
  with Suc have u: "reach app_init app_step u" "work_ahead u + n \<le> work_ahead s" by blast+
  moreover have "app_inv u" using handed_reach [OF u(1)] by simp
  ultimately show ?case using run_step_less [OF 2] app_run [OF u(1) 2] by simp
qed simp

lemma left_stays: "run_step s t \<Longrightarrow> loop_at s = L_Left \<Longrightarrow> loop_at t = L_Left"
  by (induction rule: run_step.induct) (auto simp: post_link_def end_file_job_def)

lemma left_reaches_end:
  assumes "reach app_init app_step s" and "loop_at s = L_Left"
  shows "\<exists>n t. (run_step ^^ n) s t \<and> stop (serial t) = S_Joined"
  using assms
proof (induction "work_ahead s" arbitrary: s rule: less_induct)
  case less
  show ?case
  proof (cases "stop (serial s) = S_Joined")
    case True
    then show ?thesis by (intro exI [of _ 0] exI [of _ s]) simp
  next
    case False
    then obtain u where u: "run_step s u" using app_at_rest [OF less(2)] less(3) by auto
    have "app_inv s" using handed_reach [OF less(2)] by simp
    with u have "work_ahead u < work_ahead s" by (rule run_step_less)
    from less(1) [OF this app_run [OF less(2) u] left_stays [OF u less(3)]]
    obtain n t where "(run_step ^^ n) u t" and "stop (serial t) = S_Joined" by blast
    with u have "(run_step ^^ Suc n) s t" by (metis relpowp_Suc_I2)
    with \<open>stop (serial t) = S_Joined\<close> show ?thesis by blast
  qed
qed

text \<open>C10: the shutdown completes, provided the jobs return. Once the loop is left, no run of the threads
  has more than \<open>work_ahead\<close> steps (spurious wake-ups apart), some run ends with both pools shut down, and
  every run that cannot go on has ended so: \<open>start\<close> returns.\<close>

theorem shutdown_completes:
  assumes r: "reach app_init app_step s" and left: "loop_at s = L_Left"
  shows "(\<forall>n t. (run_step ^^ n) s t \<longrightarrow> n \<le> work_ahead s) \<and>
    (\<exists>n t. (run_step ^^ n) s t \<and> stop (serial t) = S_Joined) \<and>
    (\<forall>n t. (run_step ^^ n) s t \<and> (\<nexists>u. run_step t u) \<longrightarrow> stop (serial t) = S_Joined)"
proof (intro conjI allI impI; (elim conjE)?)
  show "n \<le> work_ahead s" if "(run_step ^^ n) s t" for n t
    using run_steps_bounded [OF that r] by simp
  show "\<exists>n t. (run_step ^^ n) s t \<and> stop (serial t) = S_Joined" using r left by (rule left_reaches_end)
  show "stop (serial t) = S_Joined" if "(run_step ^^ n) s t" and rest: "\<nexists>u. run_step t u" for n t
  proof -
    have "loop_at t = L_Left" using that(1) left
    proof (induction n arbitrary: t)
      case (Suc n)
      then show ?case using left_stays by auto
    qed simp
    moreover have "reach app_init app_step t" using run_steps_bounded [OF that(1) r] by simp
    ultimately show ?thesis using app_at_rest [of t] rest by auto
  qed
qed

theorem shutdown_completes_witness:
  "\<exists>n t. (run_step ^^ n) served_app t \<and> stop (serial t) = S_Joined \<and> n \<le> work_ahead served_app"
proof -
  have "loop_at served_app = L_Left" by (simp add: served_app_def)
  from shutdown_completes [OF served_reach this] show ?thesis by blast
qed
end
