(* ===== verification/Tg_Main.thy ===== *)
theory Tg_Main
  imports Db_Session "HOL-Library.Word"
begin

text \<open>
  src/main.c, src/tgloggerd/helpers/common.c and log.c, tgloggerd_extern.cpp, and the beginning of
  TgLoggerd::start in TgLoggerd.cpp: the configuration read from the environment, the sizes of the
  pools, the data directories, the log, and the calls of \<open>main\<close> with its exit status. The C library is
  glibc on Linux: \<open>atoi\<close> is \<open>strtol\<close> cut to 32 bits, an \<open>errno\<close> is a number. The environment is a map;
  the system call \<open>mkdir\<close> is a parameter. C strings hold no NUL.
\<close>

section \<open>Numbers in the environment\<close>

type_synonym environment = "string \<rightharpoonup> string"

text \<open>The lambda \<open>env\<close> of \<open>start\<close>.\<close>

definition env_or :: "environment \<Rightarrow> string \<Rightarrow> string \<Rightarrow> string" where
  "env_or env key def = (case env key of Some v \<Rightarrow> if v \<noteq> '''' then v else def | None \<Rightarrow> def)"

definition is_digit :: "char \<Rightarrow> bool" where
  "is_digit c \<longleftrightarrow> 48 \<le> (of_char c :: nat) \<and> (of_char c :: nat) \<le> 57"

definition is_space :: "char \<Rightarrow> bool" where
  "is_space c \<longleftrightarrow> (of_char c :: nat) \<in> {9, 10, 11, 12, 13, 32}"

definition digits_value :: "string \<Rightarrow> int" where
  "digits_value ds = foldl (\<lambda>v c. 10 * v + (int (of_char c) - 48)) 0 ds"

text \<open>Sign and magnitude of the number a string begins with.\<close>

definition read_number :: "string \<Rightarrow> bool \<times> int" where
  "read_number s =
     (let t = dropWhile is_space s;
          neg = (t \<noteq> [] \<and> hd t = CHR ''-'');
          ds = (if t \<noteq> [] \<and> (hd t = CHR ''-'' \<or> hd t = CHR ''+'') then tl t else t) in
      (neg, digits_value (takeWhile is_digit ds)))"

definition strtol :: "string \<Rightarrow> int" where
  "strtol s = (case read_number s of (neg, v) \<Rightarrow> max (- (2 ^ 63)) (min (2 ^ 63 - 1) (if neg then - v else v)))"

definition atoi :: "string \<Rightarrow> 32 word" where
  "atoi s = word_of_int (strtol s)"

definition strtoull :: "string \<Rightarrow> 64 word" where
  "strtoull s = (case read_number s of (neg, v) \<Rightarrow>
     if v > 2 ^ 64 - 1 then - 1 else word_of_int (if neg then - v else v))"

fun decimal :: "nat \<Rightarrow> string" where
  "decimal n = (if n < 10 then [char_of (48 + n)] else decimal (n div 10) @ [char_of (48 + n mod 10)])"

declare decimal.simps [simp del]

section \<open>Configuration\<close>

record db_config =
  host_name :: string
  port :: "16 word"
  db_user :: string
  password :: string
  database :: string
  pool_size :: "64 word"

record sizes =
  file_threads :: "64 word"
  db_pool :: "64 word"
  queue_max :: "64 word"

text \<open>A conversion of \<open>int\<close> to \<open>size_t\<close> extends the sign.\<close>

definition size_of_int :: "32 word \<Rightarrow> 64 word" where
  "size_of_int i = scast i"

definition worker_sizes :: "environment \<Rightarrow> sizes" where
  "worker_sizes env =
     (let ft = size_of_int (atoi (env_or env ''TG_FILE_THREADS'' ''4''));
          ft = (if ft < 1 then 1 else ft);
          db_pool_def = decimal (unat (ft + 2));
          pool = size_of_int (atoi (env_or env ''TG_DB_POOL'' db_pool_def));
          pool = (if pool < ft + 1 then ft + 1 else pool) in
      \<lparr>file_threads = ft, db_pool = pool, queue_max = strtoull (env_or env ''TG_QUEUE_MAX'' ''10000'')\<rparr>)"

definition db_cfg :: "environment \<Rightarrow> db_config" where
  "db_cfg env =
     \<lparr>host_name = env_or env ''TG_DB_HOST'' ''127.0.0.1'',
      port = ucast (atoi (env_or env ''TG_DB_PORT'' ''3306'')),
      db_user = env_or env ''TG_DB_USER'' ''tgloggerd'',
      password = env_or env ''TG_DB_PASSWORD'' ''tgloggerd'',
      database = env_or env ''TG_DB_NAME'' ''tgloggerd'',
      pool_size = db_pool (worker_sizes env)\<rparr>"

lemma digit_char: "n < 10 \<Longrightarrow> (of_char (char_of (48 + n) :: char) :: nat) = 48 + n"
  by (simp add: of_char_of)

lemma digits_value_snoc: "digits_value (ds @ [c]) = 10 * digits_value ds + (int (of_char c) - 48)"
  by (simp add: digits_value_def)

lemma decimal_value: "digits_value (decimal n) = int n \<and> (\<forall>c\<in>set (decimal n). is_digit c) \<and> decimal n \<noteq> []"
proof (induction n rule: decimal.induct)
  case (1 n)
  show ?case
  proof (cases "n < 10")
    case True
    then show ?thesis
      by (subst (1 2 3) decimal.simps) (simp add: digits_value_def is_digit_def digit_char)
  next
    case False
    have m: "n mod 10 < 10" by simp
    from 1 [OF False] False show ?thesis
      by (subst (1 2 3) decimal.simps)
        (auto simp: digits_value_snoc is_digit_def digit_char [OF m] of_nat_mod of_nat_div)
  qed
qed

lemma digit_plain: "is_digit c \<Longrightarrow> \<not> is_space c \<and> c \<noteq> CHR ''-'' \<and> c \<noteq> CHR ''+''"
  by (auto simp: is_digit_def is_space_def)

lemma read_decimal: "read_number (decimal n) = (False, int n)"
proof -
  obtain c cs where d: "decimal n = c # cs" using decimal_value [of n] by (cases "decimal n") auto
  then have "is_digit c" using decimal_value [of n] by simp
  moreover have "takeWhile is_digit (decimal n) = decimal n"
    using decimal_value [of n] unfolding takeWhile_eq_all_conv by blast
  then have "digits_value (takeWhile is_digit (c # cs)) = int n"
    using decimal_value [of n] unfolding d by metis
  ultimately show ?thesis
    using digit_plain [of c] unfolding d read_number_def Let_def by (simp del: takeWhile.simps)
qed

lemma sint_word_of_int_32: "- (2 ^ 31) \<le> i \<Longrightarrow> i < 2 ^ 31 \<Longrightarrow> sint (word_of_int i :: 32 word) = i"
  by (simp add: sint_sbintrunc' signed_take_bit_int_eq_self)

lemma atoi_decimal:
  assumes "n < 2 ^ 31"
  shows "sint (atoi (decimal n)) = int n"
proof -
  have "strtol (decimal n) = int n" using assms by (simp add: strtol_def read_decimal)
  then have "atoi (decimal n) = word_of_int (int n)" by (simp only: atoi_def)
  moreover have "sint (word_of_int (int n) :: 32 word) = int n"
    by (rule sint_word_of_int_32) (use assms in simp_all)
  ultimately show ?thesis by (simp only:)
qed

lemma sint_range_32: "- (2 ^ 31) \<le> sint (i :: 32 word)" "sint (i :: 32 word) < 2 ^ 31"
  using sint_ge [of i] sint_lt [of i] by simp_all

lemma size_of_int_value:
  "uint (size_of_int i) = (if sint i < 0 then 2 ^ 64 + sint i else sint i)"
proof -
  have "uint (size_of_int i) = sint i mod 2 ^ LENGTH(64)"
    by (simp only: size_of_int_def scast_eq uint_word_of_int)
  then have "uint (size_of_int i) = sint i mod 2 ^ 64" by (simp only: len_num1 len_bit0) simp
  also have "\<dots> = (if sint i < 0 then 2 ^ 64 + sint i else sint i)"
  proof (cases "sint i < 0")
    case True
    have "sint i mod 2 ^ 64 = (2 ^ 64 + sint i) mod 2 ^ 64" by simp
    also have "\<dots> = 2 ^ 64 + sint i"
      by (rule mod_pos_pos_trivial) (use sint_range_32 [of i] True in simp_all)
    finally show ?thesis using True by simp
  next
    case False
    with sint_range_32 [of i] show ?thesis by simp
  qed
  finally show ?thesis .
qed
lemma unat_size_of_int: "unat (size_of_int i) = (if sint i < 0 then nat (2 ^ 64 + sint i) else nat (sint i))"
  by (cases "sint i < 0") (simp_all only: unat_eq_nat_uint size_of_int_value if_True if_False)

lemma unat_plus_64:
  assumes "unat (a :: 64 word) + unat (c :: 64 word) < 2 ^ 64"
  shows "unat (a + c) = unat a + unat c"
proof -
  have "unat a + unat c < 2 ^ LENGTH(64)" using assms by simp
  then show ?thesis by (simp only: unat_word_ariths mod_less)
qed

section \<open>Sizes of the pools\<close>

text \<open>C39: the sizes of the pools. With \<open>n\<close> the number in TG_FILE_THREADS (4 when it is not set) there are \<open>n\<close>
  file workers, and one if \<open>n\<close> is 0; the connection pool is always large enough for all of them and the
  serial worker, and has two connections more than file workers if TG_DB_POOL is not set. A negative
  \<open>n\<close>, however, asks for almost \<open>2 ^ 64\<close> file workers.\<close>

theorem worker_sizing:
  assumes n: "sint (atoi (env_or env ''TG_FILE_THREADS'' ''4'')) = n" and z: "z = worker_sizes env"
  shows "(0 \<le> n \<longrightarrow> unat (file_threads z) = max 1 (nat n) \<and> unat (file_threads z) < unat (db_pool z) \<and>
      (env ''TG_DB_POOL'' = None \<and> n < 2 ^ 31 - 2 \<longrightarrow> unat (db_pool z) = unat (file_threads z) + 2)) \<and>
    (n < 0 \<longrightarrow> unat (file_threads z) = nat (2 ^ 64 + n))"
proof -
  define ft0 where "ft0 = size_of_int (atoi (env_or env ''TG_FILE_THREADS'' ''4''))"
  define ft where "ft = (if ft0 < 1 then 1 else ft0)"
  define p0 where "p0 = size_of_int (atoi (env_or env ''TG_DB_POOL'' (decimal (unat (ft + 2)))))"
  have zs: "file_threads z = ft" "db_pool z = (if p0 < ft + 1 then ft + 1 else p0)"
    by (simp_all add: z worker_sizes_def Let_def ft0_def ft_def p0_def)
  have range: "- (2 ^ 31) \<le> n" "n < 2 ^ 31" using sint_range_32 n by auto
  have ft0: "unat ft0 = (if n < 0 then nat (2 ^ 64 + n) else nat n)"
    by (simp only: ft0_def unat_size_of_int n)
  have ft: "unat ft = (if n < 0 then nat (2 ^ 64 + n) else max 1 (nat n))"
    using range ft0 by (auto simp: ft_def word_less_nat_alt)
  have more: "unat (ft + 1) = unat ft + 1" "unat (ft + 2) = unat ft + 2" if "0 \<le> n"
    using that ft range unat_plus_64 [of ft 1] unat_plus_64 [of ft 2] by simp_all
  have enough: "unat (file_threads z) < unat (db_pool z)" if "0 \<le> n"
    using more [OF that] by (auto simp: zs word_less_nat_alt)
  have default: "unat (db_pool z) = unat (file_threads z) + 2"
    if "0 \<le> n" "env ''TG_DB_POOL'' = None" "n < 2 ^ 31 - 2"
  proof -
    have "unat ft + 2 < 2 ^ 31" using ft that by simp
    then have sint: "sint (atoi (decimal (unat ft + 2))) = int (unat ft + 2)" by (rule atoi_decimal)
    have "p0 = size_of_int (atoi (decimal (unat ft + 2)))"
      using that(2) more(2) [OF that(1)] by (simp add: p0_def env_or_def)
    then have "unat p0 = nat (int (unat ft + 2))"
      by (simp only: unat_size_of_int sint) (simp only: of_nat_less_0_iff if_False)
    then have "unat p0 = unat ft + 2" by (simp only: nat_int)
    then show ?thesis using more [OF that(1)] by (simp add: zs word_less_nat_alt)
  qed
  from ft enough default show ?thesis by (simp add: zs)
qed

theorem worker_sizing_witness:
  "file_threads (worker_sizes (\<lambda>_. None)) = 4 \<and> db_pool (worker_sizes (\<lambda>_. None)) = 6 \<and>
   unat (file_threads (worker_sizes [''TG_FILE_THREADS'' \<mapsto> ''-1''])) = 2 ^ 64 - 1"
proof -
  have four: "sint (atoi ''4'') = 4" and minus: "sint (atoi ''-1'') = - 1" by code_simp+
  have "sint (atoi (env_or (\<lambda>_. None) ''TG_FILE_THREADS'' ''4'')) = 4" by (simp add: env_or_def four)
  from worker_sizing [OF this refl] have a: "unat (file_threads (worker_sizes (\<lambda>_. None))) = 4"
    "unat (db_pool (worker_sizes (\<lambda>_. None))) = 6" by simp_all
  have "sint (atoi (env_or [''TG_FILE_THREADS'' \<mapsto> ''-1''] ''TG_FILE_THREADS'' ''4'')) = - 1"
    by (simp add: env_or_def minus)
  from worker_sizing [OF this refl] have "unat (file_threads (worker_sizes [''TG_FILE_THREADS'' \<mapsto> ''-1''])) = nat (2 ^ 64 - 1)"
    by simp
  moreover have "unat (4 :: 64 word) = 4" "unat (6 :: 64 word) = 6" by simp_all
  ultimately show ?thesis using a by (simp only: word_unat_eq_iff) simp
qed

section \<open>The log\<close>

text \<open>\<open>fp\<close>: what has been written to the stream, \<open>None\<close> for the null pointer.\<close>

record log_hd =
  fp :: "string option"
  log_level :: "8 word"
  close_fp_on_free :: bool

definition PR_LOG_ERROR :: int where "PR_LOG_ERROR = 0"
definition PR_LOG_WARNING :: int where "PR_LOG_WARNING = 1"
definition PR_LOG_INFO :: int where "PR_LOG_INFO = 2"
definition PR_LOG_DEBUG :: int where "PR_LOG_DEBUG = 3"

definition pr_create :: "bool \<Rightarrow> string option \<Rightarrow> int \<Rightarrow> log_hd option" where
  "pr_create memory opened level =
     (if \<not> memory then None
      else case opened of
        None \<Rightarrow> None
      | Some text \<Rightarrow> Some \<lparr>fp = Some text, log_level = word_of_int level, close_fp_on_free = True\<rparr>)"

definition pr_create_from_fp :: "bool \<Rightarrow> string option \<Rightarrow> int \<Rightarrow> bool \<Rightarrow> log_hd option" where
  "pr_create_from_fp memory stream level close =
     (if \<not> memory then None
      else Some \<lparr>fp = stream, log_level = word_of_int level, close_fp_on_free = close\<rparr>)"

definition pr_set_log_level :: "log_hd \<Rightarrow> int \<Rightarrow> log_hd" where
  "pr_set_log_level h level = h\<lparr>log_level := word_of_int level\<rparr>"

definition level_tag :: "int \<Rightarrow> string" where
  "level_tag level =
     (if level = PR_LOG_ERROR then ''[error]''
      else if level = PR_LOG_WARNING then ''[warn ]''
      else if level = PR_LOG_INFO then ''[info ]''
      else if level = PR_LOG_DEBUG then ''[debug]''
      else ''[?????]'')"

text \<open>Whether the stream is closed with the handle.\<close>

definition pr_free :: "log_hd option \<Rightarrow> bool" where
  "pr_free handle = (case handle of None \<Rightarrow> False | Some h \<Rightarrow> fp h \<noteq> None \<and> close_fp_on_free h)"

text \<open>\<open>snprintf(buf, n, ...)\<close> with the formatted text \<open>s\<close>.\<close>

definition snprintf :: "nat \<Rightarrow> string \<Rightarrow> string" where
  "snprintf n s = take (n - 1) s"

text \<open>\<open>text\<close>: the formatted message; \<open>memory\<close>: whether a longer buffer could be allocated.\<close>

definition pr_log :: "bool \<Rightarrow> string \<Rightarrow> log_hd option \<Rightarrow> int \<Rightarrow> string \<Rightarrow> log_hd option" where
  "pr_log memory date_time handle level text =
     (case handle of
        None \<Rightarrow> None
      | Some h \<Rightarrow>
          (case fp h of
             None \<Rightarrow> Some h
           | Some out \<Rightarrow>
               if length text \<ge> 4096 \<and> \<not> memory then Some h
               else
                 (let buf = (if length text \<ge> 4096 then snprintf (length text + 1) text else snprintf 4096 text) in
                  Some (h\<lparr>fp := Some (out @ ''['' @ date_time @ '']'' @ level_tag level @ '': '' @ buf @ ''\<newline>'')\<rparr>))))"

text \<open>A message of any length is written whole; the level of the handle is never consulted, so that
  TG_LOG_LEVEL has no effect.\<close>

theorem message_logged_whatever_level:
  assumes "fp h = Some out" and "length text < 4096 \<or> memory"
  shows "pr_log memory date_time (Some h) level text =
    Some (h\<lparr>fp := Some (out @ ''['' @ date_time @ '']'' @ level_tag level @ '': '' @ text @ ''\<newline>'')\<rparr>)"
  using assms by (auto simp: pr_log_def snprintf_def Let_def)

section \<open>Directories\<close>

abbreviation EEXIST :: nat where "EEXIST \<equiv> 17"
abbreviation EINVAL :: nat where "EINVAL \<equiv> 22"

text \<open>\<open>mk p d\<close>: the system call \<open>mkdir\<close> on the directories \<open>d\<close>; its \<open>errno\<close>, 0 for success.\<close>

type_synonym 'd mkdir = "string \<Rightarrow> 'd \<Rightarrow> nat \<times> 'd"

text \<open>The loop over \<open>q\<close>: \<open>pre\<close> is what lies before \<open>q\<close>.\<close>

fun make_parents :: "'d mkdir \<Rightarrow> string \<Rightarrow> string \<Rightarrow> 'd \<Rightarrow> nat \<times> 'd" where
  "make_parents mk pre [] d = (0, d)"
| "make_parents mk pre (c # cs) d =
     (if c = CHR ''/'' then
        (case mk pre d of (err, d) \<Rightarrow>
           if err \<noteq> 0 \<and> err \<noteq> EEXIST then (err, d) else make_parents mk (pre @ [c]) cs d)
      else make_parents mk (pre @ [c]) cs d)"

text \<open>\<open>dup\<close>: whether \<open>strdup\<close> found memory. For the empty path the loop reads behind the end of the copy:
  no value.\<close>

definition mkdir_recursive :: "'d mkdir \<Rightarrow> bool \<Rightarrow> string \<Rightarrow> 'd \<Rightarrow> (int \<times> 'd) option" where
  "mkdir_recursive mk dup path d =
     (if \<not> dup then Some (- int EINVAL, d)
      else case path of
        [] \<Rightarrow> None
      | c # cs \<Rightarrow>
          Some (case make_parents mk [c] cs d of (err, d) \<Rightarrow>
            if err \<noteq> 0 then (- int err, d)
            else case mk path d of (err, d) \<Rightarrow> if err \<noteq> 0 then (- int err, d) else (0, d)))"

text \<open>The members the constructor fills in.\<close>

record tg_loggerd =
  tg_api_id :: "32 word"
  tg_api_hash :: string
  tg_data_dir :: string
  tg_l :: "log_hd option"

definition TgLoggerd :: "32 word \<Rightarrow> string \<Rightarrow> string \<Rightarrow> tg_loggerd" where
  "TgLoggerd api_id api_hash data_dir =
     \<lparr>tg_api_id = api_id, tg_api_hash = snprintf 64 api_hash, tg_data_dir = snprintf 512 data_dir,
      tg_l = None\<rparr>"

definition setLogger :: "log_hd \<Rightarrow> tg_loggerd \<Rightarrow> tg_loggerd" where
  "setLogger h tg = tg\<lparr>tg_l := Some h\<rparr>"

text \<open>Without a logger the null pointer is followed: no value.\<close>

definition setLoggerLevel :: "int \<Rightarrow> tg_loggerd \<Rightarrow> tg_loggerd option" where
  "setLoggerLevel level tg = (case tg_l tg of None \<Rightarrow> None | Some h \<Rightarrow> Some (tg\<lparr>tg_l := Some (pr_set_log_level h level)\<rparr>))"

definition tgld_create :: "bool \<Rightarrow> 32 word \<Rightarrow> string \<Rightarrow> string \<Rightarrow> tg_loggerd option" where
  "tgld_create memory api_id api_hash data_dir = (if memory then Some (TgLoggerd api_id api_hash data_dir) else None)"

definition initDataDirC :: "'d mkdir \<Rightarrow> bool \<Rightarrow> tg_loggerd \<Rightarrow> string \<Rightarrow> 'd \<Rightarrow> (int \<times> 'd) option" where
  "initDataDirC mk dup tg dir d =
     (case mkdir_recursive mk dup (snprintf 768 (tg_data_dir tg @ ''/'' @ dir)) d of
        None \<Rightarrow> None
      | Some (r, d) \<Rightarrow> Some (if r < 0 then (if r = - int EEXIST then (0, d) else (r, d)) else (0, d)))"

definition initDataDir :: "'d mkdir \<Rightarrow> bool \<Rightarrow> tg_loggerd \<Rightarrow> 'd \<Rightarrow> (int \<times> 'd) option" where
  "initDataDir mk dup tg d =
     (case initDataDirC mk dup tg ''logs'' d of
        None \<Rightarrow> None
      | Some (r, d) \<Rightarrow>
          if r < 0 then Some (r, d)
          else (case initDataDirC mk dup tg ''tdlib'' d of
            None \<Rightarrow> None
          | Some (r, d) \<Rightarrow> if r < 0 then Some (r, d) else Some (0, d)))"

text \<open>
  What is relied on of \<open>mkdir\<close> is its manual. \<open>kind d p\<close> says what the file system \<open>d\<close> has under the name
  \<open>p\<close>: nothing, a directory, or anything else, a regular file or a dangling link for instance. Success
  means that the name was free and is a directory now. EEXIST means that the name was taken, by whatever
  it may be. In both cases what lies above the name are directories (else the call fails with ENOENT or
  ENOTDIR); and whatever a call does to a name, it only turns a free one into a directory.
\<close>

datatype entry = Directory | Something_Else

definition above :: "string \<Rightarrow> string set" where
  "above p = {take n p | n. 0 < n \<and> n < length p \<and> p ! n = CHR ''/'' \<and> (\<exists>c\<in>set (drop n p). c \<noteq> CHR ''/'')}"

definition mkdir_manual :: "('d \<Rightarrow> string \<Rightarrow> entry option) \<Rightarrow> 'd mkdir \<Rightarrow> bool" where
  "mkdir_manual kind mk \<longleftrightarrow>
     (\<forall>p d err d'. mk p d = (err, d') \<longrightarrow>
        (err = 0 \<longrightarrow> kind d p = None \<and> kind d' p = Some Directory) \<and>
        (err = EEXIST \<longrightarrow> kind d p \<noteq> None) \<and>
        (err \<in> {0, EEXIST} \<longrightarrow> (\<forall>q\<in>above p. kind d q = Some Directory)) \<and>
        (\<forall>x. kind d' x = kind d x \<or> kind d x = None \<and> kind d' x = Some Directory))"

lemma mkdir_manualD:
  assumes "mkdir_manual kind mk" and "mk p d = (err, d')"
  shows "err = 0 \<Longrightarrow> kind d p = None \<and> kind d' p = Some Directory" and "err = EEXIST \<Longrightarrow> kind d p \<noteq> None"
    and "err \<in> {0, EEXIST} \<Longrightarrow> q \<in> above p \<Longrightarrow> kind d q = Some Directory"
    and "kind d' x = kind d x \<or> kind d x = None \<and> kind d' x = Some Directory"
  using assms unfolding mkdir_manual_def by blast+

text \<open>The calls that are meant: a directory at every slash but a leading one, the shortest first, then the path.
  A name that is taken is passed over; any other error ends the sequence.\<close>

definition chain :: "string \<Rightarrow> string list" where
  "chain p = [take n p. n \<leftarrow> [1..<length p], p ! n = CHR ''/''] @ [p]"

fun ensure :: "'d mkdir \<Rightarrow> string list \<Rightarrow> 'd \<Rightarrow> int \<times> 'd" where
  "ensure mk [] d = (0, d)"
| "ensure mk (p # ps) d =
     (case mk p d of (err, d) \<Rightarrow> if err \<in> {0, EEXIST} then ensure mk ps d else (- int err, d))"

lemma ensure_append:
  "ensure mk (ps @ qs) d = (case ensure mk ps d of (r, d) \<Rightarrow> if r = 0 then ensure mk qs d else (r, d))"
  by (induction ps arbitrary: d) (auto split: prod.split)

lemma ensure_sign: "ensure mk ps d = (r, d') \<Longrightarrow> r \<le> 0 \<and> r \<noteq> - int EEXIST"
  by (induction ps arbitrary: d) (auto split: prod.splits if_splits)

lemma make_parents_ensure:
  "make_parents mk pre cs d =
     (case ensure mk [pre @ take n cs. n \<leftarrow> [0..<length cs], cs ! n = CHR ''/''] d of (r, d) \<Rightarrow> (nat (- r), d))"
proof (induction cs arbitrary: pre d)
  case (Cons c cs)
  have "[pre @ take n (c # cs). n \<leftarrow> [0..<length (c # cs)], (c # cs) ! n = CHR ''/''] =
      (if c = CHR ''/'' then [pre] else []) @ [(pre @ [c]) @ take n cs. n \<leftarrow> [0..<length cs], cs ! n = CHR ''/'']"
    by (simp add: upt_conv_Cons map_Suc_upt [symmetric] comp_def cong: if_cong del: upt_Suc)
  with Cons.IH [of "pre @ [c]"] show ?case by (simp only:) (auto split: prod.split)
qed simp

lemma chain_Cons: "chain (c # cs) = [[c] @ take n cs. n \<leftarrow> [0..<length cs], cs ! n = CHR ''/''] @ [c # cs]"
  by (simp add: chain_def map_Suc_upt [symmetric] comp_def cong: if_cong del: upt_Suc)

lemma initDataDirC_ensure:
  assumes "length dir < 200"
  shows "initDataDirC mk dup (TgLoggerd i h data) dir d =
    Some (if dup then ensure mk (chain (take 511 data @ ''/'' @ dir)) d else (- int EINVAL, d))"
proof -
  let ?path = "take 511 data @ ''/'' @ dir"
  have path: "snprintf 768 (tg_data_dir (TgLoggerd i h data) @ ''/'' @ dir) = ?path"
    using assms by (simp add: snprintf_def TgLoggerd_def)
  obtain c cs where cs: "?path = c # cs" by (cases ?path) auto
  obtain r1 d1 where one: "ensure mk [[c] @ take n cs. n \<leftarrow> [0..<length cs], cs ! n = CHR ''/''] d = (r1, d1)"
    by (cases "ensure mk [[c] @ take n cs. n \<leftarrow> [0..<length cs], cs ! n = CHR ''/''] d")
  note sign = ensure_sign [OF one]
  show ?thesis
    using sign one make_parents_ensure [of mk "[c]" cs d]
    unfolding initDataDirC_def path cs mkdir_recursive_def chain_Cons ensure_append
    by (auto split: prod.splits)
qed

lemma initDataDir_ensure:
  "initDataDir mk dup (TgLoggerd i h data) d = Some (if dup then
     ensure mk (chain (take 511 data @ ''/logs'') @ chain (take 511 data @ ''/tdlib'')) d else (- int EINVAL, d))"
  unfolding initDataDir_def
  using initDataDirC_ensure [of "''logs''" mk dup i h data] initDataDirC_ensure [of "''tdlib''" mk dup i h data]
  by (auto simp: ensure_append split: prod.splits dest!: ensure_sign)

lemma initDataDir_total: "initDataDir mk dup (TgLoggerd i h data) d \<noteq> None"
  by (simp add: initDataDir_ensure)

lemma ensure_kinds:
  assumes man: "mkdir_manual kind mk"
  shows "ensure mk ps d = (r, d') \<Longrightarrow> kind d' x = kind d x \<or> kind d x = None \<and> kind d' x = Some Directory"
proof (induction ps arbitrary: d)
  case (Cons p ps)
  obtain err d1 where mk: "mk p d = (err, d1)" by (cases "mk p d")
  from mkdir_manualD(4) [OF man mk, of x] Cons.IH [of d1] Cons.prems mk show ?case by (auto split: if_splits)
qed simp

lemma ensure_made:
  assumes man: "mkdir_manual kind mk"
  shows "ensure mk ps d = (0, d') \<Longrightarrow> p \<in> set ps \<Longrightarrow>
    (\<forall>q\<in>above p. kind d' q = Some Directory) \<and> (kind d' p = Some Directory \<or> kind d p = Some Something_Else)"
proof (induction ps arbitrary: d)
  case (Cons p' ps)
  obtain err d1 where mk: "mk p' d = (err, d1)" by (cases "mk p' d")
  with Cons.prems(1) have err: "err \<in> {0, EEXIST}" and rest: "ensure mk ps d1 = (0, d')" by (auto split: if_splits)
  note kinds = mkdir_manualD(4) [OF man mk] ensure_kinds [OF man rest]
  show ?case
  proof (cases "p = p'")
    case True
    have "kind d' q = Some Directory" if "q \<in> above p'" for q
      using mkdir_manualD(3) [OF man mk err that] kinds [of q] by auto
    moreover have "kind d' p' = Some Directory \<or> kind d p' = Some Something_Else"
      using err mkdir_manualD(1,2) [OF man mk] kinds [of p'] by (cases "kind d p'"; cases "the (kind d p')") auto
    ultimately show ?thesis using True by blast
  next
    case False
    with Cons.IH [OF rest] Cons.prems(2) kinds(1) [of p] show ?thesis by auto
  qed
qed simp

text \<open>C38: the data directories. \<open>initDataDir\<close> never reads outside its strings and always returns; unless there is
  no memory, it makes exactly these calls of \<open>mkdir\<close>: for \<open>logs\<close> and then for \<open>tdlib\<close> under the data directory
  (its first 511 characters), one for every directory above, from the top, and one for the directory
  itself, passing over names that are taken and stopping with the first other error, which it returns.
  If \<open>mkdir\<close> follows its manual and the result is 0, then everything above the two are directories, and each of
  the two is a directory or was something else before: EEXIST is taken for success whatever has the name.\<close>

theorem init_data_dir:
  assumes man: "mkdir_manual kind mk"
  shows "\<exists>r d'. initDataDir mk dup (TgLoggerd i h data) d = Some (r, d') \<and>
    (r, d') = (if dup then ensure mk (chain (take 511 data @ ''/logs'') @ chain (take 511 data @ ''/tdlib'')) d
      else (- int EINVAL, d)) \<and>
    (r = 0 \<longrightarrow> (\<forall>p\<in>{take 511 data @ ''/logs'', take 511 data @ ''/tdlib''}.
       (\<forall>q\<in>above p. kind d' q = Some Directory) \<and> (kind d' p = Some Directory \<or> kind d p = Some Something_Else)))"
proof -
  let ?ps = "chain (take 511 data @ ''/logs'') @ chain (take 511 data @ ''/tdlib'')"
  obtain r d' where run: "(if dup then ensure mk ?ps d else (- int EINVAL, d)) = (r, d')"
    by (cases "if dup then ensure mk ?ps d else (- int EINVAL, d)")
  have "{take 511 data @ ''/logs'', take 511 data @ ''/tdlib''} \<subseteq> set ?ps" by (simp add: chain_def)
  with run ensure_made [OF man, of ?ps d d'] have "r = 0 \<longrightarrow> (\<forall>p\<in>{take 511 data @ ''/logs'', take 511 data @ ''/tdlib''}.
       (\<forall>q\<in>above p. kind d' q = Some Directory) \<and> (kind d' p = Some Directory \<or> kind d p = Some Something_Else))"
    by (auto split: if_splits)
  with run show ?thesis unfolding initDataDir_ensure by (intro exI [of _ r] exI [of _ d']) simp
qed

text \<open>A file system that is a map from names to entries.\<close>

definition tree_mkdir :: "(string \<rightharpoonup> entry) mkdir" where
  "tree_mkdir p d =
     (if \<exists>q\<in>above p. d q \<noteq> Some Directory then (2, d)
      else if d p \<noteq> None then (EEXIST, d)
      else (0, d(p \<mapsto> Directory)))"

lemma above_code: "above p = set [take n p. n \<leftarrow> [1..<length p], p ! n = CHR ''/'' \<and> list_ex (\<lambda>c. c \<noteq> CHR ''/'') (drop n p)]"
proof -
  have "above p = (\<lambda>n. take n p) ` {n \<in> {1..<length p}. p ! n = CHR ''/'' \<and> list_ex (\<lambda>c. c \<noteq> CHR ''/'') (drop n p)}"
    unfolding above_def by (auto simp: list_ex_iff Suc_le_eq)
  then show ?thesis by auto
qed

lemma tree_manual: "mkdir_manual (\<lambda>d. d) tree_mkdir"
  by (auto simp: mkdir_manual_def tree_mkdir_def split: if_splits)

lemma tree_run:
  "initDataDir tree_mkdir True (TgLoggerd 1 ''h'' ''a/b'') Map.empty =
     Some (0, [''a'' \<mapsto> Directory, ''a/b'' \<mapsto> Directory, ''a/b/logs'' \<mapsto> Directory, ''a/b/tdlib'' \<mapsto> Directory])"
  by (simp add: initDataDir_ensure chain_def tree_mkdir_def above_code numeral_eq_Suc)

theorem init_data_dir_witness:
  "\<exists>d'. initDataDir tree_mkdir True (TgLoggerd 1 ''h'' ''a/b'') Map.empty = Some (0, d') \<and>
     d' ''a'' = Some Directory \<and> d' ''a/b/tdlib'' = Some Directory"
proof -
  from init_data_dir [OF tree_manual, of True 1 "''h''" "''a/b''" Map.empty] tree_run
  obtain d' where "initDataDir tree_mkdir True (TgLoggerd 1 ''h'' ''a/b'') Map.empty = Some (0, d')"
    and made: "\<forall>p\<in>{''a/b/logs'', ''a/b/tdlib''}. (\<forall>q\<in>above p. d' q = Some Directory) \<and> d' p = Some Directory"
    by auto
  moreover have "''a'' \<in> above ''a/b/tdlib''" by (simp add: above_code numeral_eq_Suc)
  ultimately show ?thesis by auto
qed

text \<open>With a regular file where the directory of the logs should be, the result is 0 all the same.\<close>

lemma file_in_the_way:
  "\<exists>d'. initDataDir tree_mkdir True (TgLoggerd 1 ''h'' ''d'') [''d'' \<mapsto> Directory, ''d/logs'' \<mapsto> Something_Else] = Some (0, d') \<and>
     d' ''d/logs'' = Some Something_Else"
  by (simp add: initDataDir_ensure chain_def tree_mkdir_def above_code numeral_eq_Suc)

section \<open>start\<close>

datatype phase =
    P_Connect db_config
  | P_Storage string
  | P_Pools "64 word" "64 word"        \<comment> \<open>file workers, bound of both queues; one serial worker\<close>
  | P_Client "32 word" string string
  | P_Handlers
  | P_Polling string "32 word"         \<comment> \<open>interval in seconds as written, groups per tick\<close>
  | P_Loop
  | P_Drain_Files
  | P_Drain_Serial

text \<open>\<open>storage\<close>: whether the storage directory could be created. The result of \<open>start\<close> and the phases it went
  through.\<close>

definition start :: "environment \<Rightarrow> tg_loggerd \<Rightarrow> 'd mkdir \<Rightarrow> bool \<Rightarrow> 'd \<Rightarrow> server \<Rightarrow> session \<Rightarrow> bool \<Rightarrow>
    (int \<times> phase list) option" where
  "start env tg mk dup d sv s storage =
     (case initDataDir mk dup tg d of
        None \<Rightarrow> None
      | Some (dirs, d) \<Rightarrow> Some (
          if dirs \<noteq> 0 then (- 1, [])
          else case fst (ping sv s) of
            Inl e \<Rightarrow> (- 1, [P_Connect (db_cfg env)])
          | Inr _ \<Rightarrow>
              (let storage_dir = env_or env ''TG_STORAGE_DIR'' ''./data/storage/files'' in
               if \<not> storage then (- 1, [P_Connect (db_cfg env), P_Storage storage_dir])
               else
                 (0, [P_Connect (db_cfg env), P_Storage storage_dir,
                      P_Pools (file_threads (worker_sizes env)) (queue_max (worker_sizes env)),
                      P_Client (tg_api_id tg) (tg_api_hash tg) (snprintf 544 (tg_data_dir tg @ ''/tdlib'')),
                      P_Handlers,
                      P_Polling (env_or env ''TG_ADMIN_POLL_INTERVAL'' ''300'') (atoi (env_or env ''TG_ADMIN_POLL_BATCH'' ''4'')),
                      P_Loop, P_Drain_Files, P_Drain_Serial]))))"

section \<open>main\<close>

datatype call =
    C_Create "32 word" string string
  | C_Open_Log string int
  | C_Log_To_Stdout int
  | C_Set_Logger
  | C_Signals
  | C_Start
  | C_Stop
  | C_Free

definition log_level_of :: "string \<Rightarrow> int option" where
  "log_level_of s =
     (if s = ''error'' then Some PR_LOG_ERROR
      else if s = ''warning'' then Some PR_LOG_WARNING
      else if s = ''info'' then Some PR_LOG_INFO
      else if s = ''debug'' then Some PR_LOG_DEBUG
      else None)"

text \<open>The C interface drops what \<open>start\<close> returns.\<close>

definition tgld_start :: "int \<times> phase list \<Rightarrow> unit \<times> phase list" where
  "tgld_start r = ((), snd r)"

text \<open>\<open>created\<close>, \<open>opened\<close>: whether the object and the log could be created; \<open>started\<close>: what \<open>start\<close> does.
  The exit status, the calls, and the phases of \<open>start\<close>.\<close>

definition main_calls :: "environment \<Rightarrow> bool \<Rightarrow> bool \<Rightarrow> (tg_loggerd \<Rightarrow> int \<times> phase list) \<Rightarrow>
    int \<times> call list \<times> phase list" where
  "main_calls env created opened started =
     (case env ''TG_API_ID'' of None \<Rightarrow> (1, [], [])
      | Some api_id \<Rightarrow>
     (case env ''TG_API_HASH'' of None \<Rightarrow> (1, [], [])
      | Some api_hash \<Rightarrow>
     (case env ''TG_DATA_DIR'' of None \<Rightarrow> (1, [], [])
      | Some data_dir \<Rightarrow>
     (let create = C_Create (atoi api_id) api_hash data_dir in
      case tgld_create created (atoi api_id) api_hash data_dir of
        None \<Rightarrow> (1, [create], [])
      | Some tg \<Rightarrow>
        (let to_file = (case env ''TG_LOG_FILE'' of None \<Rightarrow> False | Some f \<Rightarrow> f \<noteq> '''');
             level = (if to_file then
                        (case env ''TG_LOG_LEVEL'' of None \<Rightarrow> Some PR_LOG_INFO | Some l \<Rightarrow> log_level_of l)
                      else Some PR_LOG_INFO) in
         case level of
           None \<Rightarrow> (1, [create, C_Free], [])
         | Some lv \<Rightarrow>
             (let log = (if to_file then C_Open_Log (env_or env ''TG_LOG_FILE'' '''') lv else C_Log_To_Stdout lv) in
              if \<not> opened then (1, [create, log, C_Free], [])
              else
                (0, [create, log, C_Set_Logger, C_Signals, C_Start, C_Stop, C_Free],
                 snd (tgld_start (started tg)))))))))"

text \<open>\<open>start\<close> returns 0 or -1. No worker thread exists after a failed start: the pools are built only when the
  directories, the database and the storage directory are there. After a start that succeeded, the
  loop has run with both pools, the handlers and the polling in place, and the file workers were
  drained before the serial worker; the pool of connections was sized for them.\<close>

lemma start_protocol:
  assumes "start env tg mk dup d sv s storage = Some (r, ps)"
  shows "(r = - 1 \<or> r = 0 \<and> fault sv (clk s) = None \<and> fault sv (Suc (clk s)) = None \<and> storage) \<and>
    (r = - 1 \<longrightarrow> (\<forall>n c. P_Pools n c \<notin> set ps) \<and> P_Loop \<notin> set ps) \<and>
    (r = 0 \<longrightarrow> (\<exists>xs ys. ps = xs @ P_Loop # ys \<and> ys = [P_Drain_Files, P_Drain_Serial] \<and> P_Handlers \<in> set xs \<and>
       P_Pools (file_threads (worker_sizes env)) (queue_max (worker_sizes env)) \<in> set xs \<and>
       (\<exists>cfg. P_Connect cfg \<in> set xs \<and> pool_size cfg = db_pool (worker_sizes env))))"
proof (cases "r = 0")
  case False
  with assms show ?thesis by (auto simp: start_def Let_def split: if_splits option.splits sum.splits)
next
  case True
  define xs where "xs = [P_Connect (db_cfg env), P_Storage (env_or env ''TG_STORAGE_DIR'' ''./data/storage/files''),
    P_Pools (file_threads (worker_sizes env)) (queue_max (worker_sizes env)),
    P_Client (tg_api_id tg) (tg_api_hash tg) (snprintf 544 (tg_data_dir tg @ ''/tdlib'')), P_Handlers,
    P_Polling (env_or env ''TG_ADMIN_POLL_INTERVAL'' ''300'') (atoi (env_or env ''TG_ADMIN_POLL_BATCH'' ''4''))]"
  have "fst (ping sv s) = Inr () \<and> storage \<and> ps = xs @ P_Loop # [P_Drain_Files, P_Drain_Serial]"
    using assms True unfolding start_def Let_def xs_def by (auto split: if_splits option.splits sum.splits)
  moreover have "pool_size (db_cfg env) = db_pool (worker_sizes env)" by (simp add: db_cfg_def)
  ultimately show ?thesis using True unfolding ping_run xs_def by auto
qed

text \<open>C40: the protocol of \<open>main\<close>. Its exit status is 0 or 1, and the object it creates is freed exactly once,
  as the last call, on every path. The daemon is started only after its logger has been set and the
  signal handlers are installed. The exit status is 0 as soon as the daemon was started, whatever
  \<open>start\<close> returned: a failed start is not reported.\<close>

theorem main_protocol:
  assumes "main_calls env created opened started = (r, cs, ps)"
  shows "(r = 0 \<longleftrightarrow> C_Start \<in> set cs) \<and> (r = 0 \<or> r = 1) \<and>
    (created \<and> cs \<noteq> [] \<longrightarrow> last cs = C_Free \<and> count_list cs C_Free = 1) \<and>
    (\<not> created \<longrightarrow> C_Free \<notin> set cs) \<and>
    (C_Start \<in> set cs \<longrightarrow> {C_Set_Logger, C_Signals} \<subseteq> set (takeWhile (\<lambda>c. c \<noteq> C_Start) cs)) \<and>
    fst (main_calls env created opened started') = r"
  using assms by (auto simp: main_calls_def tgld_create_def Let_def split: option.splits if_splits)

definition sample_env :: environment where
  "sample_env = [''TG_API_ID'' \<mapsto> ''12'', ''TG_API_HASH'' \<mapsto> ''h'', ''TG_DATA_DIR'' \<mapsto> ''d'']"

text \<open>The database does not answer, and the exit status is 0.\<close>

definition down :: server where
  "down = quiet\<lparr>fault := (\<lambda>_. Some (ServerFault ''gone''))\<rparr>"

theorem main_protocol_witness:
  "\<exists>cs ps. main_calls sample_env True True (\<lambda>tg. the (start sample_env tg tree_mkdir True Map.empty down empty_session True)) =
     (0, cs, ps) \<and> last cs = C_Free \<and> C_Start \<in> set cs \<and> P_Loop \<notin> set ps"
proof -
  let ?start = "\<lambda>tg. the (start sample_env tg tree_mkdir True Map.empty down empty_session True)"
  obtain r cs ps where run: "main_calls sample_env True True ?start = (r, cs, ps)"
    by (cases "main_calls sample_env True True ?start")
  have started: "C_Start \<in> set cs" and ps: "ps = snd (?start (TgLoggerd (atoi ''12'') ''h'' ''d''))"
    using run by (auto simp: main_calls_def tgld_create_def sample_env_def Let_def tgld_start_def)
  obtain q qs where st: "start sample_env (TgLoggerd (atoi ''12'') ''h'' ''d'') tree_mkdir True Map.empty down empty_session True =
      Some (q, qs)"
    by (cases "start sample_env (TgLoggerd (atoi ''12'') ''h'' ''d'') tree_mkdir True Map.empty down empty_session True")
      (auto simp: start_def initDataDir_total split: option.splits)
  then have "P_Loop \<notin> set ps"
    using start_protocol [OF st] by (auto simp: ps down_def)
  moreover have "cs \<noteq> []" using started by auto
  ultimately show ?thesis using main_protocol [OF run] run started by (intro exI [of _ cs] exI [of _ ps]) auto
qed

end
