(* ===== verification/Tg_Grounded.thy ===== *)
theory Tg_Grounded
  imports Tg_Drain
begin

text \<open>
  What messages refer to. TDLib introduces a user or a chat, in an update of its own, before the identifier
  occurs anywhere else; the client raises the event of that update first, and so the job that stores
  a message finds the rows its foreign keys point to.
\<close>

section \<open>References\<close>

text \<open>The rows a job's statements refer to by foreign keys. A report of a deletion stores no message.\<close>

definition opt_ref :: "tname \<Rightarrow> int option \<Rightarrow> (tname \<times> int) list" where
  "opt_ref t v = (case v of None \<Rightarrow> [] | Some i \<Rightarrow> [(t, i)])"

definition forward_refs :: "ForwardInfo option \<Rightarrow> (tname \<times> int) list" where
  "forward_refs info = (case info of None \<Rightarrow> [] | Some fw \<Rightarrow> opt_ref T_users (origin_sender_user_id fw))"

fun refs_of :: "serial_job \<Rightarrow> (tname \<times> int) list" where
  "refs_of (J_Admins l) = (T_groups, al_group_id l) # map (\<lambda>a. (T_users, a_user_id a)) (al_admins l)"
| "refs_of (J_Private pm) = (if pm_is_deleted pm then [] else [(T_users, pm_chat_id pm)]) @
     opt_ref T_users (pm_sender_id pm) @ forward_refs (pm_forward_info pm)"
| "refs_of (J_Group_Message gm) = (if gm_is_deleted gm then [] else [(T_groups, gm_chat_id gm)]) @
     opt_ref T_users (gm_sender_user_id gm) @ opt_ref T_groups (gm_sender_chat_id gm) @
     forward_refs (gm_forward_info gm)"
| "refs_of (J_Profile_Photo u f) = [(T_files, f)]"
| "refs_of (J_Group_Photo g f) = [(T_files, f)]"
| "refs_of (J_Message_File c m g f) = [(T_files, f)]"
| "refs_of _ = []"

lemma refs_tables: "(T_group_admins, i) \<notin> set (refs_of j)"
  by (cases j) (auto simp: opt_ref_def forward_refs_def split: option.splits)

text \<open>The version of a message, or its deletion, that a job writes down.\<close>

type_synonym version = "MessageContent \<times> int \<times> bool"

fun saying :: "serial_job \<Rightarrow> ((bool \<times> int \<times> int) \<times> version) option" where
  "saying (J_Private pm) = Some ((False, pm_chat_id pm, pm_message_id pm), pm_content pm, pm_edit_date pm, pm_is_deleted pm)"
| "saying (J_Group_Message gm) = Some ((True, gm_chat_id gm, gm_message_id gm), gm_content gm, gm_edit_date gm, gm_is_deleted gm)"
| "saying _ = None"

text \<open>What later jobs may refer to.\<close>

fun introduced :: "serial_job \<Rightarrow> (tname \<times> int) list" where
  "introduced (J_User u) = [(T_users, u_id u)]"
| "introduced (J_Group g) = [(T_groups, g_id g)]"
| "introduced _ = []"

text \<open>Jobs that mention only what was stored at first or introduced by an earlier job.\<close>

fun grounded :: "(tname \<times> int) list \<Rightarrow> serial_job list \<Rightarrow> bool" where
  "grounded K [] \<longleftrightarrow> True"
| "grounded K (j # js) \<longleftrightarrow> (saying j \<noteq> None \<longrightarrow> set (refs_of j) \<subseteq> set K) \<and> grounded (introduced j @ K) js"

lemma grounded_links: "grounded K js \<longleftrightarrow> grounded K (filter (\<lambda>j. \<not> is_link j) js)"
proof (induction js arbitrary: K)
  case (Cons j js)
  have "is_link j \<Longrightarrow> saying j = None \<and> introduced j = []" by (cases j) simp_all
  with Cons show ?case by auto
qed simp


lemma grounded_snoc:
  "grounded K (js @ [j]) \<longleftrightarrow> grounded K js \<and>
     (saying j \<noteq> None \<longrightarrow> set (refs_of j) \<subseteq> set K \<union> (\<Union>i\<in>set js. set (introduced i)))"
  by (induction js arbitrary: K) auto

lemma grounded_prefix: "grounded K (js @ ks) \<Longrightarrow> grounded K js"
  by (induction js arbitrary: K) auto

section \<open>What the client knows\<close>

definition knows :: "td \<Rightarrow> bool" where
  "knows s \<longleftrightarrow> (\<forall>i. known_users s i \<noteq> None \<longrightarrow> user_introduced i s) \<and>
     (\<forall>c. chat_to_group s c \<noteq> None \<longrightarrow> chat_introduced c s)"

lemma introduced_mono:
  assumes "events t = events s @ es" and "installed t = installed s"
  shows "user_introduced i s \<Longrightarrow> user_introduced i t" and "chat_introduced c s \<Longrightarrow> chat_introduced c t"
  using assms by (auto simp: user_introduced_def chat_introduced_def)

lemma knows_mono:
  assumes "knows s" and "known_users t = known_users s" and "chat_to_group t = chat_to_group s"
    and "events t = events s @ es" and "installed t = installed s"
  shows "knows t"
  using assms(1-3) introduced_mono [OF assms(4,5)] by (simp add: knows_def)

lemma knows_act:
  assumes "act A s t" and knows: "knows s"
  shows "knows t"
  using assms(1)
proof cases
  case act_frame
  then show ?thesis by (intro knows_mono [OF knows, of t "[]"]) (simp_all add: same_trace_def)
next
  case (act_emit e)
  then show ?thesis by (intro knows_mono [OF knows, of t "[e]"]) simp_all
next
  case (act_user i u)
  with knows show ?thesis by (auto simp: knows_def user_introduced_def chat_introduced_def)
next
  case (act_chat c gs g)
  with knows show ?thesis by (auto simp: knows_def user_introduced_def chat_introduced_def)
qed (use knows_mono [OF knows, of t "[]"] in simp_all)

lemma knows_acts: "acts A s t \<Longrightarrow> knows s \<Longrightarrow> knows t"
  using acts_invariant [of A s t knows] knows_act by blast

lemma knows_flags [simp]: "knows (set_flags au st sa cl s) = knows s" "knows (consume i s) = knows s"
  "knows (send_query qu k s) = knows s"
  by (simp_all add: knows_def user_introduced_def chat_introduced_def set_flags_def consume_def)

lemma knows_step:
  assumes "td_step s t" and "trace_inv s" and knows: "knows s"
  shows "knows t"
  using assms(1,2)
proof (cases rule: step_cases)
  case plain
  then show ?thesis using knows by (rule knows_acts)
next
  case (consumed i k)
  show ?thesis by (rule knows_acts [OF consumed(3)]) (simp add: knows)
next
  case (alarm i)
  have "knows (poll_admin_batch (consume i s))"
    by (rule knows_acts [OF acts_poll [OF acts_refl [of UNIV]]]) (simp add: knows)
  then show ?thesis unfolding alarm(2) by (simp add: on_admin_alarm_def arm_admin_alarm_def knows)
next
  case (authorization a)
  then show ?thesis
    using knows by (auto simp: authorization_flags authorization_ready Let_def arm_admin_alarm_def
        simp del: on_authorization_state_update.simps)
next
  case closing
  then show ?thesis by (simp add: close_flags knows)
qed

lemma known_users_handlers: "known_users (fold set_handler hs s) = known_users s"
  by (induction hs arbitrary: s) (simp_all add: set_handler_def)

lemma knows_reach: "reach td_start td_step s \<Longrightarrow> trace_inv s \<and> knows s"
proof (erule reach_invariant)
  fix s assume "td_start s"
  then have "known_users s = (\<lambda>_. None)" "chat_to_group s = (\<lambda>_. None)"
    by (auto simp: td_start_def setAdminPollConfig_def Impl_def send_query_def Let_def known_users_handlers)
  with trace_inv_start [OF \<open>td_start s\<close>] show "trace_inv s \<and> knows s" by (simp add: knows_def)
qed (blast intro: trace_inv_step knows_step)

section \<open>Grounded events\<close>

text \<open>
  TDLib guarantees that \<open>updateUser\<close> and \<open>updateNewChat\<close> come before a user's or chat's identifier is
  returned; the client keeps both. \<open>introduces_first\<close> asks this for the messages of a response.
\<close>

definition familiar :: "td \<Rightarrow> tname \<times> int \<Rightarrow> bool" where
  "familiar s r \<longleftrightarrow> (case r of (t, i) \<Rightarrow> if t = T_users then known_users s i \<noteq> None else chat_to_group s i \<noteq> None)"

definition message_refs :: "td_message \<Rightarrow> (tname \<times> int) list" where
  "message_refs m = refs_of (if is_private_chat (tm_chat_id m) then J_Private (build_private_message m)
     else J_Group_Message (build_group_message m))"

definition introduces_first :: "td \<Rightarrow> td_object option \<Rightarrow> bool" where
  "introduces_first s obj \<longleftrightarrow> (\<forall>m. brings obj m \<longrightarrow> (\<forall>r\<in>set (message_refs m). familiar s r))"

inductive intro_step :: "td \<Rightarrow> td \<Rightarrow> bool" where
  intro_response: "honest s i obj \<Longrightarrow> introduces_first s obj \<Longrightarrow> intro_step s (process_response i obj s)"
| intro_close: "intro_step s (close_client s)"

lemma intro_td_step: "intro_step s t \<Longrightarrow> td_step s t"
  by (auto elim!: intro_step.cases intro: td_step.intros)

lemma intro_reach: "reach td_start intro_step s \<Longrightarrow> reach td_start td_step s"
  by (induction rule: reach.induct) (auto intro: reach_init reach_step intro_td_step)

definition all_introduced :: "td_event list \<Rightarrow> tname \<times> int \<Rightarrow> bool" where
  "all_introduced es r \<longleftrightarrow> (\<exists>j\<in>set (posts serial_of es). r \<in> set (introduced j))"

lemma event_posted: "e \<in> set es \<Longrightarrow> serial_of e = Some j \<Longrightarrow> j \<in> set (posts serial_of es)"
  by (force simp: posts_def)

lemma message_tables_refs:
  assumes "(t, i) \<in> set (message_refs m)"
  shows "t = T_users \<or> t = T_groups"
  using assms by (auto simp: message_refs_def opt_ref_def forward_refs_def split: if_splits option.splits)

lemma familiar_introduced:
  assumes knows: "knows s" and inst: "{H_User, H_Group} \<subseteq> installed s" and "familiar s (t, i)"
    and "t = T_users \<or> t = T_groups"
  shows "all_introduced (events s) (t, i)"
  using assms(4)
proof
  assume t: "t = T_users"
  with assms(3) knows have "user_introduced i s" by (auto simp: familiar_def knows_def)
  with inst obtain u where u: "E_User u \<in> set (events s)" "u_id u = i" by (auto simp: user_introduced_def)
  have "J_User u \<in> set (posts serial_of (events s))" by (rule event_posted [OF u(1)]) simp
  with u(2) t show ?thesis unfolding all_introduced_def by (intro bexI [of _ "J_User u"]) simp_all
next
  assume t: "t = T_groups"
  with assms(3) knows have "chat_introduced i s" by (auto simp: familiar_def knows_def)
  with inst obtain g where g: "E_Group g \<in> set (events s)" "g_id g = i" by (auto simp: chat_introduced_def)
  have "J_Group g \<in> set (posts serial_of (events s))" by (rule event_posted [OF g(1)]) simp
  with g(2) t show ?thesis unfolding all_introduced_def by (intro bexI [of _ "J_Group g"]) simp_all
qed

lemma built_message_refs:
  "is_private_chat (pm_chat_id (build_private_message m)) \<Longrightarrow> refs_of (J_Private (build_private_message m)) = message_refs m"
  "\<not> is_private_chat (gm_chat_id (build_group_message m)) \<Longrightarrow> refs_of (J_Group_Message (build_group_message m)) = message_refs m"
proof -
  have "pm_chat_id (build_private_message m) = tm_chat_id m" by (simp add: build_private_message_def)
  then show "is_private_chat (pm_chat_id (build_private_message m)) \<Longrightarrow>
      refs_of (J_Private (build_private_message m)) = message_refs m" by (simp only: message_refs_def if_True)
  have "gm_chat_id (build_group_message m) = tm_chat_id m" by (simp add: build_group_message_def)
  then show "\<not> is_private_chat (gm_chat_id (build_group_message m)) \<Longrightarrow>
      refs_of (J_Group_Message (build_group_message m)) = message_refs m" by (simp only: message_refs_def if_False)
qed

text \<open>The new events of a response, one after the other.\<close>

lemma grounded_event:
  assumes "event_ok es e" and said: "event_in A e" and "grounded [] (posts serial_of es)"
    and A: "\<And>m r. L_Said m \<in> A \<Longrightarrow> r \<in> set (message_refs m) \<Longrightarrow> all_introduced es r"
  shows "grounded [] (posts serial_of (es @ [e]))"
proof (cases "serial_of e")
  case None
  with assms(3) show ?thesis by simp
next
  case (Some j)
  have "set (refs_of j) \<subseteq> (\<Union>i\<in>set (posts serial_of es). set (introduced i))" if saying: "saying j \<noteq> None"
  proof -
    from saying Some consider pm where "e = E_Private pm" "j = J_Private pm"
      | gm where "e = E_Group_Message gm" "j = J_Group_Message gm" by (cases e) auto
    then have "refs_of j = [] \<or> (\<exists>m. L_Said m \<in> A \<and> refs_of j = message_refs m)"
    proof cases
      case (1 pm)
      with said assms(1) show ?thesis
        by (auto simp: event_in_def event_ok_def opt_ref_def forward_refs_def built_message_refs simp del: refs_of.simps)
          (simp add: opt_ref_def forward_refs_def)
    next
      case (2 gm)
      with said assms(1) show ?thesis
        by (auto simp: event_in_def event_ok_def opt_ref_def forward_refs_def built_message_refs simp del: refs_of.simps)
          (simp add: opt_ref_def forward_refs_def)
    qed
    with A show ?thesis by (fastforce simp: all_introduced_def)
  qed
  with assms(3) Some show ?thesis by (simp add: grounded_snoc)
qed

lemma grounded_events:
  assumes "events_ok (es @ fs)" and "events_in A fs" and "grounded [] (posts serial_of es)"
    and A: "\<And>m r. L_Said m \<in> A \<Longrightarrow> r \<in> set (message_refs m) \<Longrightarrow> all_introduced es r"
  shows "grounded [] (posts serial_of (es @ fs))"
  using assms(1,2)
proof (induction fs rule: rev_induct)
  case (snoc e fs)
  then have "grounded [] (posts serial_of (es @ fs))" and ok: "event_ok (es @ fs) e"
    using events_ok_snoc [of "es @ fs" e] by simp_all
  from grounded_event [OF ok _ this(1), of A] snoc.prems(2) A show ?case
    by (fastforce simp: all_introduced_def posts_def)
qed (use assms(3) in simp)

lemma installed_step:
  assumes "td_step s t" and "trace_inv s"
  shows "installed t = installed s"
  using assms
proof (cases rule: step_cases)
  case plain
  then show ?thesis by (rule acts_installed)
next
  case (consumed i k)
  from acts_installed [OF consumed(3)] show ?thesis by simp
next
  case (alarm i)
  with acts_installed [OF acts_poll [OF acts_refl [of UNIV "consume i s"]]] show ?thesis
    by (simp add: on_admin_alarm_def arm_admin_alarm_def)
next
  case (authorization a)
  then show ?thesis
    by (auto simp: authorization_flags authorization_ready Let_def arm_admin_alarm_def
        simp del: on_authorization_state_update.simps split: if_split_asm)
qed (simp add: close_flags)

definition grounded_inv :: "td \<Rightarrow> bool" where
  "grounded_inv s \<longleftrightarrow> trace_inv s \<and> knows s \<and>
     ({H_User, H_Group} \<subseteq> installed s \<longrightarrow> grounded [] (posts serial_of (events s)))"

lemma grounded_step:
  assumes step: "intro_step s t" and inv: "grounded_inv s"
  shows "grounded_inv t"
proof -
  have td: "td_step s t" by (rule intro_td_step [OF step])
  from inv have tr: "trace_inv s" and kn: "knows s" by (simp_all add: grounded_inv_def)
  note new = trace_inv_step [OF td tr] knows_step [OF td tr kn] installed_step [OF td tr]
  have "grounded [] (posts serial_of (events t))" if inst: "{H_User, H_Group} \<subseteq> installed s"
    using step
  proof cases
    case (intro_response i obj)
    obtain es where es: "events t = events s @ es" and said: "events_in (labels s i obj) es"
      using response_lists [OF intro_response(2) tr] intro_response(1) by blast
    have "all_introduced (events s) r" if "L_Said m \<in> labels s i obj" and "r \<in> set (message_refs m)" for m r
    proof -
      obtain tn x where r: "r = (tn, x)" by (cases r)
      have "brings obj m" using that(1) by (auto simp: labels_def)
      with intro_response(3) that(2) have "familiar s r" by (auto simp: introduces_first_def)
      with familiar_introduced [OF kn inst] message_tables_refs that(2) r show ?thesis by blast
    qed
    with grounded_events [of "events s" es "labels s i obj"] said new(1) inv inst show ?thesis
      by (simp add: es trace_inv_def grounded_inv_def)
  next
    case intro_close
    with inv inst show ?thesis by (simp add: close_flags grounded_inv_def)
  qed
  with new show ?thesis by (simp add: grounded_inv_def)
qed

lemma messages_grounded:
  assumes "reach td_start intro_step c" and "{H_User, H_Group} \<subseteq> installed c"
  shows "grounded [] (posts serial_of (events c))"
proof -
  have "grounded_inv c"
    using assms(1)
  proof (rule reach_invariant)
    fix s assume start: "td_start s"
    with knows_reach [OF reach_init [of td_start, OF start]] start_trace [OF start] show "grounded_inv s"
      by (simp add: grounded_inv_def)
  qed (rule grounded_step)
  with assms(2) show ?thesis by (simp add: grounded_inv_def)
qed

text \<open>C18: what a message refers to is introduced by an earlier event. If TDLib introduces users and chats
  before it mentions them in messages, as it documents, then over every run of the client each
  message event (new, edited, the target of a reply) names as its chat, its sender and the user it was forwarded from only
  users and chats whose own event has been raised before. The jobs posted for the events so find the rows
  that their foreign keys point to stored by earlier jobs.\<close>

theorem events_grounded:
  assumes "reach td_start intro_step c" and "{H_User, H_Group} \<subseteq> installed c"
  shows "grounded [] (posts serial_of (events c))"
  using assms by (rule messages_grounded)

text \<open>User 7 is introduced and then writes.\<close>

definition known_user :: td_user where
  "known_user = \<lparr>tu_id = 7, tu_first_name = ''a'', tu_last_name = '''', tu_phone_number = '''', tu_accent_color_id = 0,
     tu_background_custom_emoji_id = 0, tu_profile_accent_color_id = 0, tu_profile_background_custom_emoji_id = 0,
     tu_is_premium = False, tu_is_support = False, tu_restricts_new_chats = False, tu_paid_message_star_count = 0,
     tu_is_contact = False, tu_is_mutual_contact = False, tu_is_close_friend = False, tu_have_access = True,
     tu_language_code = '''', tu_verification = None, tu_restriction = None, tu_emoji_status = None, tu_usernames = None,
     tu_type = Some Td_Regular, tu_photo_big = None\<rparr>"

definition introducing_client :: td where
  "introducing_client = process_response 0 (Some (O_Update (U_User (Some known_user)))) sample_client"

definition told_client :: td where
  "told_client = process_response 0 (Some (O_Update (U_NewMessage first_message))) introducing_client"

lemma sample_client_sel [simp]: "events sample_client = []" "known_users sample_client = (\<lambda>_. None)"
  "installed sample_client = {H_User, H_FullInfo, H_Photo, H_Group, H_Admins, H_Group_Photo, H_Text, H_Private,
     H_Group_Message, H_File, H_Reply}"
  by (auto simp: client_eval)

lemma introducing_sel [simp]: "events introducing_client = [E_User (map_user known_user)]"
  "known_users introducing_client 7 = Some known_user" "installed introducing_client = installed sample_client"
  by (simp_all add: introducing_client_def process_response_def update_user_def Let_def request_user_full_info_def
      maybe_download_profile_photo_def known_user_def)

definition told_text :: TextMessage where
  "told_text = \<lparr>xm_sender_id = 7, xm_message_id = 1, xm_sender_name = ''a'', xm_sender_username = '''', xm_text = ''hi''\<rparr>"

lemma first_message_built:
  "pm_forward_info (build_private_message first_message) = None"
  "message_refs first_message = [(T_users, 7), (T_users, 7)]"
  by (simp_all add: message_refs_def client_eval opt_ref_def forward_refs_def)

lemma known_user_names [simp]: "sender_name_of known_user = ''a''" "sender_username_of known_user = []"
  by (simp_all add: sender_name_of_def sender_username_of_def known_user_def)

lemma told_events:
  "events told_client = [E_User (map_user known_user), E_Private (build_private_message first_message), E_Text told_text]"
  "installed told_client = installed sample_client"
  using first_message_built
  by (simp_all add: told_client_def process_response_def handle_new_message_def route_message_def is_private_chat_def
      handle_message_for_private_chat_def Let_def forward_origin_def maybe_download_message_file_def
      message_content_file_def resolve_reply_message_def reply_target_def text_message_def sender_id_of_def
      first_message_def sample_message_def told_text_def)

lemma told_reach: "reach td_start intro_step told_client"
proof -
  have "reach td_start intro_step introducing_client"
    unfolding introducing_client_def
    by (rule reach_step, rule reach_init, rule sample_start, rule intro_response)
      (simp_all add: honest_def introduces_first_def brings_def)
  then show ?thesis
    unfolding told_client_def
    by (rule reach_step) (rule intro_response,
        auto simp: honest_def introduces_first_def brings_def first_message_built familiar_def)
qed

theorem events_grounded_witness:
  "grounded [] (posts serial_of (events told_client)) \<and> posts serial_of (events told_client) =
     [J_User (map_user known_user), J_Private (build_private_message first_message)]"
  using events_grounded [OF told_reach] by (simp add: told_events posts_def)

end
