(* ===== verification/Db_Success.thy ===== *)
theory Db_Success
  imports Db_Types
begin

text \<open>
  That the database programs return: on a server that answers every call, from rows with integrity and
  of the right types, and with the rows that foreign keys refer to in place, no statement of an upsert
  is refused and no number fails to convert. Total correctness is stated as a triple: from every state
  with the precondition the program returns a value, and value and state satisfy the postcondition.
\<close>

section \<open>Programs that return\<close>

definition answers :: "server \<Rightarrow> bool" where
  "answers sv \<longleftrightarrow> (\<forall>n. fault sv n = None)"

type_synonym rows_pred = "db \<Rightarrow> counters \<Rightarrow> bool"

definition works :: "server \<Rightarrow> rows_pred \<Rightarrow> 'a tx \<Rightarrow> ('a \<Rightarrow> rows_pred) \<Rightarrow> bool" where
  "works sv P m Q \<longleftrightarrow>
     (\<forall>s. P (view s) (autos s) \<longrightarrow> (\<exists>a t. m sv s = (Inr a, t) \<and> Q a (view t) (autos t)))"

lemma worksI:
  "(\<And>s :: session. P (view s) (autos s) \<Longrightarrow> \<exists>a t. m sv s = (Inr a, t) \<and> Q a (view t) (autos t)) \<Longrightarrow>
     works sv P m Q"
  by (simp add: works_def)

lemma worksD: "works sv P m Q \<Longrightarrow> P (view s) (autos s) \<Longrightarrow> \<exists>a t. m sv s = (Inr a, t) \<and> Q a (view t) (autos t)"
  by (simp add: works_def)

lemma works_pre: "works sv P m Q \<Longrightarrow> (\<And>d au. P' d au \<Longrightarrow> P d au) \<Longrightarrow> works sv P' m Q"
  by (simp add: works_def)

lemma works_post: "works sv P m Q \<Longrightarrow> (\<And>a d au. Q a d au \<Longrightarrow> Q' a d au) \<Longrightarrow> works sv P m Q'"
  unfolding works_def by blast

text \<open>A fact that does not depend on the state moves out of the precondition.\<close>

lemma works_fact: "(\<phi> \<Longrightarrow> works sv P m Q) \<Longrightarrow> works sv (\<lambda>d au. P d au \<and> \<phi>) m Q"
  by (auto simp: works_def)

lemma works_cases: "(\<And>x. works sv (\<lambda>d au. P d au \<and> F x d au) m Q) \<Longrightarrow> works sv (\<lambda>d au. P d au \<and> (\<exists>x. F x d au)) m Q"
  by (auto simp: works_def)

lemma works_return: "(\<And>d au. P d au \<Longrightarrow> Q a d au) \<Longrightarrow> works sv P (tx_return a) Q"
  by (simp add: works_def tx_return_def)

lemma works_bind: "works sv P m Q \<Longrightarrow> (\<And>a. works sv (Q a) (f a) R) \<Longrightarrow> works sv P (tx_bind m f) R"
  by (fastforce simp: works_def tx_bind_def)

lemma works_then: "works sv P m (\<lambda>_. Q) \<Longrightarrow> works sv Q k R \<Longrightarrow> works sv P (tx_then m k) R"
  unfolding tx_then_def by (rule works_bind)

lemma works_for: "(\<And>x. x \<in> set xs \<Longrightarrow> works sv P (f x) (\<lambda>_. P)) \<Longrightarrow> works sv P (tx_for f xs) (\<lambda>_. P)"
  by (induction xs) (auto intro: works_return works_then)

lemma works_iterate: "(\<And>ks'. works sv P (f ks') Q) \<Longrightarrow> works sv P (tx_bind (tx_iterate ks) f) Q"
  by (simp add: works_def tx_bind_def tx_iterate_def)

lemma works_if: "(c \<Longrightarrow> works sv P m Q) \<Longrightarrow> (\<not> c \<Longrightarrow> works sv P k Q) \<Longrightarrow> works sv P (if c then m else k) Q"
  by simp

lemma works_option:
  "(x = None \<Longrightarrow> works sv P m Q) \<Longrightarrow> (\<And>v. x = Some v \<Longrightarrow> works sv P (f v) Q) \<Longrightarrow>
     works sv P (case x of None \<Rightarrow> m | Some v \<Rightarrow> f v) Q"
  by (cases x) simp_all

lemma stoll_bind [simp]: "tx_bind (stoll (IntV i)) f = f i"
  by (simp add: stoll_def tx_bind_def tx_return_def)

lemma return_bind [simp]: "tx_bind (tx_return a) f = f a"
  by (simp add: tx_bind_def tx_return_def)

lemma works_execute:
  assumes "answers sv"
    and "\<And>d au. P d au \<Longrightarrow> \<exists>d' au'. exec_stmt (weight sv) args st d au = Inr (d', au') \<and> Q () d' au'"
  shows "works sv P (do_execute st args) Q"
proof (rule worksI)
  fix s :: session assume "P (view s) (autos s)"
  then obtain d au where "exec_stmt (weight sv) args st (view s) (autos s) = Inr (d, au)" and "Q () d au"
    using assms(2) by blast
  moreover from this have "do_execute st args sv s = (Inr (), after_stmt st d au (s\<lparr>clk := Suc (clk s)\<rparr>))"
    using assms(1) by (simp add: do_execute_run answers_def)
  ultimately show "\<exists>a t. do_execute st args sv s = (Inr a, t) \<and> Q a (view t) (autos t)"
    by (auto simp: after_stmt_def)
qed

lemma works_insert:
  assumes "answers sv"
    and "\<And>d au. P d au \<Longrightarrow> \<exists>d' au'. exec_stmt (weight sv) args st d au = Inr (d', au') \<and> (\<forall>a. Q a d' au')"
  shows "works sv P (do_insert st args) Q"
proof (rule worksI)
  fix s :: session assume "P (view s) (autos s)"
  then obtain d au where ex: "exec_stmt (weight sv) args st (view s) (autos s) = Inr (d, au)" and Q: "\<And>a. Q a d au"
    using assms(2) by blast
  obtain x t where "do_insert st args sv s = (Inr x, t)" and "view t = d" and "autos t = au"
    using assms(1) ex do_insert_run [of st args sv s] by (simp add: answers_def after_stmt_def)
  with Q show "\<exists>a t. do_insert st args sv s = (Inr a, t) \<and> Q a (view t) (autos t)" by blast
qed

lemma works_query:
  assumes "answers sv" and "length args = length (query_args q)"
    and "\<And>d au rows. P d au \<Longrightarrow> exec_query (weight sv) args q d = Inr rows \<Longrightarrow> Q rows d au"
  shows "works sv P (do_query q args) Q"
proof (rule worksI)
  fix s :: session assume P: "P (view s) (autos s)"
  have "\<exists>rows. exec_query (weight sv) args q (view s) = Inr rows"
    using assms(2) by (cases q) (auto simp: exec_query_def split: option.split)
  then obtain rows where q: "exec_query (weight sv) args q (view s) = Inr rows" by blast
  then have "do_query q args sv s = (Inr rows, s\<lparr>clk := Suc (clk s)\<rparr>)"
    using assms(1) by (simp add: do_query_run answers_def)
  with assms(3) [OF P q] show "\<exists>a t. do_query q args sv s = (Inr a, t) \<and> Q a (view t) (autos t)" by auto
qed

text \<open>A transaction on a clean session commits what its body leaves.\<close>

lemma works_transaction:
  assumes up: "answers sv" and body: "works sv P fn Q" and "P (view s) (autos s)"
  obtains a t where "transaction fn sv s = (Inr a, t)" and "Q a (disk t) (autos t)" and "view t = disk t"
    and "autoc t"
proof -
  let ?s = "s\<lparr>clk := Suc (Suc (clk s)), autoc := False\<rparr>"
  have "P (view ?s) (autos ?s)" using assms(3) by simp
  from worksD [OF body this] obtain a u where "fn sv ?s = (Inr a, u)" and "Q a (view u) (autos u)"
    by blast
  then show thesis
    using up that
    by (fastforce simp: transaction_def transaction_on_def scoped_connection_eq driver_eqs answers_def)
qed

section \<open>Statements that are accepted\<close>

text \<open>
  \<open>good\<close>: integrity, types, and the ids in \<open>R\<close>, which later statements may refer to. Only a DELETE
  makes ids vanish.
\<close>

definition good :: "collation \<Rightarrow> (tname \<times> sql_val) set \<Rightarrow> rows_pred" where
  "good w R d au \<longleftrightarrow> db_ok w d au \<and> typed_rows w d au \<and> (\<forall>(t, v)\<in>R. has_id d t v)"

definition known_to :: "(tname \<times> sql_val) set \<Rightarrow> tname \<Rightarrow> row \<Rightarrow> bool" where
  "known_to R t r \<longleftrightarrow> (\<forall>(c, t')\<in>set (td_fkeys (schema t)). r c = Null \<or> (t', r c) \<in> R)"

lemma good_parts: "good w R d au \<Longrightarrow> db_ok w d au" "good w R d au \<Longrightarrow> typed_rows w d au"
  "good w R d au \<Longrightarrow> (t, v) \<in> R \<Longrightarrow> has_id d t v"
  by (auto simp: good_def)

lemma good_insert: "good w (insert (t, v) R) d au \<longleftrightarrow> good w R d au \<and> has_id d t v"
  by (auto simp: good_def)

lemma good_mono: "good w R d au \<Longrightarrow> R' \<subseteq> R \<Longrightarrow> good w R' d au"
  by (auto simp: good_def)

lemma known_fk: "good w R d au \<Longrightarrow> known_to R t r \<Longrightarrow> fk_row d t r"
  by (fastforce simp: known_to_def fk_row_def good_def)

lemma row_fk: "good w R d au \<Longrightarrow> r \<in> set (d t) \<Longrightarrow> fk_row d t r"
  by (simp add: good_def db_ok_def list_all_iff)

lemma ids_map: "(\<And>r. f r ''id'' = r ''id'') \<Longrightarrow> ids (map f rs) = ids rs"
  by (simp add: ids_def image_image)

primrec deletes :: "sql_stmt \<Rightarrow> bool" where
  "deletes (Insert t cols vals odku) = False"
| "deletes (Update t join sets wh) = False"
| "deletes (Delete t wh) = True"

lemma exec_stmt_ids:
  assumes "\<not> deletes st" and ex: "exec_stmt w args st d au = Inr (d', au')"
  shows "ids (d t) \<subseteq> ids (d' t)"
proof (cases "t = stmt_table st")
  case True
  show ?thesis
  proof (cases st)
    case (Insert t' cols vals odku)
    let ?new = "new_row w args t' cols vals au"
    show ?thesis
    proof (cases odku)
      case None
      with exec_insert_append [OF ex [unfolded Insert None]] show ?thesis by (auto simp: ids_def)
    next
      case (Some ups)
      have same: "ids (map_first P (\<lambda>_. copy_cols ups ?new old) rs) = ids rs"
        if "find P rs = Some old" and "''id'' \<notin> set ups" for P old and rs :: "row list"
        using find_conflict_ids [OF that(1), of "copy_cols ups ?new old"] that(2) by (simp add: copy_cols_apply)
      from ex [unfolded Insert Some] same show ?thesis
        by (auto simp: exec_upsert_Inr_iff Let_def ids_def [of "_ @ _"] split: option.splits) (simp add: ids_def)
    qed
  next
    case (Update t' join sets wh)
    let ?u = "apply_sets w args (join_id w args join (d t')) sets"
    from ex [unfolded Update] have "''id'' \<notin> set (map fst sets)"
      and "d' = d(t' := map (\<lambda>r. if match w args wh r then ?u r else r) (d t'))"
      by (auto simp: exec_update_Inr_iff Let_def)
    moreover from this have "ids (d' t') = ids (d t')" by (simp del: set_map) (rule ids_map, simp)
    ultimately show ?thesis using True Update by simp
  qed (use assms in simp)
qed (use exec_stmt_frame [OF ex] in simp)

lemma stmt_good:
  assumes "good w R d au" and "stmt_typed st args" and "\<not> deletes st"
    and ex: "exec_stmt w args st d au = Inr (d', au')"
  shows "good w R d' au'"
  using assms(1) exec_stmt_db_ok [OF _ ex] exec_stmt_typed [OF assms(2) ex] exec_stmt_ids [OF assms(3) ex]
  unfolding good_def has_id_ids by blast

text \<open>A plain INSERT into a table whose only unique key is its counter.\<close>

lemma new_row_id: "td_auto (schema t) \<Longrightarrow> new_row w args t cols vals au ''id'' = IntV (au t)"
  by (simp add: new_row_def Let_def)

lemma fk_row_append: "fk_row d t r \<Longrightarrow> fk_row (d(t := d t @ rs)) t r"
  by (erule fk_row_mono) (auto simp: ids_def)

lemma fresh_accepted:
  assumes ok: "db_ok w d au" and "length args = length (stmt_args (Insert t cols vals None))"
    and fresh: "\<And>r. r \<in> set (d t) \<Longrightarrow> \<not> conflict w t (new_row w args t cols vals au) r"
    and fk: "fk_row d t (new_row w args t cols vals au)"
  shows "\<exists>d' au'. exec_stmt w args (Insert t cols vals None) d au = Inr (d', au')"
proof -
  have "uniq_rows w t (d t)" using ok by (simp add: db_ok_def)
  with fresh have "uniq_rows w t (d t @ [new_row w args t cols vals au])" by (simp add: uniq_rows_snoc)
  with assms(2) fk_row_append [OF fk] show ?thesis by (auto simp: exec_insert_Inr_iff)
qed

lemma fresh_counter: "db_ok w d au \<Longrightarrow> td_auto (schema t) \<Longrightarrow> r \<in> set (d t) \<Longrightarrow> r ''id'' \<noteq> IntV (au t)"
  by (fastforce simp: db_ok_def below_counter_def)

lemma insert_accepted:
  assumes ok: "db_ok w d au" and len: "length args = length (stmt_args (Insert t cols vals None))"
    and auto: "td_auto (schema t)" and keys: "td_uniques (schema t) = [[''id'']]"
    and fk: "fk_row d t (new_row w args t cols vals au)"
  shows "\<exists>d' au'. exec_stmt w args (Insert t cols vals None) d au = Inr (d', au')"
  using fresh_counter [OF ok auto] by (intro fresh_accepted [OF ok len _ fk]) (simp add: conflict_def keys new_row_id auto)

text \<open>INSERT ... ON DUPLICATE KEY UPDATE of columns outside the keys.\<close>

lemma uniq_rows_map_first:
  assumes "uniq_rows w t rs" and "find P rs = Some old"
    and "\<And>ks k. ks \<in> set (td_uniques (schema t)) \<Longrightarrow> k \<in> set ks \<Longrightarrow> upd k = old k"
  shows "uniq_rows w t (map_first P (\<lambda>_. upd) rs)"
  using assms(1,2)
proof (induction rs)
  case (Cons r rs)
  have old: "conflict w t upd s = conflict w t old s" for s
    by (rule conflict_cong) (use assms(3) in auto)
  show ?case
  proof (cases "P r")
    case True
    with Cons old show ?thesis by simp
  next
    case False
    with Cons have find: "find P rs = Some old" and uniq: "uniq_rows w t rs"
      and apart: "\<forall>s\<in>set rs. \<not> conflict w t r s" by simp_all
    have "\<not> conflict w t r s" if "s \<in> set (map_first P (\<lambda>_. upd) rs)" for s
    proof -
      have "s \<in> set rs \<or> s = upd" using set_map_first that by fastforce
      with apart find show ?thesis
        using conflict_sym [of w t r upd] conflict_sym [of w t r old] by (auto simp: old dest: find_Some_mem)
    qed
    with Cons.IH [OF uniq find] False show ?thesis by simp
  qed
qed simp

lemma fk_row_copied:
  "fk_row d t new \<Longrightarrow> fk_row d t old \<Longrightarrow> fk_row d t (copy_cols ups new old)"
  by (fastforce simp: fk_row_def copy_cols_apply)

lemma upsert_accepted:
  assumes ok: "db_ok w d au" and len: "length args = length (stmt_args (Insert t cols vals (Some ups)))"
    and keys: "\<And>ks. ks \<in> set (td_uniques (schema t)) \<Longrightarrow> set ks \<inter> set ups = {}"
    and fk: "fk_row d t (new_row w args t cols vals au)"
  shows "\<exists>d' au'. exec_stmt w args (Insert t cols vals (Some ups)) d au = Inr (d', au')"
proof -
  let ?new = "new_row w args t cols vals au"
  have id: "''id'' \<notin> set ups" using keys [OF id_unique] by simp
  have uniq: "uniq_rows w t (d t)" using ok by (simp add: db_ok_def)
  show ?thesis
  proof (cases "find (conflict w t ?new) (d t)")
    case None
    with uniq have "uniq_rows w t (d t @ [?new])" by (simp add: uniq_rows_snoc find_None_iff_all)
    with None len fk_row_append [OF fk] show ?thesis by (auto simp: exec_upsert_Inr_iff Let_def)
  next
    case (Some old)
    let ?upd = "copy_cols ups ?new old"
    let ?rs = "map_first (conflict w t ?new) (\<lambda>_. ?upd) (d t)"
    have "fk_row d t old" using ok find_Some_mem [OF Some] by (simp add: db_ok_def list_all_iff)
    with fk have "fk_row d t ?upd" by (rule fk_row_copied)
    then have "fk_row (d(t := ?rs)) t ?upd"
      by (rule fk_row_mono) (use find_conflict_ids [OF Some, of ?upd] id in \<open>auto simp: copy_cols_apply\<close>)
    moreover have "uniq_rows w t ?rs"
      by (rule uniq_rows_map_first [OF uniq Some]) (use keys in \<open>auto simp: copy_cols_apply\<close>)
    ultimately show ?thesis using Some len id by (auto simp: exec_upsert_Inr_iff Let_def)
  qed
qed

text \<open>UPDATE of columns outside the keys.\<close>

lemma update_accepted:
  assumes ok: "db_ok w d au" and len: "length args = length (stmt_args (Update t join sets wh))"
    and keys: "\<And>ks. ks \<in> set (td_uniques (schema t)) \<Longrightarrow> set ks \<inter> set (map fst sets) = {}"
    and fk: "\<And>r. r \<in> set (d t) \<Longrightarrow> match w args wh r \<Longrightarrow>
      fk_row d t (apply_sets w args (join_id w args join (d t)) sets r)"
  shows "\<exists>d' au'. exec_stmt w args (Update t join sets wh) d au = Inr (d', au')"
proof -
  let ?u = "apply_sets w args (join_id w args join (d t)) sets"
  let ?rs = "map (\<lambda>r. if match w args wh r then ?u r else r) (d t)"
  have id: "''id'' \<notin> set (map fst sets)" using keys [OF id_unique] by simp
  have "uniq_rows w t (d t)" using ok by (simp add: db_ok_def)
  then have "uniq_rows w t ?rs" by (rule uniq_rows_map) (use keys in \<open>auto simp: disjoint_iff\<close>)
  moreover have "ids ?rs = ids (d t)" using id by (intro ids_map) simp
  then have "fk_row (d(t := ?rs)) t (?u r)" if "r \<in> set (d t)" "match w args wh r" for r
    by (intro fk_row_mono [OF fk [OF that]]) auto
  ultimately show ?thesis using len id by (simp add: exec_update_Inr_iff Let_def)
qed

section \<open>Calls that return\<close>

named_theorems works_rules
  \<comment> \<open>introduction rules for programs that return\<close>

text \<open>A precondition of the form \<open>good\<close> kept by the program.\<close>

abbreviation returns :: "server \<Rightarrow> (tname \<times> sql_val) set \<Rightarrow> 'a tx \<Rightarrow> bool" where
  "returns sv R m \<equiv> works sv (good (weight sv) R) m (\<lambda>_. good (weight sv) R)"

lemma returns_return [works_rules]: "returns sv R (tx_return a)"
  by (rule works_return)

lemma returns_then [works_rules]: "returns sv R m \<Longrightarrow> returns sv R k \<Longrightarrow> returns sv R (tx_then m k)"
  by (rule works_then)

lemma returns_bind [works_rules]: "returns sv R m \<Longrightarrow> (\<And>a. returns sv R (f a)) \<Longrightarrow> returns sv R (tx_bind m f)"
  by (rule works_bind)

lemma returns_for [works_rules]: "(\<And>x. x \<in> set xs \<Longrightarrow> returns sv R (f x)) \<Longrightarrow> returns sv R (tx_for f xs)"
  by (rule works_for)

lemma returns_iterate: "(\<And>ks'. returns sv R (f ks')) \<Longrightarrow> returns sv R (tx_bind (tx_iterate ks) f)"
  by (rule works_iterate)

lemmas returns_split [works_rules] = works_if [where Q = "\<lambda>_. good w R" for w R]
  works_option [where Q = "\<lambda>_. good w R" for w R]

lemma good_works:
  assumes "answers sv" and typed: "stmt_typed st args" and kept: "\<not> deletes st"
    and ok: "\<And>d au. good (weight sv) R d au \<Longrightarrow> \<exists>d' au'. exec_stmt (weight sv) args st d au = Inr (d', au')"
  shows "returns sv R (do_execute st args)" and "returns sv R (do_insert st args)"
proof -
  have "\<exists>d' au'. exec_stmt (weight sv) args st d au = Inr (d', au') \<and> good (weight sv) R d' au'"
    if "good (weight sv) R d au" for d au
    using ok [OF that] stmt_good [OF that typed kept] by blast
  then show "returns sv R (do_execute st args)" "returns sv R (do_insert st args)"
    by (auto intro: works_execute works_insert assms(1))
qed

lemma log_works:
  assumes "answers sv" and "stmt_typed (Insert t cols vals None) args"
    and "length args = length (stmt_args (Insert t cols vals None))"
    and "td_auto (schema t)" and "td_uniques (schema t) = [[''id'']]"
    and known: "\<And>w au. known_to R t (new_row w args t cols vals au)"
  shows "returns sv R (do_execute (Insert t cols vals None) args)"
    and "returns sv R (do_insert (Insert t cols vals None) args)"
  using insert_accepted [OF good_parts(1) assms(3-5) known_fk [OF _ known]]
  by (intro good_works [OF assms(1,2)]; simp)+

lemma upsert_works:
  assumes "answers sv" and "stmt_typed (Insert t cols vals (Some ups)) args"
    and "length args = length (stmt_args (Insert t cols vals (Some ups)))"
    and "\<And>ks. ks \<in> set (td_uniques (schema t)) \<Longrightarrow> set ks \<inter> set ups = {}"
    and known: "\<And>w au. known_to R t (new_row w args t cols vals au)"
  shows "returns sv R (do_execute (Insert t cols vals (Some ups)) args)"
  using upsert_accepted [OF good_parts(1) assms(3,4) known_fk [OF _ known]]
  by (intro good_works [OF assms(1,2)]; simp)

text \<open>An UPDATE sets reference columns to NULL or to known ids only.\<close>

lemma update_works:
  assumes "answers sv" and "stmt_typed (Update t None sets wh) args"
    and "length args = length (stmt_args (Update t None sets wh))"
    and "\<And>ks. ks \<in> set (td_uniques (schema t)) \<Longrightarrow> set ks \<inter> set (map fst sets) = {}"
    and known: "\<And>w r c t'. (c, t') \<in> set (td_fkeys (schema t)) \<Longrightarrow> c \<in> set (map fst sets) \<Longrightarrow>
      apply_sets w args Null sets r c = Null \<or> (t', apply_sets w args Null sets r c) \<in> R"
  shows "returns sv R (do_execute (Update t None sets wh) args)"
proof (rule good_works [OF assms(1,2)])
  fix d au assume good: "good (weight sv) R d au"
  have "fk_row d t (apply_sets (weight sv) args Null sets r)" if "r \<in> set (d t)" for r
  proof -
    have "apply_sets (weight sv) args Null sets r c = Null \<or> has_id d t' (apply_sets (weight sv) args Null sets r c)"
      if fk: "(c, t') \<in> set (td_fkeys (schema t))" for c t'
    proof (cases "c \<in> set (map fst sets)")
      case True
      with known [OF fk] good show ?thesis by (blast intro: good_parts)
    next
      case False
      with row_fk [OF good \<open>r \<in> set (d t)\<close>] fk show ?thesis by (auto simp: fk_row_def)
    qed
    then show ?thesis by (auto simp: fk_row_def)
  qed
  then show "\<exists>d' au'. exec_stmt (weight sv) args (Update t None sets wh) d au = Inr (d', au')"
    using assms(3,4) good by (intro update_accepted) (auto simp: join_id_def intro: good_parts)
qed simp

text \<open>An upsert by id makes the id known.\<close>

lemma upsert_has_id:
  assumes "td_uniques (schema t) = [[''id'']]" and "\<And>au. new_row w args t cols vals au ''id'' = IntV i"
    and "exec_stmt w args (Insert t cols vals (Some ups)) d au = Inr (d', au')"
  shows "has_id d' t (IntV i)"
proof -
  let ?new = "new_row w args t cols vals au"
  show ?thesis
  proof (cases "find (conflict w t ?new) (d t)")
    case None
    with assms show ?thesis by (auto simp: exec_upsert_Inr_iff Let_def has_id_def)
  next
    case (Some old)
    let ?upd = "copy_cols ups ?new old"
    from find_Some_mem [OF Some] have old: "old ''id'' = IntV i" "old \<in> set (d t)"
      by (simp_all add: conflict_def assms(1,2))
    from assms(3) Some have d': "d' t = map_first (conflict w t ?new) (\<lambda>_. ?upd) (d t)" and "''id'' \<notin> set ups"
      by (simp_all add: exec_upsert_Inr_iff Let_def)
    then have "ids (d' t) = ids (d t)"
      unfolding d' by (intro find_conflict_ids [OF Some]) (simp add: copy_cols_apply)
    with old show ?thesis unfolding has_id_ids by (metis ids_def image_eqI)
  qed
qed

lemma upsert_learns:
  assumes "returns sv R (do_execute (Insert t cols vals (Some ups)) args)"
    and "td_uniques (schema t) = [[''id'']]" and "\<And>w au. new_row w args t cols vals au ''id'' = IntV i"
  shows "works sv (good (weight sv) R) (do_execute (Insert t cols vals (Some ups)) args)
    (\<lambda>_. good (weight sv) (insert (t, IntV i) R))"
proof (rule worksI)
  fix s :: session assume "good (weight sv) R (view s) (autos s)"
  from worksD [OF assms(1) this] obtain a u where
    run: "do_execute (Insert t cols vals (Some ups)) args sv s = (Inr a, u)" and good: "good (weight sv) R (view u) (autos u)"
    by blast
  from run have "exec_stmt (weight sv) args (Insert t cols vals (Some ups)) (view s) (autos s) = Inr (view u, autos u)"
    by (rule do_executeE)
  from upsert_has_id [OF assms(2,3) this] good run
  show "\<exists>a t'. do_execute (Insert t cols vals (Some ups)) args sv s = (Inr a, t') \<and>
      good (weight sv) (insert (t, IntV i) R) (view t') (autos t')"
    by (auto simp: good_insert)
qed

text \<open>A query returns columns of typed rows that match; their ids and what they refer to are known.\<close>

definition learned :: "tname \<Rightarrow> row list \<Rightarrow> (tname \<times> sql_val) set" where
  "learned t rs = (\<lambda>r. (t, r ''id'')) ` set rs \<union>
     {(t', v). v \<noteq> Null \<and> (\<exists>r\<in>set rs. \<exists>c. (c, t') \<in> set (td_fkeys (schema t)) \<and> v = r c)}"

lemma good_learned:
  assumes good: "good w R d au" and sub: "set rs \<subseteq> set (d t)"
  shows "good w (R \<union> learned t rs) d au"
proof -
  have "has_id d t' v" if "(t', v) \<in> learned t rs" for t' v
  proof -
    from that consider r where "r \<in> set rs" "t' = t" "v = r ''id''"
      | r c where "r \<in> set rs" "(c, t') \<in> set (td_fkeys (schema t))" "v = r c" "v \<noteq> Null"
      unfolding learned_def by blast
    then show ?thesis
    proof cases
      case 1
      with sub show ?thesis by (auto simp: has_id_def)
    next
      case 2
      with sub have "fk_row d t r" by (intro row_fk [OF good]) auto
      with 2 show ?thesis by (auto simp: fk_row_def)
    qed
  qed
  with good show ?thesis by (auto simp: good_def)
qed

lemma query_learns:
  assumes "answers sv" and "length args = length (query_args (Select es (Some t) wh))"
    and "\<And>rs. list_all (typed_row t) rs \<Longrightarrow> list_all (match (weight sv) args wh) rs \<Longrightarrow>
      works sv (good (weight sv) (R \<union> learned t rs)) (f (map (\<lambda>r. map (eval_expr (weight sv) args r Null) es) rs)) Q"
  shows "works sv (good (weight sv) R) (tx_bind (do_query (Select es (Some t) wh) args) f) Q"
proof (rule works_bind)
  let ?out = "\<lambda>rs. map (\<lambda>r. map (eval_expr (weight sv) args r Null) es) rs"
  let ?post = "\<lambda>rows rs d au. good (weight sv) (R \<union> learned t rs) d au \<and>
    rows = ?out rs \<and> list_all (typed_row t) rs \<and> list_all (match (weight sv) args wh) rs"
  show "works sv (good (weight sv) R) (do_query (Select es (Some t) wh) args) (\<lambda>rows d au. \<exists>rs. ?post rows rs d au)"
  proof (rule works_query [OF assms(1,2)])
    fix d au rows assume good: "good (weight sv) R d au"
      and run: "exec_query (weight sv) args (Select es (Some t) wh) d = Inr rows"
    let ?rs = "filter (match (weight sv) args wh) (d t)"
    have "?post rows ?rs d au"
      using good_learned [OF good, of ?rs t] good_parts(2) [OF good] run
      by (auto simp: exec_query_Inr_iff typed_rows_def list_all_iff)
    then show "\<exists>rs. ?post rows rs d au" by blast
  qed
  show "works sv (\<lambda>d au. \<exists>rs. ?post rows rs d au) (f rows) Q" for rows
    using assms(3) unfolding works_def by blast
qed

lemma works_known: "works sv (good (weight sv) R) m Q \<Longrightarrow> R \<subseteq> R' \<Longrightarrow> works sv (good (weight sv) R') m Q"
  by (erule works_pre) (rule good_mono)

lemma returns_known: "returns sv R' m \<Longrightarrow> R \<subseteq> R' \<Longrightarrow> works sv (good (weight sv) R') m (\<lambda>_. good (weight sv) R)"
  by (erule works_post) (rule good_mono)

lemma query_returns:
  assumes "answers sv" and "length args = length (query_args (Select es (Some t) wh))"
    and "\<And>rs. list_all (typed_row t) rs \<Longrightarrow>
      works sv (good (weight sv) R) (f (map (\<lambda>r. map (eval_expr (weight sv) args r Null) es) rs)) Q"
  shows "works sv (good (weight sv) R) (tx_bind (do_query (Select es (Some t) wh) args) f) Q"
  by (rule query_learns [OF assms(1,2)]) (blast intro: works_known assms(3))

text \<open>The row of an id.\<close>

lemma query_by_id:
  assumes up: "answers sv" and none: "works sv (good (weight sv) R) (f []) Q"
    and some: "\<And>r rs R'. typed_row t r \<Longrightarrow> R \<subseteq> R' \<Longrightarrow> (t, IntV i) \<in> R' \<Longrightarrow>
      known_to R' t r \<Longrightarrow> works sv (good (weight sv) R') (f (map r cols # rs)) Q"
  shows "works sv (good (weight sv) R) (tx_bind (do_query (Select (map Col cols) (Some t) [(''id'', sql_expr.Arg 0)]) [IntV i]) f) Q"
proof (rule query_learns [OF up])
  have no_args: "concat (map (expr_args \<circ> Col) cols) = []" by (induction cols) simp_all
  then show "length [IntV i] = length (query_args (Select (map Col cols) (Some t) [(''id'', sql_expr.Arg 0)]))"
    by (simp add: o_def)
  fix rs assume rs: "list_all (typed_row t) rs" "list_all (match (weight sv) [IntV i] [(''id'', sql_expr.Arg 0)]) rs"
  have out: "map (\<lambda>r. map (eval_expr (weight sv) [IntV i] r Null) (map Col cols)) rs = map (\<lambda>r. map r cols) rs"
    by (simp add: o_def)
  show "works sv (good (weight sv) (R \<union> learned t rs)) (f (map (\<lambda>r. map (eval_expr (weight sv) [IntV i] r Null) (map Col cols)) rs)) Q"
  proof (cases rs)
    case Nil
    with none show ?thesis by (simp add: learned_def)
  next
    case (Cons r rest)
    have "works sv (good (weight sv) (R \<union> learned t rs)) (f (map r cols # map (\<lambda>r. map r cols) rest)) Q"
    proof (rule some)
      show "typed_row t r" using rs(1) Cons by simp
      have "r ''id'' = IntV i" using rs(2) Cons by simp
      then show "(t, IntV i) \<in> R \<union> learned t rs" unfolding Cons learned_def by force
      show "known_to (R \<union> learned t rs) t r" unfolding Cons learned_def known_to_def by auto
    qed simp
    then show ?thesis unfolding out by (simp add: Cons)
  qed
qed

section \<open>Profiles\<close>

lemma load_returns:
  "(\<And>r. r \<in> set rows \<Longrightarrow> \<exists>i. r ! 2 = IntV i) \<Longrightarrow> returns sv R (load_usernames rows m)"
proof (induction rows arbitrary: m)
  case (Cons r rows)
  then obtain i where "r ! 2 = IntV i" by auto
  with Cons show ?case by (auto intro: works_rules)
qed (simp add: works_rules)

lemma position_number:
  assumes "t = T_user_usernames \<or> t = T_group_usernames" and "list_all (typed_row t) rs"
    and "r \<in> set (map (\<lambda>r. map (eval_expr w args r Null) [Col ''username'', Col ''kind'', Col ''position'']) rs)"
  shows "\<exists>i. r ! 2 = IntV i"
proof -
  from assms(2,3) obtain row where "typed_row t row" and r: "r ! 2 = row ''position''" by (auto simp: list_all_iff)
  moreover have "(''position'', number) \<in> set (column_types t)" using assms(1) by (auto simp: type_defs)
  ultimately show ?thesis using typed_rowD by (metis conforms_number)
qed

text \<open>A row that refers only to one known owner.\<close>

lemmas known_eval = known_to_def table_defs new_row_def blank_row_def

lemma user_statements_work:
  assumes up: "answers sv" and known: "(T_users, IntV i) \<in> R"
  shows "stmt_typed user_event_sql [IntV i, n, a, k, p] \<Longrightarrow> returns sv R (do_execute user_event_sql [IntV i, n, a, k, p])"
    and "stmt_typed user_claim_sql [IntV i, n, k, p] \<Longrightarrow> returns sv R (do_execute user_claim_sql [IntV i, n, k, p])"
    and "returns sv R (do_insert user_name_sql [IntV i, TextV f, TextV l])"
    and "returns sv R (do_insert user_phone_sql [IntV i, TextV f])"
    and "returns sv R (do_insert user_bio_hist_sql [IntV i, TextV f])"
    and "(T_files, IntV j) \<in> R \<Longrightarrow> returns sv R (do_insert user_photo_hist_sql [IntV i, IntV j])"
  unfolding user_event_sql_def user_claim_sql_def user_name_sql_def user_phone_sql_def user_bio_hist_sql_def
    user_photo_hist_sql_def
  by (rule log_works upsert_works; auto simp: up known known_to_def new_row_def stmt_eval)+

lemma group_statements_work:
  assumes up: "answers sv" and known: "(T_groups, IntV i) \<in> R"
  shows "stmt_typed group_event_sql [IntV i, n, a, k, p] \<Longrightarrow> returns sv R (do_execute group_event_sql [IntV i, n, a, k, p])"
    and "stmt_typed group_claim_sql [IntV i, n, k, p] \<Longrightarrow> returns sv R (do_execute group_claim_sql [IntV i, n, k, p])"
    and "returns sv R (do_insert group_title_sql [IntV i, TextV f])"
    and "returns sv R (do_insert group_description_sql [IntV i, TextV f])"
    and "(T_files, IntV j) \<in> R \<Longrightarrow> returns sv R (do_insert group_photo_hist_sql [IntV i, IntV j])"
  unfolding group_event_sql_def group_claim_sql_def group_title_sql_def group_description_sql_def
    group_photo_hist_sql_def
  by (rule log_works upsert_works; auto simp: up known known_to_def new_row_def stmt_eval)+

lemma profile_updates_work:
  assumes up: "answers sv"
  shows "returns sv R (do_execute user_release_sql [v, x])" "returns sv R (do_execute group_release_sql [v, x])"
    and "returns sv R (do_execute user_full_sql [TextV f, IntV i, opt_int d, opt_int m, opt_int y, x])"
    and "(T_files, IntV j) \<in> R \<Longrightarrow> returns sv R (do_execute user_photo_sql [IntV j, x])"
    and "(T_files, IntV j) \<in> R \<Longrightarrow> returns sv R (do_execute group_photo_sql [IntV j, x])"
  unfolding user_release_sql_def group_release_sql_def user_full_sql_def user_photo_sql_def group_photo_sql_def
  by (rule update_works; auto simp: up stmt_eval)+

lemma sync_names_return:
  assumes up: "answers sv"
  shows "(T_users, IntV (u_id u)) \<in> R \<Longrightarrow> returns sv R (syncUsernames u)"
    and "(T_groups, IntV (g_id g)) \<in> R \<Longrightarrow> returns sv R (syncGroupUsernames g)"
proof -
  assume known: "(T_users, IntV (u_id u)) \<in> R"
  note works = user_statements_work(1,2) [OF up known] profile_updates_work(1) [OF up] user_statements_typed(1-3) works_rules
  show "returns sv R (syncUsernames u)"
    unfolding syncUsernames_def user_names_sql_def Let_def
    by (rule query_returns [OF up], simp)
      (intro returns_bind [OF load_returns] returns_then returns_iterate returns_for position_number [OF disjI1],
        auto simp: user_event_def user_removal_def user_claim_def new_usernames_kinds intro!: works split: prod.split)
next
  assume known: "(T_groups, IntV (g_id g)) \<in> R"
  note works = group_statements_work(1,2) [OF up known] profile_updates_work(2) [OF up] group_statements_typed(1-3) works_rules
  show "returns sv R (syncGroupUsernames g)"
    unfolding syncGroupUsernames_def group_names_sql_def Let_def
    by (rule query_returns [OF up], simp)
      (intro returns_bind [OF load_returns] returns_then returns_iterate returns_for position_number [OF disjI2],
        auto simp: group_event_def group_removal_def group_claim_def new_usernames_kinds intro!: works split: prod.split)
qed

text \<open>The upsert of a profile makes its id known; what follows may refer to it.\<close>

lemma profile_upserts_learn:
  assumes up: "answers sv"
  shows "works sv (good (weight sv) R) (do_execute user_upsert_sql (user_params u))
      (\<lambda>_. good (weight sv) (insert (T_users, IntV (u_id u)) R))"
    and "works sv (good (weight sv) R) (do_execute group_upsert_sql (group_params g))
      (\<lambda>_. good (weight sv) (insert (T_groups, IntV (g_id g)) R))"
proof -
  show "works sv (good (weight sv) R) (do_execute user_upsert_sql (user_params u))
      (\<lambda>_. good (weight sv) (insert (T_users, IntV (u_id u)) R))"
    unfolding user_upsert_sql_def
    by (rule upsert_learns, rule upsert_works [OF up user_upsert_typed [unfolded user_upsert_sql_def]])
      (auto simp: known_to_def new_row_def table_defs blank_row_def user_params_def user_columns_def)
  show "works sv (good (weight sv) R) (do_execute group_upsert_sql (group_params g))
      (\<lambda>_. good (weight sv) (insert (T_groups, IntV (g_id g)) R))"
    unfolding group_upsert_sql_def
    by (rule upsert_learns, rule upsert_works [OF up group_statements_typed(5) [unfolded group_upsert_sql_def]])
      (auto simp: known_to_def new_row_def table_defs blank_row_def group_params_def)
qed

lemma profile_bodies_work:
  assumes up: "answers sv"
  shows "works sv (good (weight sv) R) (upsertUser_body u) (\<lambda>_. good (weight sv) (insert (T_users, IntV (u_id u)) R))"
    and "works sv (good (weight sv) R) (upsertGroup_body g) (\<lambda>_. good (weight sv) (insert (T_groups, IntV (g_id g)) R))"
proof -
  show "works sv (good (weight sv) R) (upsertUser_body u) (\<lambda>_. good (weight sv) (insert (T_users, IntV (u_id u)) R))"
    unfolding upsertUser_body_def user_old_sql_def user_history_def Let_def
    by (rule query_returns [OF up], simp)
      (intro works_then [OF profile_upserts_learn(1)] works_rules user_statements_work sync_names_return up insertI1)
  show "works sv (good (weight sv) R) (upsertGroup_body g) (\<lambda>_. good (weight sv) (insert (T_groups, IntV (g_id g)) R))"
    unfolding upsertGroup_body_def group_old_sql_def group_history_def Let_def
    by (rule query_returns [OF up], simp)
      (intro works_then [OF profile_upserts_learn(2)] works_rules group_statements_work sync_names_return up insertI1)
qed

text \<open>Photos and full information: a user or group that is not stored is left alone.\<close>

lemma photo_column:
  assumes "(t, c) \<in> {(T_users, ''profile_photo_file_id''), (T_groups, ''photo_file_id'')}" and "typed_row t r"
    and "known_to R t r"
  obtains "r c = Null" | j where "r c = IntV j" and "(T_files, IntV j) \<in> R"
proof -
  have "(c, or_null Number) \<in> set (column_types t)" "(c, T_files) \<in> set (td_fkeys (schema t))"
    using assms(1) by (auto simp: type_defs table_defs)
  then have "conforms (or_null Number) (r c)" and "r c = Null \<or> (T_files, r c) \<in> R"
    using typed_rowD [OF assms(2)] assms(3) by (auto simp: known_to_def)
  with that show thesis by (cases "r c") (auto simp: conforms_def)
qed

lemma photo_track_returns:
  assumes up: "answers sv" and fid: "(T_files, IntV fid) \<in> R"
    and tc: "(t, c) \<in> {(T_users, ''profile_photo_file_id''), (T_groups, ''photo_file_id'')}"
    and hist: "\<And>R' j. (t, IntV i) \<in> R' \<Longrightarrow> (T_files, IntV j) \<in> R' \<Longrightarrow> returns sv R' (do_insert st [IntV i, IntV j])"
  shows "returns sv R (tx_bind (do_query (Select [Col c] (Some t) [(''id'', sql_expr.Arg 0)]) [IntV i]) (\<lambda>rows.
     if rows = [] then tx_return ()
     else if first_value rows = Null then tx_bind (do_insert st [IntV i, IntV fid]) (\<lambda>_. tx_return ())
     else tx_bind (stoll (first_value rows)) (\<lambda>old_id. if old_id = fid then tx_return ()
       else tx_bind (do_insert st [IntV i, IntV old_id]) (\<lambda>_. tx_return ()))))" (is "returns sv R (tx_bind _ ?f)")
proof (rule query_by_id [where cols = "[c]", simplified list.map, OF up])
  fix r rs R'
  assume typed: "typed_row t r" and sub: "R \<subseteq> R'" and i: "(t, IntV i) \<in> R'" and known: "known_to R' t r"
  from sub fid have fid': "(T_files, IntV fid) \<in> R'" by blast
  from tc typed known have "returns sv R' (?f ([r c] # rs))"
    by (cases rule: photo_column) (auto simp: first_value_def intro!: works_rules hist i fid')
  then show "works sv (good (weight sv) R') (?f ([r c] # rs)) (\<lambda>_. good (weight sv) R)"
    using sub by (rule returns_known)
qed (simp add: works_rules)

lemma photo_bodies_return:
  assumes up: "answers sv" and fid: "(T_files, IntV fid) \<in> R"
  shows "returns sv R (setUserProfilePhoto_body i fid)" and "returns sv R (setGroupPhoto_body i fid)"
  unfolding setUserProfilePhoto_body_def trackProfilePhotoChange_def user_photo_old_sql_def
    setGroupPhoto_body_def trackGroupPhotoChange_def group_photo_old_sql_def
  by (intro returns_then photo_track_returns [OF up fid] profile_updates_work [OF up] fid
      user_statements_work(6) [OF up] group_statements_work(5) [OF up]; simp)+

lemma full_info_returns:
  assumes up: "answers sv"
  shows "returns sv R (upsertUserFullInfo_body fi)"
  unfolding upsertUserFullInfo_body_def user_bio_old_sql_def Let_def
proof (rule query_by_id [where cols = "[''bio'']", simplified list.map, OF up], goal_cases)
  case (2 r rs R')
  then have "returns sv R' (do_insert user_bio_hist_sql [IntV (fi_user_id fi), TextV old])" for old
    by (intro user_statements_work(5) [OF up])
  then show ?case
    by (intro returns_known [OF _ 2(2)]) (auto intro!: works_rules profile_updates_work(3) [OF up])
qed (simp add: works_rules)

section \<open>Administrators\<close>

lemma delete_works:
  assumes "answers sv" and "length args = length (sets_args wh)" and "\<not> referenced t" and "\<And>v. (t, v) \<notin> R"
  shows "returns sv R (do_execute (Delete t wh) args)"
proof (rule works_execute [OF assms(1)], intro exI conjI)
  fix d au assume good: "good (weight sv) R d au"
  let ?d = "d(t := filter (\<lambda>r. \<not> match (weight sv) args wh r) (d t))"
  show run: "exec_stmt (weight sv) args (Delete t wh) d au = Inr (?d, au)"
    using assms(2,3) by (simp add: exec_stmt_def)
  have "has_id ?d t' v" if "(t', v) \<in> R" for t' v
    using good_parts(3) [OF good that] assms(4) that by (auto simp: has_id_def)
  with good exec_stmt_db_ok [OF _ run] exec_stmt_typed [OF _ run] show "good (weight sv) R ?d au"
    by (auto simp: good_def)
qed

lemma admin_statements_work:
  assumes up: "answers sv" and g: "(T_groups, IntV g) \<in> R"
  shows "(T_users, IntV (a_user_id a)) \<in> R \<Longrightarrow> returns sv R (do_execute admin_upsert_sql
      (push_rights [IntV g, IntV (a_user_id a), TextV (admin_status a), TextV n, IntV j, IntV k] a))"
    and "stmt_typed admin_hist_sql (IntV g # vs) \<Longrightarrow> length vs = 21 \<Longrightarrow> returns sv R (do_execute admin_hist_sql (IntV g # vs))"
    and "(\<And>v. (T_group_admins, v) \<notin> R) \<Longrightarrow> returns sv R (do_execute admin_delete_sql [x, y])"
proof -
  show "returns sv R (do_execute admin_delete_sql [x, y])" if "\<And>v. (T_group_admins, v) \<notin> R"
    unfolding admin_delete_sql_def
    by (rule delete_works [OF up]) (simp_all add: that referenced_def enum_tname_def table_defs)
  show "returns sv R (do_execute admin_hist_sql (IntV g # vs))"
    if "stmt_typed admin_hist_sql (IntV g # vs)" and "length vs = 21"
    using that unfolding admin_hist_sql_def
    by (intro log_works [OF up]) (auto simp: known_to_def new_row_def table_defs g admin_right_columns_def)
  show "returns sv R (do_execute admin_upsert_sql
      (push_rights [IntV g, IntV (a_user_id a), TextV (admin_status a), TextV n, IntV j, IntV k] a))"
    if u: "(T_users, IntV (a_user_id a)) \<in> R"
    using admin_statements_typed(1) unfolding admin_upsert_sql_def
    by (intro upsert_works [OF up])
      (auto simp: known_to_def new_row_def table_defs g u admin_value_columns_def admin_right_columns_def push_rights_def)
qed

lemma load_admins_returns:
  assumes "\<And>r. r \<in> set rows \<Longrightarrow> \<exists>i. r ! 0 = IntV i"
  shows "returns sv R (load_admins rows m)"
  using assms
proof (induction rows arbitrary: m)
  case (Cons r rows)
  then obtain i where "r ! 0 = IntV i" by auto
  with Cons show ?case by (auto intro: works_rules)
qed (simp add: works_rules)

lemma admin_body_returns:
  assumes up: "answers sv" and g: "(T_groups, IntV (al_group_id l)) \<in> R"
    and users: "\<And>a. a \<in> set (al_admins l) \<Longrightarrow> (T_users, IntV (a_user_id a)) \<in> R"
    and no: "\<And>v. (T_group_admins, v) \<notin> R"
  shows "returns sv R (syncGroupAdmins_body l)"
  unfolding syncGroupAdmins_body_def admin_old_sql_def
proof (rule query_returns [OF up], simp add: o_def)
  let ?cols = "[''user_id'', ''status'', ''custom_title''] @ admin_right_columns"
  fix rs :: "row list"
  let ?rows = "map (\<lambda>r. map (eval_expr (weight sv) [IntV (al_group_id l)] r Null) (map Col ?cols)) rs"
  assume rs: "list_all (typed_row T_group_admins) rs"
  have row: "(\<exists>i. r ! 0 = IntV i) \<and> (\<exists>k\<in>set admin_kinds. r ! 1 = TextV k)" if "r \<in> set ?rows" for r
  proof -
    from that rs obtain x where x: "typed_row T_group_admins x" and r: "r ! 0 = x ''user_id''" "r ! 1 = x ''status''"
      by (auto simp: list_all_iff)
    have "conforms number (x ''user_id'')" and status: "conforms (Enum admin_kinds, False) (x ''status'')"
      by (rule typed_rowD [OF x], simp add: type_defs)+
    moreover from status have "\<exists>k\<in>set admin_kinds. x ''status'' = TextV k"
      by (cases "x ''status''") (auto simp: conforms_def)
    ultimately show ?thesis unfolding r by (simp add: conforms_number)
  qed
  have "returns sv R (admin_upsert (al_group_id l) m a)" if "a \<in> set (al_admins l)" for m a
    unfolding admin_upsert_def Let_def using admin_statements_work(1,2) [OF up g] admin_statements_typed(2) users [OF that]
    by (auto intro!: works_rules simp: push_rights_def kinds_defs)
  moreover have "returns sv R (admin_removal (al_group_id l) (al_admins l) r)" if "r \<in> set ?rows" for r
  proof -
    from row [OF that] obtain i k where ik: "r ! 0 = IntV i" "r ! 1 = TextV k" "k \<in> set admin_kinds" by blast
    show ?thesis
      unfolding admin_removal_def ik(1,2) using admin_statements_work(2,3) [OF up g] admin_statements_typed(3) [OF ik(3)] no
      by (auto intro!: works_rules)
  qed
  ultimately show "returns sv R (tx_bind (load_admins ?rows []) (\<lambda>old_map.
      tx_then (tx_for (admin_upsert (al_group_id l) old_map) (al_admins l))
        (tx_for (admin_removal (al_group_id l) (al_admins l)) ?rows)))"
    using row by (intro returns_bind load_admins_returns returns_then returns_for) blast+
qed

section \<open>Messages\<close>

definition message_tables :: "(tname \<times> tname \<times> tname \<times> string \<times> tname) set" where
  "message_tables =
     {(T_private_messages, T_private_message_edits, T_private_message_fwd_info, ''private_message_id'', T_users),
      (T_group_messages, T_group_message_edits, T_group_message_fwd_info, ''group_message_id'', T_groups)}"

lemma message_tables_cases [consumes 1, case_names one_to_one group_chat]:
  assumes "(t, e, f, fk, chats) \<in> message_tables"
  obtains "t = T_private_messages" "e = T_private_message_edits" "f = T_private_message_fwd_info"
      "fk = ''private_message_id''" "chats = T_users"
  | "t = T_group_messages" "e = T_group_message_edits" "f = T_group_message_fwd_info"
      "fk = ''group_message_id''" "chats = T_groups"
  using assms unfolding message_tables_def by blast

definition sender_known :: "(tname \<times> sql_val) set \<Rightarrow> ForwardInfo option \<Rightarrow> bool" where
  "sender_known R info \<longleftrightarrow>
     (\<forall>fw u. info = Some fw \<and> origin_sender_user_id fw = Some u \<longrightarrow> (T_users, IntV u) \<in> R)"

lemma snapshot_returns:
  assumes up: "answers sv" and t: "(t, e, f, fk, chats) \<in> message_tables" and i: "(t, IntV i) \<in> R"
    and fid: "opt_int (content_file_id oc) = Null \<or> (T_files, opt_int (content_file_id oc)) \<in> R"
  shows "returns sv R (snapshotMessageEditIfChanged e fk i oc od nc nd)"
proof -
  have "returns sv R (do_execute (edit_insert_sql e fk) [IntV i, TextV (content_type_to_string (content_type oc)),
      opt_text (content_text oc), opt_int (content_file_id oc), IntV nd])"
    unfolding edit_insert_sql_def
    using t i fid
    by (cases rule: message_tables_cases; hypsubst; intro log_works [OF up]) (simp_all add: known_to_def new_row_def stmt_eval)
  then show ?thesis unfolding snapshotMessageEditIfChanged_def by (intro works_rules)
qed

text \<open>Forward information is inserted only when the message has none.\<close>

lemma forward_accepted:
  assumes t: "(t, e, f, fk, chats) \<in> message_tables" and i: "(t, IntV i) \<in> R" and sender: "sender_known R (Some fw)"
    and good: "good w R d au" and none: "\<forall>r\<in>set (d f). r fk \<noteq> IntV i"
  shows "\<exists>d' au'. exec_stmt w (IntV i # fwd_values fw) (fwd_insert_sql f fk) d au = Inr (d', au') \<and> good w R d' au'"
proof -
  let ?args = "IntV i # fwd_values fw"
  let ?cols = "[fk, ''origin_type'', ''origin_sender_user_id'', ''origin_sender_name'', ''origin_chat_id'',
    ''origin_message_id'', ''origin_date'']"
  let ?vals = "[sql_expr.Arg 0, sql_expr.Arg 1, sql_expr.Arg 2, sql_expr.Arg 3, sql_expr.Arg 4, sql_expr.Arg 5, sql_expr.Arg 6]"
  let ?new = "new_row w ?args f ?cols ?vals au"
  have typed: "stmt_typed (fwd_insert_sql f fk) ?args"
    using t by (cases rule: message_tables_cases) (simp_all add: stmt_eval fwd_values_def)
  have table: "td_auto (schema f)" "td_uniques (schema f) = [[''id''], [fk]]" "?new fk = IntV i"
    using t by (cases rule: message_tables_cases; simp add: table_defs new_row_def)+
  have "opt_int (origin_sender_user_id fw) = Null \<or> (T_users, opt_int (origin_sender_user_id fw)) \<in> R"
    using sender by (cases "origin_sender_user_id fw") (simp_all add: sender_known_def opt_int_def)
  with t i have "known_to R f ?new"
    by (cases rule: message_tables_cases) (simp_all add: known_to_def table_defs new_row_def fwd_values_def)
  moreover have "\<not> conflict w f ?new r" if "r \<in> set (d f)" for r
    using none fresh_counter [OF good_parts(1) [OF good] table(1) that] that
    by (simp add: conflict_def table new_row_id del: One_nat_def)
  ultimately have "\<exists>d' au'. exec_stmt w ?args (fwd_insert_sql f fk) d au = Inr (d', au')"
    unfolding fwd_insert_sql_def
    by (intro fresh_accepted [OF good_parts(1) [OF good]] known_fk [OF good]) (simp_all add: fwd_values_def)
  with stmt_good [OF good typed] show ?thesis by (auto simp: fwd_insert_sql_def)
qed

lemma forward_returns:
  assumes up: "answers sv" and t: "(t, e, f, fk, chats) \<in> message_tables" and i: "(t, IntV i) \<in> R"
    and sender: "sender_known R (Some fw)"
  shows "returns sv R (insertForwardInfo f fk i fw)"
  unfolding insertForwardInfo_alt
proof (rule works_bind)
  let ?post = "\<lambda>rows d au. good (weight sv) R d au \<and> (rows = [] \<longrightarrow> (\<forall>r\<in>set (d f). r fk \<noteq> IntV i))"
  show "works sv (good (weight sv) R) (do_query (fwd_exists_sql f fk) [IntV i]) ?post"
    unfolding fwd_exists_sql_def by (rule works_query [OF up]) (auto simp: exec_query_Inr_iff filter_empty_conv)
  show "works sv (?post rows) (if rows \<noteq> [] then tx_return ()
      else do_execute (fwd_insert_sql f fk) (IntV i # fwd_values fw)) (\<lambda>_. good (weight sv) R)" for rows
    using forward_accepted [OF t i sender] by (auto intro!: works_return works_execute [OF up])
qed

lemma sender_known_mono: "sender_known R info \<Longrightarrow> R \<subseteq> R' \<Longrightarrow> sender_known R' info"
  unfolding sender_known_def by blast

lemma message_new_returns:
  assumes up: "answers sv" and t: "(t, e, f, fk, chats) \<in> message_tables" and sender: "sender_known R info"
    and ups: "\<not> del \<Longrightarrow> returns sv R (do_execute st args)"
  shows "returns sv R (message_new t f fk st args c m del info)"
proof -
  have "returns sv R (tx_bind (do_query (id_sql t) [IntV c, IntV m]) (\<lambda>new_rows.
      case info of None \<Rightarrow> tx_return () | Some fw \<Rightarrow>
        (if new_rows \<noteq> [] \<and> first_value new_rows \<noteq> Null
         then tx_bind (stoll (first_value new_rows)) (\<lambda>i. insertForwardInfo f fk i fw) else tx_return ())))"
      (is "returns sv R (tx_bind _ ?f)")
    unfolding id_sql_def
  proof (rule query_learns [OF up], simp)
    fix rs assume rs: "list_all (typed_row t) rs"
    let ?R = "R \<union> learned t rs"
    have "returns sv ?R (?f (map (\<lambda>r. [r ''id'']) rs))"
    proof (cases rs)
      case (Cons r rest)
      with rs obtain i where i: "r ''id'' = IntV i" using typed_rowD [OF _ id_type] by (auto simp: conforms_number)
      then have "(t, IntV i) \<in> ?R" by (force simp: Cons learned_def)
      moreover have "sender_known ?R info" using sender by (rule sender_known_mono) simp
      ultimately show ?thesis
        using forward_returns [OF up t] i Cons by (auto simp: first_value_def intro!: works_rules split: option.split)
    qed (auto intro: works_rules)
    moreover have "map (\<lambda>r. map (eval_expr (weight sv) [IntV c, IntV m] r Null) [Col ''id'']) rs = map (\<lambda>r. [r ''id'']) rs"
      by simp
    ultimately show "works sv (good (weight sv) ?R)
        (?f (map (\<lambda>r. map (eval_expr (weight sv) [IntV c, IntV m] r Null) [Col ''id'']) rs)) (\<lambda>_. good (weight sv) R)"
      by (simp only:) (rule returns_known, simp_all)
  qed
  with ups show ?thesis unfolding message_new_def
    by (cases del) (simp_all only: if_True if_False works_rules refl not_False_eq_True)
qed

lemma message_change_returns:
  assumes up: "answers sv" and t: "(t, e, f, fk, chats) \<in> message_tables" and sender: "sender_known R info"
    and typed: "typed_row t r" and known: "known_to R t r" and i: "(t, IntV i) \<in> R"
    and ups: "returns sv R (do_execute st args)"
  shows "returns sv R (message_change e f fk st args con ed info
    [v, w, r ''content_type'', r ''text'', r ''file_id'', x] i od)"
proof -
  have "(''file_id'', or_null Number) \<in> set (column_types t)" "(''file_id'', T_files) \<in> set (td_fkeys (schema t))"
    using t by (cases rule: message_tables_cases; simp add: type_defs table_defs)+
  then have "conforms (or_null Number) (r ''file_id'')" and fid: "r ''file_id'' = Null \<or> (T_files, r ''file_id'') \<in> R"
    using typed_rowD [OF typed] known by (auto simp: known_to_def)
  then have "r ''file_id'' = opt_int (int_opt (r ''file_id''))"
    by (cases "r ''file_id''") (auto simp: conforms_def opt_int_def)
  then obtain fo where fo: "r ''file_id'' = opt_int fo" ..
  let ?old = "\<lparr>content_type = message_content_type_from_string (text_or (r ''content_type'') ''unknown''),
    content_text = text_opt (r ''text''), content_file_id = fo\<rparr>"
  have "old_content_of [v, w, r ''content_type'', r ''text'', r ''file_id'', x] = tx_return ?old"
    unfolding old_content_of_def fo
    by (cases fo) (simp_all add: opt_int_def stoll_def tx_bind_def tx_return_def)
  moreover have "returns sv R (snapshotMessageEditIfChanged e fk i ?old od con ed)"
    using snapshot_returns [OF up t i] fid by (simp add: fo)
  moreover have "returns sv R (case info of None \<Rightarrow> tx_return () | Some fw \<Rightarrow> insertForwardInfo f fk i fw)"
    using forward_returns [OF up t i] sender by (auto intro: works_rules split: option.split)
  ultimately show ?thesis
    unfolding message_change_def using ups by (simp only: return_bind) (intro returns_bind returns_then; assumption)
qed

lemma message_upsert_returns:
  assumes up: "answers sv" and t: "(t, e, f, fk, chats) \<in> message_tables" and sender: "sender_known R info"
    and ups: "\<And>R'. R \<subseteq> R' \<Longrightarrow> (chats, IntV c) \<in> R' \<Longrightarrow> returns sv R' (do_execute st args)"
    and chat: "del \<or> (chats, IntV c) \<in> R"
  shows "returns sv R (message_upsert t e f fk st args c m con ed del info)"
  unfolding message_upsert_def old_sql_def
proof (rule query_learns [OF up], simp)
  fix rs assume rs: "list_all (typed_row t) rs"
    and key: "list_all (match (weight sv) [IntV c, IntV m] [(''chat_id'', sql_expr.Arg 0), (''message_id'', sql_expr.Arg 1)]) rs"
  let ?R = "R \<union> learned t rs"
  let ?rows = "map (\<lambda>r. map (eval_expr (weight sv) [IntV c, IntV m] r Null)
    [Col ''id'', Col ''edit_date'', Col ''content_type'', Col ''text'', Col ''file_id'', Col ''is_deleted'']) rs"
  let ?rest = "\<lambda>rows. if rows = [] then message_new t f fk st args c m del info
    else tx_bind (stoll (hd rows ! 0)) (\<lambda>i.
      tx_bind (if hd rows ! 1 \<noteq> Null then stoll (hd rows ! 1) else tx_return 0) (\<lambda>old_ed.
      if del \<and> hd rows ! 5 \<noteq> IntV 1 then do_execute (delete_sql t) [IntV i]
      else message_change e f fk st args con ed info (hd rows) i old_ed))"
  have "returns sv ?R (?rest ?rows)"
  proof (cases rs)
    case Nil
    with chat ups [of ?R] sender_known_mono [OF sender, of ?R] show ?thesis
      by (auto intro!: message_new_returns [OF up t])
  next
    case (Cons r rest)
    from rs Cons have typed: "typed_row t r" by simp
    have "(''edit_date'', number) \<in> set (column_types t)" "(''chat_id'', chats) \<in> set (td_fkeys (schema t))"
      using t by (cases rule: message_tables_cases; simp add: type_defs table_defs)+
    with typed_rowD [OF typed] id_type obtain i od where "r ''id'' = IntV i" "r ''edit_date'' = IntV od"
      by (meson conforms_number)
    moreover have "r ''chat_id'' = IntV c" using key Cons by simp
    ultimately have i: "(t, IntV i) \<in> ?R" and c: "(chats, IntV c) \<in> ?R" and known: "known_to ?R t r"
      using \<open>(''chat_id'', chats) \<in> set (td_fkeys (schema t))\<close>
      by (force simp: Cons learned_def known_to_def)+
    have "returns sv ?R (do_execute (delete_sql t) [IntV i])"
      unfolding delete_sql_def using t
      by (cases rule: message_tables_cases; hypsubst; intro update_works [OF up]) (auto simp: stmt_eval)
    moreover have "returns sv ?R (message_change e f fk st args con ed info
        [IntV i, IntV od, r ''content_type'', r ''text'', r ''file_id'', r ''is_deleted''] i od)"
      by (rule message_change_returns [OF up t sender_known_mono [OF sender] typed known i ups]) (use c in auto)
    ultimately show ?thesis
      using \<open>r ''id'' = IntV i\<close> \<open>r ''edit_date'' = IntV od\<close> by (auto simp: Cons intro!: works_rules)
  qed
  then show "works sv (good (weight sv) ?R) (?rest ?rows) (\<lambda>_. good (weight sv) R)"
    by (rule returns_known) simp
qed

text \<open>The two families: the statement of the upsert, then the whole body.\<close>

definition null_or :: "(tname \<times> sql_val) set \<Rightarrow> tname \<Rightarrow> int option \<Rightarrow> bool" where
  "null_or R t v \<longleftrightarrow> (\<forall>i. v = Some i \<longrightarrow> (t, IntV i) \<in> R)"

lemma null_or_opt: "null_or R t v \<Longrightarrow> opt_int v = Null \<or> (t, opt_int v) \<in> R"
  by (cases v) (simp_all add: null_or_def opt_int_def)

lemma null_or_mono: "null_or R t v \<Longrightarrow> R \<subseteq> R' \<Longrightarrow> null_or R' t v"
  unfolding null_or_def by blast

lemma message_upserts_work:
  assumes up: "answers sv"
  shows "(T_users, IntV (pm_chat_id x)) \<in> R \<Longrightarrow> null_or R T_users (pm_sender_id x) \<Longrightarrow>
      returns sv R (do_execute pm_upsert_sql (pm_params x))"
    and "(T_groups, IntV (gm_chat_id y)) \<in> R \<Longrightarrow> null_or R T_users (gm_sender_user_id y) \<Longrightarrow>
      null_or R T_groups (gm_sender_chat_id y) \<Longrightarrow> returns sv R (do_execute gm_upsert_sql (gm_params y))"
proof -
  show "(T_users, IntV (pm_chat_id x)) \<in> R \<Longrightarrow> null_or R T_users (pm_sender_id x) \<Longrightarrow>
      returns sv R (do_execute pm_upsert_sql (pm_params x))"
    unfolding pm_upsert_sql_def
    by (rule upsert_works [OF up message_statements_typed(1) [unfolded pm_upsert_sql_def]])
      (auto simp: known_to_def new_row_def table_defs blank_row_def pm_params_def dest: null_or_opt)
  show "(T_groups, IntV (gm_chat_id y)) \<in> R \<Longrightarrow> null_or R T_users (gm_sender_user_id y) \<Longrightarrow>
      null_or R T_groups (gm_sender_chat_id y) \<Longrightarrow> returns sv R (do_execute gm_upsert_sql (gm_params y))"
    unfolding gm_upsert_sql_def
    by (rule upsert_works [OF up message_statements_typed(2) [unfolded gm_upsert_sql_def]])
      (auto simp: known_to_def new_row_def table_defs blank_row_def gm_params_def dest: null_or_opt)
qed

lemma private_body_returns:
  assumes up: "answers sv" and "pm_is_deleted x \<or> (T_users, IntV (pm_chat_id x)) \<in> R"
    and "null_or R T_users (pm_sender_id x)" and "sender_known R (pm_forward_info x)"
  shows "returns sv R (upsertPrivateMessage_body x)"
  unfolding pm.body_eq
  by (rule message_upsert_returns [OF up _ assms(4) _ assms(2)], simp add: message_tables_def,
      fold pm_upsert_sql_def, rule message_upserts_work(1) [OF up _ null_or_mono [OF assms(3)]])

lemma group_body_returns:
  assumes up: "answers sv" and "gm_is_deleted y \<or> (T_groups, IntV (gm_chat_id y)) \<in> R"
    and "null_or R T_users (gm_sender_user_id y)" and "null_or R T_groups (gm_sender_chat_id y)"
    and "sender_known R (gm_forward_info y)"
  shows "returns sv R (upsertGroupMessage_body y)"
  unfolding gm.body_eq
  by (rule message_upsert_returns [OF up _ assms(5) _ assms(2)], simp add: message_tables_def, fold gm_upsert_sql_def,
      rule message_upserts_work(2) [OF up _ null_or_mono [OF assms(3)] null_or_mono [OF assms(4)]])

text \<open>The links. The reply's left join yields NULL or the id of a stored message.\<close>

lemma file_links_work:
  assumes up: "answers sv" and f: "(T_files, IntV f) \<in> R"
  shows "returns sv R (do_execute pm_file_sql [IntV f, v, x])" and "returns sv R (do_execute gm_file_sql [IntV f, v, x])"
  unfolding pm_file_sql_def gm_file_sql_def
  by (rule update_works; auto simp: up f stmt_eval)+

lemma join_id_known: "join_id w args join rs = Null \<or> join_id w args join rs \<in> ids rs"
  by (auto simp: join_id_def ids_def split: option.split dest: find_Some_mem)

lemma reply_link_works:
  assumes up: "answers sv" and t: "(t, e, f, fk, chats) \<in> message_tables"
  shows "returns sv R (do_execute (reply_sql t) [v, x, IntV i, IntV j, y, z])"
proof (rule good_works [OF up])
  let ?args = "[v, x, IntV i, IntV j, y, z]" and ?w = "weight sv"
  let ?join = "Some [(''chat_id'', sql_expr.Arg 0), (''message_id'', sql_expr.Arg 1)]"
  let ?sets = "[(''reply_to_chat_id'', sql_expr.Arg 2), (''reply_to_msg_id'', sql_expr.Arg 3), (''reply_to_id'', JoinId)]"
  show "stmt_typed (reply_sql t) ?args" and "\<not> deletes (reply_sql t)"
    using t by (cases rule: message_tables_cases; simp add: reply_sql_def stmt_eval)+
  fix d au assume good: "good ?w R d au"
  have "fk_row d t (apply_sets ?w ?args (join_id ?w ?args ?join (d t)) ?sets r)" if "r \<in> set (d t)" for r
    using t row_fk [OF good that] join_id_known [of ?w ?args ?join "d t"]
    by (cases rule: message_tables_cases; simp add: fk_row_def has_id_ids table_defs)
  then show "\<exists>d' au'. exec_stmt ?w ?args (reply_sql t) d au = Inr (d', au')"
    unfolding reply_sql_def
    by (intro update_accepted good_parts(1) [OF good])
      (use t in \<open>cases rule: message_tables_cases; auto simp: table_defs\<close>)+
qed

end
