(* ===== verification/Db_Journal.thy ===== *)
theory Db_Journal
  imports Db_Message_Props
begin

text \<open>
  The journal of one message: all that the database says about it over time. It is read back from the
  live row and the log of edits, and evolves by one step per version or deletion of that message.
\<close>

section \<open>Journals\<close>

record journal =
  j_versions :: "(MessageContentType \<times> string option) list"
  j_date :: int
  j_deleted :: bool

definition journal_of :: "message_store \<Rightarrow> int \<times> int \<Rightarrow> journal option" where
  "journal_of st k = map_option (\<lambda>l. \<lparr>j_versions = recorded st k, j_date = l_edit_date l, j_deleted = l_deleted l\<rparr>) (fst st k)"

text \<open>
  A deletion of a message that is not deleted only marks it. Otherwise what arrives becomes the last
  version: the one before is kept as well if it says something else and is older.
\<close>

definition journal_step :: "MessageContent \<Rightarrow> int \<Rightarrow> bool \<Rightarrow> journal option \<Rightarrow> journal option" where
  "journal_step con ed del old =
     (case old of
        None \<Rightarrow> if del then None else Some \<lparr>j_versions = [version_of con], j_date = ed, j_deleted = False\<rparr>
      | Some j \<Rightarrow>
          if del \<and> \<not> j_deleted j then Some (j\<lparr>j_deleted := True\<rparr>)
          else Some \<lparr>j_versions =
              (if version_of con = last (j_versions j) then j_versions j
               else if j_date j < ed then j_versions j @ [version_of con]
               else butlast (j_versions j) @ [version_of con]),
            j_date = ed, j_deleted = del\<rparr>)"

lemma journal_message_step:
  assumes "fst st k = None \<Longrightarrow> filter (\<lambda>(i', c, e). i' = IntV i) (fst (snd st)) = []"
  shows "journal_of (message_step i k con ed del info st) k = journal_step con ed del (journal_of st k)"
proof -
  obtain live elog flog where st: "st = (live, elog, flog)" by (cases st)
  show ?thesis
  proof (cases "live k")
    case None
    with assms st show ?thesis
      by (simp add: journal_of_def journal_step_def message_step_def live_step_def recorded_def edit_step_def version_of_def)
  next
    case (Some l)
    then show ?thesis
      by (auto simp: st journal_of_def journal_step_def message_step_def live_step_def recorded_def edit_step_def
          genuine_edit_def version_of_def butlast_append)
  qed
qed

lemma journal_other_step:
  assumes "k' \<noteq> k" and "\<And>l l'. fst st k = Some l \<Longrightarrow> fst st k' = Some l' \<Longrightarrow> l_id l \<noteq> l_id l'"
  shows "journal_of (message_step i k con ed del info st) k' = journal_of st k'"
proof -
  obtain live elog flog where st: "st = (live, elog, flog)" by (cases st)
  with assms show ?thesis
    by (cases "live k"; cases "live k'")
      (auto simp: journal_of_def message_step_def recorded_def edit_step_def)
qed

text \<open>A store with the same logs, whose live messages differ at most in the linked file.\<close>

lemma linked_journals:
  assumes "\<And>k. fst st' k = fst st k \<or> (\<exists>f. fst st' k = map_option (link_file f) (fst st k))"
    and "fst (snd st') = fst (snd st)"
  shows "journal_of st' = journal_of st"
proof
  fix k
  obtain live elog flog live' flog' where st: "st = (live, elog, flog)" "st' = (live', elog, flog')"
    using assms(2) by (cases st; cases st') auto
  show "journal_of st' k = journal_of st k"
    using assms(1) [of k]
    by (cases "live k") (auto simp: st journal_of_def recorded_def link_file_def version_of_def)
qed

section \<open>The two families\<close>

context message_family
begin

lemma ids_apart:
  assumes ok: "db_ok w d au" and "k' \<noteq> k" and "live_store t d k = Some l" and "live_store t d k' = Some l'"
  shows "l_id l \<noteq> l_id l'"
proof
  assume same: "l_id l = l_id l'"
  from assms(3,4) obtain r r' where r: "find (is_key (fst k) (snd k)) (d t) = Some r" "l_id l = r ''id''"
    and r': "find (is_key (fst k') (snd k')) (d t) = Some r'" "l_id l' = r' ''id''"
    by (auto simp: live_store_def live_of_row_def)
  have uniq: "uniq_rows w t (d t)" using ok by (simp add: db_ok_def)
  from find_Some_mem [OF r(1)] find_Some_mem [OF r'(1)] have "r \<in> set (d t)" "r' \<in> set (d t)"
    by blast+
  moreover obtain i where "r ''id'' = IntV i" using ok r(1) by (rule row_id)
  then have "r ''id'' \<noteq> Null" by simp
  ultimately have "r = r'" using same r(2) r'(2) by (intro uniq_rows_id [OF uniq]) (simp_all add: keys)
  with assms(2) find_Some_mem [OF r(1)] find_Some_mem [OF r'(1)] show False by (auto simp: is_key_def prod_eq_iff)
qed

lemma upsert_journals:
  assumes run: "transaction (body x) sv s = (Inr (), u)" and "clean s"
    and ok: "db_ok (weight sv) (view s) (autos s)"
  shows "journal_of (st_of (disk u)) k =
    (if k = (chat x, mid x) then journal_step (con x) (ed x) (del x) (journal_of (st_of (disk s)) k)
     else journal_of (st_of (disk s)) k)"
proof -
  have view: "view s = disk s" using \<open>clean s\<close> by (simp add: clean_def)
  have "filter (\<lambda>(i', c, e). i' = IntV (autos s t)) (fst (snd (st_of (disk s)))) = []"
    using edit_fresh [OF ok] view by simp
  moreover have "journal_of (message_step (autos s t) (chat x, mid x) (con x) (ed x) (del x) (info x) (st_of (disk s))) k =
      journal_of (st_of (disk s)) k" if "k \<noteq> (chat x, mid x)"
    by (rule journal_other_step [OF that]) (use ids_apart [OF ok that] view in simp)
  ultimately show ?thesis
    unfolding upsert_returns(1) [OF assms] by (auto intro: journal_message_step)
qed

end

end
