(* ===== verification/Tg_Logged.thy ===== *)
theory Tg_Logged
  imports Tg_Grounded Db_Success Db_Journal
begin

text \<open>
  From events to rows. On a server that answers, a job whose references are stored is accepted; and
  if the events only mention chats and users introduced before, what the database holds of every
  message is what the events said of it, whichever other jobs ran in between.
\<close>

definition row_refs :: "(tname \<times> int) list \<Rightarrow> (tname \<times> sql_val) set" where
  "row_refs rs = (\<lambda>(t, i). (t, IntV i)) ` set rs"

lemma row_refs_simps [simp]:
  "row_refs [] = {}" "row_refs ((t, i) # rs) = insert (t, IntV i) (row_refs rs)"
  "row_refs (rs @ rs') = row_refs rs \<union> row_refs rs'"
  by (simp_all add: row_refs_def image_Un)

lemma opt_ref_known: "null_or (row_refs (opt_ref t v)) t v"
  by (cases v) (simp_all add: null_or_def opt_ref_def)

lemma forward_refs_known: "sender_known (row_refs (forward_refs info)) info"
  by (auto simp: sender_known_def forward_refs_def opt_ref_def)

section \<open>Accepted jobs\<close>

lemma body_accepted:
  assumes up: "answers sv" and "job_body j = Some fn"
  shows "\<exists>R. works sv (good (weight sv) (row_refs (refs_of j))) fn (\<lambda>_. good (weight sv) R)"
proof (cases j)
  case (J_User u)
  with assms(2) show ?thesis using profile_bodies_work(1) [OF up] by auto
next
  case (J_Group g)
  with assms(2) show ?thesis using profile_bodies_work(2) [OF up] by auto
next
  case (J_FullInfo fi)
  with assms(2) show ?thesis using full_info_returns [OF up] by auto
next
  case (J_Admins l)
  have "returns sv (row_refs (refs_of j)) (syncGroupAdmins_body l)"
    by (rule admin_body_returns [OF up]) (auto simp: J_Admins row_refs_def)
  with J_Admins assms(2) show ?thesis by auto
next
  case (J_Private pm)
  have "returns sv (row_refs (refs_of j)) (upsertPrivateMessage_body pm)"
    by (rule private_body_returns [OF up _ null_or_mono [OF opt_ref_known] sender_known_mono [OF forward_refs_known]])
      (auto simp: J_Private)
  with J_Private assms(2) show ?thesis by auto
next
  case (J_Group_Message gm)
  have "returns sv (row_refs (refs_of j)) (upsertGroupMessage_body gm)"
    by (rule group_body_returns [OF up _ null_or_mono [OF opt_ref_known] null_or_mono [OF opt_ref_known]
          sender_known_mono [OF forward_refs_known]]) (auto simp: J_Group_Message)
  with J_Group_Message assms(2) show ?thesis by auto
next
  case (J_Profile_Photo u f)
  with assms(2) photo_bodies_return(1) [OF up, of f "row_refs (refs_of j)" u] show ?thesis by auto
next
  case (J_Group_Photo g f)
  with assms(2) photo_bodies_return(2) [OF up, of f "row_refs (refs_of j)" g] show ?thesis by auto
qed (use assms(2) in auto)

lemma update_accepted_alone:
  assumes up: "answers sv" and "returns sv R (do_execute st args)" and "good (weight sv) R (view s) (autos s)"
  shows "\<exists>u. db_execute st args sv s = (Inr (), u)"
  using worksD [OF assms(2), of "s\<lparr>clk := Suc (clk s)\<rparr>"] assms(1,3)
  by (auto simp: db_execute_def scoped_connection_eq answers_def)

lemma link_accepted:
  assumes up: "answers sv" and "job_body j = None" and good: "good (weight sv) (row_refs (refs_of j)) (view s) (autos s)"
  shows "\<exists>u. run_op j sv s = (Inr (), u)"
proof (cases j)
  case (J_Reply mr)
  have "returns sv {} (do_execute (reply_sql t) [v, x, IntV i, IntV k, y, z])"
    if "t \<in> {T_private_messages, T_group_messages}" for t v x i k y z
    using reply_link_works [OF up] that by (auto simp: message_tables_def)
  from update_accepted_alone [OF up this] good J_Reply show ?thesis
    by (simp add: setGroupMessageReply_def setPrivateMessageReply_def message_updates)
next
  case (J_Message_File c m g f)
  note links = file_links_work [OF up, of f "row_refs (refs_of j)" "IntV c" "IntV m"]
  from links [THEN update_accepted_alone [OF up], of s] J_Message_File good
  show ?thesis by (simp add: setGroupMessageFile_def setPrivateMessageFile_def)
qed (use assms(2) in simp_all)

lemma good_refs:
  assumes "db_ok w d au" and "typed_rows w d au" and "\<forall>(t, i)\<in>set rs. has_id d t (IntV i)"
  shows "good w (row_refs rs) d au"
  using assms by (auto simp: good_def row_refs_def)

lemma job_returns:
  assumes up: "answers sv" and good: "good (weight sv) (row_refs (refs_of j)) (view s) (autos s)"
  shows "\<exists>u. run_op j sv s = (Inr (), u)"
proof (cases "job_body j")
  case (Some fn)
  from body_accepted [OF up Some] obtain R where "works sv (good (weight sv) (row_refs (refs_of j))) fn (\<lambda>_. good (weight sv) R)" ..
  from works_transaction [OF up this good] obtain u where "transaction fn sv s = (Inr (), u)" by auto
  with run_op_transaction [OF Some] show ?thesis by auto
qed (use link_accepted [OF up] good in blast)

section \<open>A server that answers leaves no transaction open\<close>

definition tidy :: "server \<Rightarrow> session \<Rightarrow> bool" where
  "tidy sv s \<longleftrightarrow> clean s \<and> db_ok (weight sv) (disk s) (autos s) \<and> typed_rows (weight sv) (disk s) (autos s)"

lemma tidy_good:
  assumes "tidy sv s" and "\<forall>(t, i)\<in>set rs. has_id (disk s) t (IntV i)"
  shows "good (weight sv) (row_refs rs) (view s) (autos s)"
  using assms by (auto simp: tidy_def clean_def good_def row_refs_def)

lemma tidy_both: "tidy sv s \<Longrightarrow> both_ok db_ok sv s" "tidy sv s \<Longrightarrow> both_ok typed_rows sv s" "tidy sv s \<Longrightarrow> sound sv s"
  by (simp_all add: tidy_def clean_def both_ok_def sound_def permanence.Q_refl)

lemma tidyI: "clean s \<Longrightarrow> both_ok db_ok sv s \<Longrightarrow> both_ok typed_rows sv s \<Longrightarrow> tidy sv s"
  by (simp add: tidy_def clean_def both_ok_def)

lemma answered_transaction:
  assumes up: "answers sv" and iso: "keeps isolation fn" and run: "transaction fn sv s = (r, t)" and "clean s"
  shows "clean t" and "r = Inl e \<Longrightarrow> disk t = disk s"
proof -
  let ?s = "s\<lparr>clk := Suc (Suc (clk s)), autoc := False\<rparr>"
  have begun: "begun s ?s" by (simp add: begun_def)
  obtain x s2 where fn: "fn sv ?s = (x, s2)" by (cases "fn sv ?s")
  have disk: "disk s2 = disk s" using begun_isolated [OF iso begun fn] by simp
  show "clean t" "r = Inl e \<Longrightarrow> disk t = disk s"
    using up run fn disk
    by (auto simp: transaction_def transaction_on_def scoped_connection_eq driver_eqs undo_def rollback_def
        drv_def Let_def answers_def clean_def split: sum.splits)
qed

lemma answered_execute:
  assumes "db_execute st args sv s = (r, t)" and "clean s"
  shows "clean t" and "r = Inl e \<Longrightarrow> disk t = disk s"
  using assms(1)
  by (cases rule: db_execute_outcome; use assms(2) in \<open>simp add: clean_def\<close>)+

lemma run_jobE:
  obtains (body) fn r where "job_body j = Some fn" and "transaction fn sv s = (r, run_job j sv s)"
  | (update) st args r where "job_body j = None" and "run_op j = db_execute st args" and "st \<in> job_updates"
      and "db_execute st args sv s = (r, run_job j sv s)"
proof -
  obtain r t where run: "run_op j sv s = (r, t)" by (cases "run_op j sv s")
  then have t: "run_job j sv s = t" by (simp add: run_job_def split: sum.split)
  show thesis
  proof (cases "job_body j")
    case None
    with run_op_shape [of j] obtain st args where "st \<in> job_updates" "run_op j = db_execute st args" by auto
    with None run t update show thesis by auto
  next
    case (Some fn)
    with run_op_transaction [OF Some] run t body show thesis by auto
  qed
qed

lemma run_job_tidy:
  assumes up: "answers sv" and "tidy sv s"
  shows "tidy sv (run_job j sv s)"
proof (rule tidyI)
  have "clean s" using assms(2) by (simp add: tidy_def)
  then show "clean (run_job j sv s)"
    by (cases rule: run_jobE [of j sv s])
      (auto intro: answered_transaction [OF up body_contracts(1)] answered_execute)
  show "both_ok db_ok sv (run_job j sv s)"
    using run_job_safe [of sv s j] tidy_both(3) [OF assms(2)] by (simp add: safe_step_def sound_def)
  show "both_ok typed_rows sv (run_job j sv s)" by (rule job_typed [OF tidy_both(2) [OF assms(2)]])
qed

lemma run_job_stays: "tidy sv s \<Longrightarrow> stays (disk s) (disk (run_job j sv s))"
  using run_job_safe [of sv s j] tidy_both(3) [of sv s] by (simp add: safe_step_def)

section \<open>What jobs leave alone\<close>

text \<open>The tables of one message family.\<close>

definition family_tables :: "bool \<Rightarrow> tname set" where
  "family_tables g =
     (if g then {T_group_messages, T_group_message_edits, T_group_message_fwd_info}
      else {T_private_messages, T_private_message_edits, T_private_message_fwd_info})"

definition family_store :: "bool \<Rightarrow> db \<Rightarrow> message_store" where
  "family_store g d = (if g then group_store d else private_store d)"

lemma family_untouched: "untouched (family_tables g) d d' \<Longrightarrow> family_store g d' = family_store g d"
  by (auto simp: untouched_def family_tables_def family_store_def stored_in_def live_store_def edit_log_def fwd_log_def
      split: if_split_asm)

lemma statements_untouched:
  "st \<in> profile_statements \<Longrightarrow> stmt_table st \<notin> family_tables g"
  "st \<in> private_statements \<Longrightarrow> stmt_table st \<notin> family_tables True"
  "st \<in> group_statements \<Longrightarrow> stmt_table st \<notin> family_tables False"
  unfolding profile_statements_def private_statements_def group_statements_def family_tables_def
  by (elim insertE emptyE; simp add: sql_defs delete_sql_def)+

lemma body_untouched:
  assumes up: "answers sv" and run: "transaction fn sv s = (r, t)" and "clean s" and "keeps isolation fn"
    and "keeps (view_rel (untouched (family_tables g))) fn"
  shows "family_store g (disk t) = family_store g (disk s)"
proof -
  have "untouched (family_tables g) (disk s) (view s)" using \<open>clean s\<close> by (simp add: untouched_def clean_def)
  from frame.transaction_related [OF assms(4,5) run this] show ?thesis by (auto intro: family_untouched)
qed

definition message_journal :: "db \<Rightarrow> bool \<times> int \<times> int \<Rightarrow> journal option" where
  "message_journal d k = (case k of (g, c) \<Rightarrow> journal_of (family_store g d) c)"

lemma other_body_untouched:
  assumes "job_body j = Some fn" and "\<And>k v. saying j = Some (k, v) \<Longrightarrow> fst k \<noteq> g"
  shows "keeps (view_rel (untouched (family_tables g))) fn"
proof (cases "saying j")
  case None
  with assms(1) show ?thesis
    using statements_untouched(1) by (cases j) (auto intro!: frame.profile_bodies_keep)
next
  case (Some kv)
  with assms show ?thesis
    using statements_untouched(2,3)
    by (cases j) (auto intro!: frame.private_body_keeps frame.group_body_keeps)
qed

text \<open>The links change the file and the reply of a message only.\<close>

lemma linked_store:
  assumes t: "t \<in> {T_private_messages, T_group_messages}" and frame: "\<And>t'. t' \<noteq> t \<Longrightarrow> d' t' = d t'"
    and live: "\<And>c. live_store t d' c = live_store t d c \<or> (\<exists>f. live_store t d' c = map_option (link_file f) (live_store t d c))"
  shows "message_journal d' k = message_journal d k"
proof -
  have "live_store t' d' c = live_store t' d c \<or> (\<exists>f. live_store t' d' c = map_option (link_file f) (live_store t' d c))" for t' c
    using live [of c] frame [of t'] by (cases "t' = t") (auto simp: live_store_def)
  moreover have "edit_log e fk d' = edit_log e fk d" if "e \<in> {T_private_message_edits, T_group_message_edits}" for e fk
    using frame [of e] t that by (auto simp: edit_log_def)
  ultimately have "journal_of (family_store g d') = journal_of (family_store g d)" for g
    by (intro linked_journals) (simp_all add: family_store_def stored_in_def)
  then show ?thesis by (simp add: message_journal_def split: prod.split)
qed

lemma link_statement:
  assumes t: "t \<in> {T_private_messages, T_group_messages}"
  shows "exec_stmt w [IntV f, IntV c, IntV m] (file_sql t) d au = Inr (d', au') \<Longrightarrow> message_journal d' k = message_journal d k"
    and "exec_stmt w [IntV rc, IntV rm, IntV rc, IntV rm, IntV c, IntV m] (reply_sql t) d au = Inr (d', au') \<Longrightarrow>
      message_journal d' k = message_journal d k"
  using file_effect [of w f c m t d au d' au'] reply_effect [of w rc rm c m t d au d' au']
  by (intro linked_store [OF t]; auto)+

lemma link_shape:
  assumes "job_body j = None"
  obtains (file_link) t f c m where "t \<in> {T_private_messages, T_group_messages}"
      and "run_op j = db_execute (file_sql t) [IntV f, IntV c, IntV m]"
    | (reply_link) t rc rm c m where "t \<in> {T_private_messages, T_group_messages}"
      and "run_op j = db_execute (reply_sql t) [IntV rc, IntV rm, IntV rc, IntV rm, IntV c, IntV m]"
proof (cases j)
  case (J_Reply mr)
  then show thesis
    using reply_link [of "if mr_is_group mr then T_group_messages else T_private_messages" "mr_reply_to_chat_id mr"
        "mr_reply_to_msg_id mr" "mr_chat_id mr" "mr_message_id mr"]
    by (cases "mr_is_group mr") (simp_all add: setGroupMessageReply_def setPrivateMessageReply_def message_updates)
next
  case (J_Message_File c m g f)
  then show thesis
    using file_link [of "if g then T_group_messages else T_private_messages" f c m]
    by (cases g) (simp_all add: setGroupMessageFile_def setPrivateMessageFile_def message_updates)
qed (use assms in simp_all)

lemma update_journals:
  assumes "job_body j = None" and "clean s"
  shows "message_journal (disk (run_job j sv s)) k = message_journal (disk s) k"
proof -
  obtain r t where run: "run_op j sv s = (r, t)" by (cases "run_op j sv s")
  have executed: "message_journal (disk t) k = message_journal (disk s) k"
    if "db_execute st args sv s = (r, t)"
      and "\<And>d au. exec_stmt (weight sv) args st (view s) (autos s) = Inr (d, au) \<Longrightarrow> message_journal d k = message_journal (view s) k"
    for st args
    using that(1) by (cases rule: db_execute_outcome) (use that(2) \<open>clean s\<close> in \<open>auto simp: clean_def\<close>)
  from assms(1) have "message_journal (disk t) k = message_journal (disk s) k"
  proof (cases rule: link_shape)
    case (file_link tn f c m)
    with run show ?thesis by (intro executed) (auto intro: link_statement)
  next
    case (reply_link tn rc rm c m)
    with run show ?thesis by (intro executed) (auto intro: link_statement)
  qed
  then show ?thesis by (simp add: run_job_def run split: sum.split)
qed

section \<open>One job\<close>

definition said_step :: "((bool \<times> int \<times> int) \<times> version) option \<Rightarrow> bool \<times> int \<times> int \<Rightarrow> journal option \<Rightarrow> journal option" where
  "said_step v k old = (case v of None \<Rightarrow> old
     | Some (k', con, ed, del) \<Rightarrow> if k = k' then journal_step con ed del old else old)"

lemma private_job_journal:
  assumes "tidy sv s" and run: "transaction (upsertPrivateMessage_body pm) sv s = (Inr (), t)"
  shows "journal_of (private_store (disk t)) c = (if c = (pm_chat_id pm, pm_message_id pm)
    then journal_step (pm_content pm) (pm_edit_date pm) (pm_is_deleted pm) (journal_of (private_store (disk s)) c)
    else journal_of (private_store (disk s)) c)"
  by (rule pm.upsert_journals [OF run]) (use assms(1) in \<open>simp_all add: tidy_def clean_def\<close>)

lemma group_job_journal:
  assumes "tidy sv s" and run: "transaction (upsertGroupMessage_body gm) sv s = (Inr (), t)"
  shows "journal_of (group_store (disk t)) c = (if c = (gm_chat_id gm, gm_message_id gm)
    then journal_step (gm_content gm) (gm_edit_date gm) (gm_is_deleted gm) (journal_of (group_store (disk s)) c)
    else journal_of (group_store (disk s)) c)"
  by (rule gm.upsert_journals [OF run]) (use assms(1) in \<open>simp_all add: tidy_def clean_def\<close>)

lemma run_job_journals:
  assumes up: "answers sv" and tidy: "tidy sv s"
    and known: "saying j \<noteq> None \<Longrightarrow> \<forall>(t, i)\<in>set (refs_of j). has_id (disk s) t (IntV i)"
  shows "message_journal (disk (run_job j sv s)) k = said_step (saying j) k (message_journal (disk s) k)"
proof -
  have clean: "clean s" using tidy by (simp add: tidy_def)
  obtain g c where k: "k = (g, c)" by (cases k)
  show ?thesis
  proof (cases rule: run_jobE [of j sv s])
    case (body fn r)
    note same = body_untouched [OF up body(2) clean body_contracts(1) [OF body(1)] other_body_untouched [OF body(1)], of g]
    show ?thesis
    proof (cases "\<exists>v c'. saying j = Some ((g, c'), v)")
      case True
      then have "\<exists>u. run_op j sv s = (Inr (), u)"
        by (intro job_returns [OF up tidy_good [OF tidy known]]) auto
      with body run_op_transaction [OF body(1)] have run: "transaction fn sv s = (Inr (), run_job j sv s)" by simp
      from True show ?thesis
      proof (cases j)
        case (J_Private pm)
        with private_job_journal [OF tidy, of pm] run body(1) True k show ?thesis
          by (auto simp: message_journal_def family_store_def said_step_def)
      next
        case (J_Group_Message gm)
        with group_job_journal [OF tidy, of gm] run body(1) True k show ?thesis
          by (auto simp: message_journal_def family_store_def said_step_def)
      qed auto
    next
      case False
      then have "family_store g (disk (run_job j sv s)) = family_store g (disk s)" by (intro same) auto
      with False k show ?thesis
        by (auto simp: message_journal_def said_step_def split: option.split)
    qed
  next
    case (update st args r)
    moreover from this(1) have "saying j = None" by (cases j) simp_all
    ultimately show ?thesis using update_journals [OF update(1) clean] by (simp add: said_step_def)
  qed
qed

lemma run_job_introduced:
  assumes up: "answers sv" and tidy: "tidy sv s" and "(tn, i) \<in> set (introduced j)"
  shows "has_id (disk (run_job j sv s)) tn (IntV i)"
proof -
  have good: "good (weight sv) {} (view s) (autos s)" using tidy_good [OF tidy, of "[]"] by simp
  have learned: "has_id (disk (run_job j sv s)) t' v"
    if body: "job_body j = Some fn" and learns: "works sv (good (weight sv) {}) fn (\<lambda>_. good (weight sv) (insert (t', v) {}))" for fn t' v
  proof -
    obtain u where "transaction fn sv s = (Inr (), u)" and "good (weight sv) {(t', v)} (disk u) (autos u)"
      using works_transaction [OF up learns good] by auto
    moreover from this(1) have "run_job j sv s = u" by (simp add: run_job_def run_op_transaction [OF body])
    ultimately show ?thesis by (simp add: good_def)
  qed
  from assms(3) show ?thesis
    using learned [OF _ profile_bodies_work(1) [OF up]] learned [OF _ profile_bodies_work(2) [OF up]]
    by (cases j) auto
qed

section \<open>All jobs\<close>

lemma file_job_upsert:
  assumes "run_file_job h sd f fs sv s = (l, fs', t)"
  obtains "t = s" | x r where "transaction (upsertFile_body x) sv s = (r, t)"
proof -
  have "t = s \<or> (\<exists>x r. upsertFile x sv s = (r, t))"
    if "storeDownloadedFile h sd path tid sz ty orig fs sv s = (r, fs', t)" for path tid sz ty orig r
    using that by (auto simp: storeDownloadedFile_def Let_def
        split: option.splits if_splits prod.splits sum.splits bool.splits)
  with assms have "t = s \<or> (\<exists>x r. upsertFile x sv s = (r, t))"
    by (cases f) (auto simp: onProfilePhoto_def onGroupPhoto_def onMessageFile_def stored_link_def
        split: prod.splits sum.splits option.splits)
  with that show thesis by (auto simp: upsertFile_def)
qed

lemma run_file_job_tidy:
  assumes up: "answers sv" and tidy: "tidy sv s" and run: "run_file_job h sd f fs sv s = (l, fs', t)"
    and media: "\<And>m. f = F_Message_File m \<Longrightarrow> mf_content_type m \<in> set file_kinds"
  shows "tidy sv t" and "message_journal (disk t) k = message_journal (disk s) k"
proof -
  have clean: "clean s" using tidy by (simp add: tidy_def)
  have "clean t \<and> family_store g (disk t) = family_store g (disk s)" for g
    using run
  proof (cases rule: file_job_upsert)
    case (2 x r)
    have "keeps (view_rel (untouched (family_tables g))) (upsertFile_body x)"
      by (rule frame.file_body_keeps) (rule statements_untouched)
    from body_untouched [OF up 2 clean file_contracts(1) this] answered_transaction(1) [OF up file_contracts(1) 2 clean]
    show ?thesis by simp
  qed (use clean in simp)
  moreover have "both_ok db_ok sv t"
    using run_file_job_safe [OF run] tidy_both(3) [OF tidy] by (simp add: safe_step_def sound_def)
  ultimately show "tidy sv t" "message_journal (disk t) k = message_journal (disk s) k"
    using run_file_job_typed [OF run tidy_both(2) [OF tidy] media]
    by (auto intro: tidyI simp: message_journal_def split: prod.split)
qed

definition sayings :: "bool \<times> int \<times> int \<Rightarrow> serial_job list \<Rightarrow> version list" where
  "sayings k js = concat (map (\<lambda>j. case saying j of None \<Rightarrow> [] | Some (k', v) \<Rightarrow> if k = k' then [v] else []) js)"

lemma sayings_simps [simp]:
  "sayings k [] = []"
  "sayings k (j # js) = (case saying j of None \<Rightarrow> [] | Some (k', v) \<Rightarrow> if k = k' then [v] else []) @ sayings k js"
  by (simp_all add: sayings_def)

lemma sayings_links: "sayings k (filter (\<lambda>j. \<not> is_link j) js) = sayings k js"
proof (induction js)
  case (Cons j js)
  have "is_link j \<Longrightarrow> saying j = None" by (cases j) simp_all
  with Cons show ?case by auto
qed simp

definition history :: "version list \<Rightarrow> journal option \<Rightarrow> journal option" where
  "history vs = fold (\<lambda>(con, ed, del). journal_step con ed del) vs"

lemma history_said:
  "history (sayings k (j # js)) old = history (sayings k js) (said_step (saying j) k old)"
  by (auto simp: history_def said_step_def split: option.split prod.split)

text \<open>
  Versions that arrive in the order of their dates, none of them a deletion; two with the same date say the
  same. Then nothing that was said is lost.
\<close>

definition orderly :: "version list \<Rightarrow> bool" where
  "orderly vs \<longleftrightarrow> vs \<noteq> [] \<and> (\<forall>(con, ed, del)\<in>set vs. \<not> del) \<and>
     sorted_wrt (\<lambda>(con, ed, del) (con', ed', del'). ed < ed' \<or> ed = ed' \<and> version_of con = version_of con') vs"

definition contents :: "version list \<Rightarrow> (MessageContentType \<times> string option) list" where
  "contents vs = remdups_adj (map (\<lambda>(con, ed, del). version_of con) vs)"

lemma history_rest_orderly:
  "orderly ((con, ed, False) # vs) \<Longrightarrow>
   history vs (Some \<lparr>j_versions = xs @ [version_of con], j_date = ed, j_deleted = False\<rparr>) =
     Some \<lparr>j_versions = xs @ contents ((con, ed, False) # vs), j_date = fst (snd (last ((con, ed, False) # vs))),
       j_deleted = False\<rparr>"
proof (induction vs arbitrary: con ed xs)
  case (Cons v vs)
  obtain con' ed' where v: "v = (con', ed', False)" using Cons.prems by (cases v) (auto simp: orderly_def)
  have rest: "orderly ((con', ed', False) # vs)" using Cons.prems by (simp add: orderly_def v)
  show ?case
  proof (cases "version_of con' = version_of con")
    case True
    with Cons.IH [OF rest, of xs] show ?thesis
      by (simp add: history_def v journal_step_def contents_def)
  next
    case False
    with Cons.prems have "ed < ed'" by (auto simp: orderly_def v)
    with False Cons.IH [OF rest, of "xs @ [version_of con]"] show ?thesis
      by (simp add: history_def v journal_step_def contents_def)
  qed
qed (simp add: history_def contents_def)

lemma history_orderly:
  assumes "orderly vs" and ds: "ds = [] \<or> (\<exists>con ed. ds = [(con, ed, True)])"
  shows "history (vs @ ds) None =
    Some \<lparr>j_versions = contents vs, j_date = fst (snd (last vs)), j_deleted = (ds \<noteq> [])\<rparr>"
proof -
  obtain con ed ws where vs: "vs = (con, ed, False) # ws" using assms(1) by (cases vs) (auto simp: orderly_def)
  have "history vs None = history ws (Some \<lparr>j_versions = [] @ [version_of con], j_date = ed, j_deleted = False\<rparr>)"
    by (simp add: history_def vs journal_step_def)
  also have "\<dots> = Some \<lparr>j_versions = contents vs, j_date = fst (snd (last vs)), j_deleted = False\<rparr>"
    using history_rest_orderly [of con ed ws "[]"] assms(1) by (simp add: vs)
  finally have "history (vs @ ds) None = history ds (Some \<lparr>j_versions = contents vs, j_date = fst (snd (last vs)), j_deleted = False\<rparr>)"
    by (simp add: history_def)
  with ds show ?thesis by (auto simp: history_def journal_step_def)
qed

primrec serial_jobs :: "activity list \<Rightarrow> serial_job list" where
  "serial_jobs [] = []"
| "serial_jobs (a # as) = (case a of Serial j \<Rightarrow> [j] | _ \<Rightarrow> []) @ serial_jobs as"

primrec file_jobs :: "activity list \<Rightarrow> file_job list" where
  "file_jobs [] = []"
| "file_jobs (a # as) = (case a of Filing f \<Rightarrow> [f] | _ \<Rightarrow> []) @ file_jobs as"

lemma stays_known:
  assumes "stays d d'" and "\<forall>(t, i)\<in>set K. t \<noteq> T_group_admins \<and> has_id d t (IntV i)"
  shows "\<forall>(t, i)\<in>set K. t \<noteq> T_group_admins \<and> has_id d' t (IntV i)"
  using assms stays_ids [OF assms(1)] unfolding has_id_ids by blast

lemma introduced_tables: "(t, i) \<in> set (introduced j) \<Longrightarrow> t \<noteq> T_group_admins"
  by (cases j) auto

lemma activities_journals:
  assumes up: "answers sv" and "tidy sv s"
    and "\<forall>(t, i)\<in>set K. t \<noteq> T_group_admins \<and> has_id (disk s) t (IntV i)"
    and "grounded K (serial_jobs work)"
    and "\<And>m. F_Message_File m \<in> set (file_jobs work) \<Longrightarrow> mf_content_type m \<in> set file_kinds"
    and "run_activities h sd sv work (fs, s) = (fs', t)"
  shows "message_journal (disk t) k = history (sayings k (serial_jobs work)) (message_journal (disk s) k)"
  using assms(2-)
proof (induction work arbitrary: fs s K)
  case Nil
  then show ?case by (simp add: run_activities_def history_def)
next
  case (Cons a work)
  obtain fs2 u where one: "run_activity h sd sv a (fs, s) = (fs2, u)" by (cases "run_activity h sd sv a (fs, s)")
  with Cons.prems(5) have rest: "run_activities h sd sv work (fs2, u) = (fs', t)" by (simp add: run_activities_def)
  note tidy = Cons.prems(1)
  show ?case
  proof (cases a)
    case (Serial j)
    then have u: "u = run_job j sv s" using one by simp
    have "stays (disk s) (disk u)" unfolding u by (rule run_job_stays [OF tidy])
    from stays_known [OF this Cons.prems(2)] run_job_introduced [OF up tidy, of _ _ j] introduced_tables [of _ _ j]
    have "\<forall>(t, i)\<in>set (introduced j @ K). t \<noteq> T_group_admins \<and> has_id (disk u) t (IntV i)"
      unfolding u by fastforce
    from Cons.IH [OF run_job_tidy [OF up tidy, of j, folded u] this _ _ rest] Cons.prems(3,4) Serial
    have "message_journal (disk t) k = history (sayings k (serial_jobs work)) (message_journal (disk u) k)" by simp
    moreover have "message_journal (disk u) k = said_step (saying j) k (message_journal (disk s) k)"
      unfolding u by (rule run_job_journals [OF up tidy]) (use Cons.prems(2,3) Serial in auto)
    ultimately show ?thesis using history_said [of k j] Serial by simp
  next
    case (Filing f)
    obtain l where run: "run_file_job h sd f fs sv s = (l, fs2, u)"
      using one Filing by (cases "run_file_job h sd f fs sv s") auto
    have "stays (disk s) (disk u)"
      using run_file_job_safe [OF run] tidy_both(3) [OF tidy] by (simp add: safe_step_def)
    from stays_known [OF this Cons.prems(2)] run_file_job_tidy [OF up tidy run] Cons.IH [OF _ _ _ _ rest] Cons.prems(3,4) Filing
    show ?thesis by auto
  next
    case Reconnect
    with one tidy have "u = s" by (cases s) (auto simp: tidy_def clean_def)
    with Cons.IH [OF tidy Cons.prems(2) _ _ rest [unfolded \<open>u = s\<close>]] Cons.prems(3,4) Reconnect show ?thesis by simp
  qed
qed

section \<open>Properties\<close>

text \<open>C3: a job is not refused. On a server that answers every call, with the database in order and no transaction
  left open, every job whose foreign keys point to stored rows returns normally: no statement breaks a
  unique or foreign key, no column is missing, no text fails to convert to a number, and the session it
  leaves is in order again.\<close>

theorem job_accepted:
  assumes "answers sv" and "tidy sv s" and "\<forall>(t, i)\<in>set (refs_of j). has_id (disk s) t (IntV i)"
  shows "\<exists>u. run_op j sv s = (Inr (), u) \<and> tidy sv u"
proof -
  obtain u where run: "run_op j sv s = (Inr (), u)"
    using job_returns [OF assms(1) tidy_good [OF assms(2,3)]] by blast
  moreover have "tidy sv u" using run_job_tidy [OF assms(1,2), of j] run by (simp add: run_job_def)
  ultimately show ?thesis by blast
qed

text \<open>C1: every message the client hears of is in the database when \<open>start\<close> returns. Take any run of the
  threads that ends with both pools shut down, whose events are those of a client to which TDLib
  introduces users and chats first; let the jobs the pools finished act on a database in order, the
  file jobs anywhere in between, over a server that answers. Then for every message of either family the
  database holds what replaying the events about it, in their order, makes of what was stored before: a
  version that says something new is added if its date is later and otherwise replaces the current one,
  the first report of a deletion only marks the message, and a further one overwrites its content. In particular, if the
  message was not stored before, its versions come in the order of their dates (two with the same date
  saying the same) and at most one report of its deletion follows, then no version is lost: the database
  holds all of them, consecutive ones that say the same merged, with the last edit date and whether the
  message was deleted.\<close>

theorem every_message_logged:
  assumes r: "reach app_init app_step a" and joined: "stop (serial a) = S_Joined"
    and c: "reach td_start intro_step c" and inst: "{H_User, H_Group} \<subseteq> installed c" and "events c = raised a @ es"
    and serial: "serial_jobs work = finished (serial a)" and files: "set (file_jobs work) \<subseteq> set (finished (files a))"
    and up: "answers sv" and tidy: "tidy sv s" and run: "run_activities h sd sv work (fs, s) = (fs', t)"
  shows "message_journal (disk t) k = history (sayings k (posts serial_of (raised a))) (message_journal (disk s) k) \<and>
    (\<forall>vs ds. sayings k (posts serial_of (raised a)) = vs @ ds \<and> message_journal (disk s) k = None \<and>
       orderly vs \<and> (ds = [] \<or> (\<exists>con ed. ds = [(con, ed, True)])) \<longrightarrow>
       message_journal (disk t) k =
         Some \<lparr>j_versions = contents vs, j_date = fst (snd (last vs)), j_deleted = (ds \<noteq> [])\<rparr>)"
proof -
  note lost = all_jobs_run [OF r joined]
  then have jobs: "filter (\<lambda>j. \<not> is_link j) (serial_jobs work) = posts serial_of (raised a)" by (simp add: serial)
  have "posts serial_of (events c) = posts serial_of (raised a) @ posts serial_of es"
    by (simp add: assms(5) posts_def)
  then have "grounded [] (posts serial_of (raised a))"
    using messages_grounded [OF c inst] by (simp add: grounded_prefix)
  then have "grounded [] (serial_jobs work)" using grounded_links [of "[]" "serial_jobs work"] by (simp add: jobs)
  moreover have "mf_content_type m \<in> set file_kinds" if "F_Message_File m \<in> set (file_jobs work)" for m
  proof -
    have "set (finished (files a)) = set (posts file_of (raised a))" using lost by (metis set_mset_mset)
    with that files have "F_Message_File m \<in> set (posts file_of (raised a))" by auto
    then obtain e where "e \<in> set (raised a)" "file_of e = Some (F_Message_File m)"
      by (auto simp: posts_def split: option.splits)
    with client_file_kinds [OF intro_reach [OF c], of e m] show ?thesis by (simp add: assms(5))
  qed
  ultimately have "message_journal (disk t) k = history (sayings k (serial_jobs work)) (message_journal (disk s) k)"
    by (intro activities_journals [OF up tidy _ _ _ run]) simp_all
  then have "message_journal (disk t) k = history (sayings k (posts serial_of (raised a))) (message_journal (disk s) k)"
    using sayings_links [of k "serial_jobs work"] by (simp add: jobs)
  then show ?thesis using history_orderly by auto
qed

text \<open>A run that ends: each event is handled and its job done before the next one, then both pools are shut down.\<close>

definition calm :: "app \<Rightarrow> bool" where
  "calm s \<longleftrightarrow> loop_at s = L_Idle \<and> idle_pool (files s) \<and> idle_pool (serial s) \<and> all_out (serial s) \<and>
     nowhere W_Wait (workers (serial s)) \<and> \<not> draining (serial s) \<and> 0 < unat (cap (serial s))"

definition serve :: "td_event \<Rightarrow> app \<Rightarrow> app" where
  "serve e s = (let js = (case serial_of e of None \<Rightarrow> [] | Some j \<Rightarrow> [j]) in
     s\<lparr>raised := raised s @ [e], serial := (serial s)\<lparr>accepted := accepted (serial s) @ js,
       started := started (serial s) @ js, finished := finished (serial s) @ js\<rparr>\<rparr>)"

lemma serve_reach:
  assumes r: "reach app_init app_step s" and calm: "calm s" and none: "file_of e = None"
  shows "reach app_init app_step (serve e s)" and "calm (serve e s)"
proof -
  have absorbed: "reach app_init app_step (absorb e s)"
    using calm by (intro absorb_reach [OF r _ none]) (simp_all add: calm_def idle_pool_def)
  show "reach app_init app_step (serve e s)"
  proof (cases "serial_of e")
    case None
    then have "absorb e s = serve e s"
      using calm by (intro app.equality) (simp_all add: absorb_def serve_def calm_def)
    with absorbed show ?thesis by simp
  next
    case (Some j)
    have "workers (serial (absorb e s)) 0 = W_Loop" "q (serial (absorb e s)) = [j]" "all_out (serial (absorb e s))"
      using calm Some by (simp_all add: absorb_def calm_def idle_pool_def all_out_def)
    moreover have "(serial (absorb e s))\<lparr>q := [], started := started (serial (absorb e s)) @ [j],
        finished := finished (serial (absorb e s)) @ [j]\<rparr> = serial (serve e s)"
      using calm Some by (intro tpool.equality) (simp_all add: absorb_def serve_def Let_def calm_def idle_pool_def)
    ultimately have "reach app_init app_step ((absorb e s)\<lparr>serial := serial (serve e s)\<rparr>)"
      using serial_one [OF absorbed] by metis
    moreover have "(absorb e s)\<lparr>serial := serial (serve e s)\<rparr> = serve e s"
      using calm by (intro app.equality) (simp_all add: absorb_def serve_def Let_def calm_def)
    ultimately show ?thesis by simp
  qed
  show "calm (serve e s)" using calm by (simp add: calm_def serve_def Let_def idle_pool_def all_out_def)
qed

definition wind_up :: "app \<Rightarrow> app" where
  "wind_up s = s\<lparr>loop_at := L_Left, files := (ending (files s))\<lparr>stop := S_Joined\<rparr>,
     serial := (ending (serial s))\<lparr>stop := S_Joined\<rparr>\<rparr>"

lemma wind_up_reach:
  assumes "reach app_init app_step s" and "calm s"
  shows "reach app_init app_step (wind_up s)"
proof -
  have "outer_step s (s\<lparr>loop_at := L_Left\<rparr>)" using assms(2) by (intro leave) (simp add: calm_def)
  then have "reach app_init app_step (s\<lparr>loop_at := L_Left\<rparr>)" using assms(1) by (auto intro: reach_step simp: app_step_def)
  from files_end [OF this] assms(2) serial_end show ?thesis by (fastforce simp: wind_up_def calm_def)
qed

lemma wind_up_sel [simp]: "raised (wind_up s) = raised s" "stop (serial (wind_up s)) = S_Joined"
  "finished (serial (wind_up s)) = finished (serial s)"
  by (simp_all add: wind_up_def ending_def worker_section_def worker_at_def stop_defs split: list.split)

definition told_app :: app where
  "told_app = wind_up (serve (E_Text told_text) (serve (E_Private (build_private_message first_message))
     (serve (E_User (map_user known_user)) fresh_app)))"

lemma told_app_reach: "reach app_init app_step told_app"
proof -
  have calm: "calm fresh_app"
    by (simp add: calm_def fresh_defs idle_pool_def all_out_def nowhere_def)
  show ?thesis
    unfolding told_app_def by (intro wind_up_reach serve_reach fresh_reach calm) simp_all
qed

lemma told_app_sel: "raised told_app = events told_client"
  "finished (serial told_app) = [J_User (map_user known_user), J_Private (build_private_message first_message)]"
  by (simp_all add: told_app_def serve_def told_events fresh_defs)

lemma tidy_empty: "tidy quiet empty_session"
  using db_ok_empty by (simp add: tidy_def empty_session_def typed_rows_def clean_def)

lemma answers_quiet: "answers quiet"
  by (simp add: answers_def quiet_def)

theorem job_accepted_witness:
  "\<exists>u. run_op (J_Private sample_pm) quiet (run_job (J_User (map_user known_user)) quiet empty_session) = (Inr (), u)"
proof -
  let ?j = "J_User (map_user known_user)"
  have "has_id (disk (run_job ?j quiet empty_session)) T_users (IntV 7)"
    by (rule run_job_introduced [OF answers_quiet tidy_empty]) (simp add: known_user_def)
  then have "\<forall>(t, i)\<in>set (refs_of (J_Private sample_pm)). has_id (disk (run_job ?j quiet empty_session)) t (IntV i)"
    by (auto simp: sample_pm_def opt_ref_def forward_refs_def)
  from job_accepted [OF answers_quiet run_job_tidy [OF answers_quiet tidy_empty] this] show ?thesis by blast
qed

theorem every_message_logged_witness:
  "message_journal (disk (snd (run_activities example_host ''s'' quiet
     [Serial (J_User (map_user known_user)), Reconnect, Serial (J_Private (build_private_message first_message))]
     (Map.empty, empty_session)))) (False, 7, 1) =
   Some \<lparr>j_versions = [(Ct_Text, Some ''hi'')], j_date = 0, j_deleted = False\<rparr>"
proof -
  let ?work = "[Serial (J_User (map_user known_user)), Reconnect, Serial (J_Private (build_private_message first_message))]"
  obtain fs t where run: "run_activities example_host ''s'' quiet ?work (Map.empty, empty_session) = (fs, t)"
    by (cases "run_activities example_host ''s'' quiet ?work (Map.empty, empty_session)")
  have "message_journal (disk t) (False, 7, 1) = history (sayings (False, 7, 1) (posts serial_of (raised told_app)))
      (message_journal (disk empty_session) (False, 7, 1))"
    by (rule conjunct1, rule every_message_logged [OF told_app_reach _ told_reach _ _ _ _ answers_quiet tidy_empty run, of "[]"])
      (simp_all add: told_app_sel told_events, simp add: told_app_def)
  moreover have "message_journal (disk empty_session) (False, 7, 1) = None"
    by (simp add: message_journal_def journal_of_def family_store_def stored_in_def live_store_def empty_session_def)
  ultimately show ?thesis
    by (simp add: run told_app_sel told_events posts_def history_def journal_step_def version_of_def)
      (simp add: client_eval extract_message_content_def)
qed

end
