(* ===== verification/Spec2Isabelle.thy ===== *)
theory Spec2Isabelle
  imports Db_Files Db_Message_Props Db_Admins Db_Profile_Props Db_Types Conn_Pool Thread_Pool Td_Polling
    Tg_Shutdown Tg_Main Tg_Logged
begin

text \<open>
  Verification library of tgloggerd, a daemon that logs a Telegram account into a MySQL database and a
  content-addressed store of files. All paths are below \<open>src/\<close> of the repository.

  \<^bold>\<open>The program.\<close> \<open>main\<close> (src/main.c) reads the environment, opens the log and runs \<open>TgLoggerd::start\<close>
  (tgloggerd/TgLoggerd.cpp). \<open>start\<close> creates the data directories, checks the database, sizes and starts two
  thread pools (tgloggerd/ThreadPool.cpp), and runs an event loop on the TDLib client (tgloggerd/TDLib.cpp).
  The client turns TDLib's updates and answers into models and calls a handler for each; every handler
  posts a job. The pool \<open>serial_\<close> has one worker and writes the rows (tgloggerd/models/*.cpp over
  mysql/Database.cpp, on connections of mysql/ConnectionPool.cpp); the pool \<open>files_\<close> has several, which hash
  and copy downloaded files and post a link job back to \<open>serial_\<close>. On a signal the loop ends, and the two
  pools are drained, \<open>files_\<close> first.

  \<^bold>\<open>The theories,\<close> from the database upwards, and the code they translate:
  \<^item> \<open>Tg_Prelude\<close>: fact collections and generic lemmas on lists, options and updates.
  \<^item> \<open>Tg_Schema\<close>: migrations/000001 to 000008, the tables with defaults, unique keys and foreign keys.
    \<open>Db_Types\<close> adds the types of the columns (NULL, ENUM lists, length of the digest).
  \<^item> \<open>Sql_Engine\<close>: the SQL of the program's string literals and the effect of one statement; \<open>Sql_Keyed\<close>:
    its effect seen through a unique key.
  \<^item> \<open>Db_Session\<close>: mysql/Database.cpp; a program is a function of the server (collation, which driver call
    fails, hash order) and the session, and returns an exception or a value and the session after it. The
    fault schedule is a universally quantified function of the number of driver calls made.
  \<^item> \<open>Db_Contract\<close>: what the database layer promises its clients; \<open>Db_Permanence\<close>: what no statement of the
    program takes back; \<open>Db_Success\<close>: total correctness, the programs return on a server that answers.
  \<^item> \<open>Db_Messages\<close>, \<open>Db_Message_Store\<close>, \<open>Db_Message_Props\<close>: models/Message, PrivateMessage,
    GroupMessage; \<open>Db_Journal\<close>: all the database says of one message over time.
  \<^item> \<open>Db_Users\<close>, \<open>Db_Groups\<close>, \<open>Db_Profiles\<close>, \<open>Db_Names\<close>, \<open>Db_Profile_Props\<close>: models/User and Group.
  \<^item> \<open>Db_Admins\<close>: models/GroupAdmin; \<open>Db_Files\<close>: models/File.
  \<^item> \<open>Tg_Monitor\<close>: steps of threads, reachable states, condition variables; \<open>Conn_Pool\<close>: mysql/ConnectionPool;
    \<open>Thread_Pool\<close>: tgloggerd/ThreadPool.
  \<^item> \<open>Td_Mapping\<close>: the free functions of tgloggerd/TDLib.cpp, TDLib objects to models; \<open>Td_Client\<close>: the class,
    its state, every handler of an update or answer, polling, downloads, authorization; \<open>Td_Trace\<close>: those
    functions as sequences of elementary actions; \<open>Td_Client_Props\<close> and \<open>Td_Polling\<close>: its properties.
  \<^item> \<open>Tg_Store\<close>: hashing, naming and copying of \<open>storeDownloadedFile\<close>; \<open>Tg_App\<close>: the handlers and jobs of
    TgLoggerd.cpp; \<open>Tg_Drain\<close>: the event loop, both pools and the shutdown running together, each thread
    at its own program point; \<open>Tg_Shutdown\<close>: their progress; \<open>Tg_Grounded\<close>: what the messages refer to is
    introduced before; \<open>Tg_Logged\<close>: client, threads and database end to end.
  \<^item> \<open>Tg_Main\<close>: src/main.c, helpers/common.c, helpers/log.c and log.h, tgloggerd_extern.cpp, and the
    beginning of \<open>start\<close>.

  A C++ struct is a record with the members' names (prefixed where two structs share one), an enum a
  datatype, \<open>std::optional\<close> and nullable pointers are options, an exception is the left of a sum. Identifiers
  and dates are \<open>int\<close>; query ids, pool sizes and areas of photos are words of their width, since they are
  computed with. An \<open>unordered_map\<close> that is only looked up is a map; one that is iterated over is an
  association list, visited in an order the environment chooses. Each statement's text is a value of
  \<open>sql_stmt\<close> or \<open>sql_query\<close> with the placeholders in textual order.

  \<^bold>\<open>Interfaces.\<close> \<open>stmt_relation\<close> asks of a relation between sessions that every driver call respects it, and
  gives it for every program built from the calls; \<open>row_invariant\<close> and \<open>row_relation\<close> extend it to
  transactions that may fail at any call. They are interpreted by isolation of an open transaction,
  integrity (unique keys, foreign keys, id counters), append-only tables, untouched tables, permanence of
  stored rows, and typed rows. \<open>message_family\<close>, \<open>profile_family\<close>, \<open>photo_family\<close> and \<open>name_family\<close> state once what the code
  writes twice, and are interpreted by the private and the group, the user and the group code. \<open>monitor\<close> is
  the contract of a condition variable, interpreted for the waiters of the connection pool and for the
  workers and the posters of the thread pool.

  \<^bold>\<open>What is shown.\<close>
  \<^item> End to end: after a run that ends, over a server that answers, the database holds of every message what
    replaying the client's events about it gives; all its versions, if they arrive in the order of their
    dates and the message is deleted at most once (a late version replaces the current one, and a second
    report of the deletion overwrites it). This composes the client's trace (users and chats are introduced
    before messages mention them), the threads (every job of every event is run, in order), total
    correctness of the jobs (none is refused) and the refinement of the upserts, with file jobs anywhere
    in between.
  \<^item> Refinement: the message upserts, the file upsert, the administrator sync, the profile upserts and
    the username sync implement steps of abstract stores, all or nothing, whichever driver call fails; the
    columns of a user and of an administrator are specified one by one, apart from the statements;
    histories are complete (an edit, a name or an administrator that was replaced can be read back).
  \<^item> Safety over any sequence of jobs: integrity, no stored row lost, append-only histories,
    typed rows; content addressing, as long as no read or copy breaks off in the middle of a file.
  \<^item> The client, over every sequence of responses: messages go to the table of their chat kind, links follow
    what they link, query ids are fresh, administrators come only from member lists, one polling alarm is
    in flight after the first login when polling is configured, polling equals a round-robin reference and starves no group, a reply chain ends.
  \<^item> Threads, over every interleaving: bounds of the pools, order of jobs, no lost wake-up; nothing that was
    posted is lost, and a link job runs after the row it links was written; the threads come to rest, and
    the shutdown completes.
  \<^item> Error behaviour, some of it not what the comments promise: a copy that breaks off is taken for the
    stored file later, a file in the way of a data directory is taken for it, a repeated deletion overwrites the logged content, an unknown user keeps a whole
    administrator list from being stored, two workers with the same new content collide, a respelled
    username never settles, a failed start is not reported by the exit status, TG_LOG_LEVEL has no effect,
    and a negative number of file workers asks for almost 2^64.

  \<^bold>\<open>Bounds and fuel.\<close> No function of the model runs on fuel that could end early: the loops of the code
  are recursions over lists, the batch loop of the polling counts the queue's length at its start as the code
  does, and the other recursions have their termination proofs. \<open>kMaxReplyDepth\<close> is 128 as in the code and
  bounds the queries one message can cause. Query ids are 64 bits wide; statements about their freshness
  assume fewer than 2^64 queries. Progress of the threads is shown by natural-number measures that every
  step of a thread decreases; spurious wake-ups are steps of their own, and the bounds are for runs without
  them. Termination is proved as the existence of a next step and the decrease of the measure, not assumed.

  \<^bold>\<open>Not modelled.\<close> The MySQL server beyond the statements the program sends: query plans, locks (a
  transaction is atomic; two concurrent transactions are interleaved only where the code's lookup and insert
  race), the gaps a failed INSERT leaves in the ids, widths of numbers and of character columns, character sets (the collation is any function to weights;
  text and byte columns never compare equal). TDLib itself: any object may arrive as any response, and a
  property that needs more says so (\<open>honest\<close>: an answer is of the chat asked for; \<open>introduces_first\<close>: TDLib's
  guarantee that the updates of a user or chat precede its identifier). A server that fails loses what the
  jobs of that moment would have stored; what remains true then is stated without \<open>answers\<close>. The C++ library's file system, OpenSSL's digest, \<open>mkdir\<close> (\<open>mkdir_manual\<close>: its documented
  results), the clock and the streams are parameters. The text of log messages apart from \<open>__pr_log\<close> itself, the download
  progress TDLib reports, memory exhaustion in C++ code, and the build and deployment files. Header
  declarations without code are covered by the definitions of what they declare.
\<close>

end
